(* ===== verification/Obn_Prelude.thy ===== *)
theory Obn_Prelude
  imports Main "HOL-Library.Word" "HOL-Library.Char_ord" "HOL-Library.List_Lexorder"
    "HOL-Library.Code_Target_Nat"
begin

text \<open>
  Shared vocabulary of the development: the machine types the plugin uses, byte buffers
  (\<open>std::vector<uint8_t>\<close>) as lists of 8-bit words, \<open>std::string\<close> as lists of
  characters (one character is one byte), the string searches of the C++ library, decimal
  and hexadecimal printing and reading, little- and big-endian fields, and the contract of
  a fixed-width field codec as a locale with its interpretations, \<open>std::map\<close>, and the
  contract of a decoder of a byte stream.
\<close>

unbundle bit_operations_syntax

section \<open>Machine types\<close>

type_synonym byte = "8 word"
type_synonym u16 = "16 word"
type_synonym u32 = "32 word"
type_synonym u64 = "64 word"
type_synonym bytes = "byte list"

named_theorems byte_simps \<open>evaluation of byte and character conversions\<close>
named_theorems le_simps \<open>little- and big-endian fields\<close>
named_theorems str_simps \<open>string searches and trimming\<close>

definition byte_of_char :: "char \<Rightarrow> byte" where
  "byte_of_char c = of_nat (of_char c)"

definition char_of_byte :: "byte \<Rightarrow> char" where
  "char_of_byte b = char_of (unat b)"

definition bytes_of_string :: "string \<Rightarrow> bytes" where
  "bytes_of_string s = map byte_of_char s"

definition string_of_bytes :: "bytes \<Rightarrow> string" where
  "string_of_bytes bs = map char_of_byte bs"

text \<open>The code of a character as an unsigned number (\<open>static_cast<unsigned char>\<close>).\<close>

definition code :: "char \<Rightarrow> nat" where
  "code c = of_char c"

section \<open>Searching in strings\<close>

text \<open>\<open>std::string::find(char)\<close>: the index of the first occurrence.\<close>

fun find_char :: "'a \<Rightarrow> 'a list \<Rightarrow> nat option" where
  "find_char c [] = None"
| "find_char c (x # xs) = (if x = c then Some 0 else map_option Suc (find_char c xs))"

text \<open>\<open>std::string::find_first_of\<close>, for a predicate on characters.\<close>

fun find_first :: "('a \<Rightarrow> bool) \<Rightarrow> 'a list \<Rightarrow> nat option" where
  "find_first P [] = None"
| "find_first P (x # xs) = (if P x then Some 0 else map_option Suc (find_first P xs))"

fun starts_with :: "'a list \<Rightarrow> 'a list \<Rightarrow> bool" where
  "starts_with [] s = True"
| "starts_with (p # ps) [] = False"
| "starts_with (p # ps) (x # xs) = (p = x \<and> starts_with ps xs)"

definition ends_with :: "'a list \<Rightarrow> 'a list \<Rightarrow> bool" where
  "ends_with s suf = starts_with (rev suf) (rev s)"

text \<open>\<open>std::string::find(const std::string&)\<close>.\<close>

fun str_find :: "'a list \<Rightarrow> 'a list \<Rightarrow> nat option" where
  "str_find p [] = (if p = [] then Some 0 else None)"
| "str_find p (x # xs) =
     (if starts_with p (x # xs) then Some 0 else map_option Suc (str_find p xs))"

text \<open>\<open>std::string::rfind(char)\<close> and \<open>find_last_of\<close>.\<close>

definition rfind_first :: "('a \<Rightarrow> bool) \<Rightarrow> 'a list \<Rightarrow> nat option" where
  "rfind_first P s = map_option (\<lambda>i. length s - Suc i) (find_first P (rev s))"

text \<open>\<open>std::string::substr(pos, n)\<close>, for a position inside the string.\<close>

definition substr :: "nat \<Rightarrow> nat \<Rightarrow> 'a list \<Rightarrow> 'a list" where
  "substr pos n s = take n (drop pos s)"

definition rtrim :: "('a \<Rightarrow> bool) \<Rightarrow> 'a list \<Rightarrow> 'a list" where
  "rtrim P s = rev (dropWhile P (rev s))"

definition trim_by :: "('a \<Rightarrow> bool) \<Rightarrow> 'a list \<Rightarrow> 'a list" where
  "trim_by P s = rtrim P (dropWhile P s)"

section \<open>Character classes of the C locale\<close>

definition is_digit :: "char \<Rightarrow> bool" where
  "is_digit c = (48 \<le> code c \<and> code c \<le> 57)"

definition is_space :: "char \<Rightarrow> bool" where
  "is_space c = (code c = 32 \<or> (9 \<le> code c \<and> code c \<le> 13))"

definition to_lower_char :: "char \<Rightarrow> char" where
  "to_lower_char c = (if 65 \<le> code c \<and> code c \<le> 90 then char_of (code c + 32) else c)"

definition to_lower :: "string \<Rightarrow> string" where
  "to_lower s = map to_lower_char s"

definition digit_val :: "char \<Rightarrow> nat" where
  "digit_val c = code c - 48"

definition digit_char :: "nat \<Rightarrow> char" where
  "digit_char n = char_of (48 + n)"

section \<open>Decimal printing and reading\<close>

text \<open>\<open>std::to_string\<close> of an unsigned value, and of a signed one.\<close>

fun dec_digits :: "nat \<Rightarrow> string" where
  "dec_digits n =
     (if n < 10 then [digit_char n] else dec_digits (n div 10) @ [digit_char (n mod 10)])"

declare dec_digits.simps [simp del]

definition dec_int :: "int \<Rightarrow> string" where
  "dec_int i = (if i < 0 then CHR ''-'' # dec_digits (nat (- i)) else dec_digits (nat i))"

definition dec_val :: "string \<Rightarrow> nat" where
  "dec_val s = foldl (\<lambda>a c. 10 * a + digit_val c) 0 s"

text \<open>
  The value \<open>strtol\<close> and its kin read: leading white space, an optional sign, then the
  longest run of digits; \<open>None\<close> when there is no digit.
\<close>

definition strto_int :: "string \<Rightarrow> int option" where
  "strto_int s =
     (let s1 = dropWhile is_space s;
          neg = (case s1 of c # _ \<Rightarrow> c = CHR ''-'' | [] \<Rightarrow> False);
          s2 = (case s1 of c # cs \<Rightarrow> (if c = CHR ''-'' \<or> c = CHR ''+'' then cs else s1) | [] \<Rightarrow> s1);
          ds = takeWhile is_digit s2
      in if ds = [] then None
         else Some (if neg then - int (dec_val ds) else int (dec_val ds)))"

text \<open>
  \<open>std::atoi\<close> is \<open>(int)strtol(s, nullptr, 10)\<close>: the value is clamped to 64 bits and
  then cut to 32.
\<close>

definition clamp_s64 :: "int \<Rightarrow> int" where
  "clamp_s64 i = max (- (2 ^ 63)) (min (2 ^ 63 - 1) i)"

definition wrap_s32 :: "int \<Rightarrow> int" where
  "wrap_s32 i = (i + 2 ^ 31) mod 2 ^ 32 - 2 ^ 31"

definition atoi :: "string \<Rightarrow> int" where
  "atoi s = (case strto_int s of None \<Rightarrow> 0 | Some i \<Rightarrow> wrap_s32 (clamp_s64 i))"

section \<open>Hexadecimal digits\<close>

definition hex_lower_digit :: "nat \<Rightarrow> char" where
  "hex_lower_digit n = (if n < 10 then char_of (48 + n) else char_of (87 + n))"

definition hex_upper_digit :: "nat \<Rightarrow> char" where
  "hex_upper_digit n = (if n < 10 then char_of (48 + n) else char_of (55 + n))"

definition hex_val :: "char \<Rightarrow> nat option" where
  "hex_val c =
     (if 48 \<le> code c \<and> code c \<le> 57 then Some (code c - 48)
      else if 97 \<le> code c \<and> code c \<le> 102 then Some (code c - 97 + 10)
      else if 65 \<le> code c \<and> code c \<le> 70 then Some (code c - 65 + 10)
      else None)"

section \<open>Endian fields\<close>

definition le16 :: "u16 \<Rightarrow> bytes" where
  "le16 v = [ucast v, ucast (drop_bit 8 v)]"

definition le32 :: "u32 \<Rightarrow> bytes" where
  "le32 v = [ucast v, ucast (drop_bit 8 v), ucast (drop_bit 16 v), ucast (drop_bit 24 v)]"

text \<open>Reading takes the first bytes of a buffer that holds at least that many.\<close>

definition get_le16 :: "bytes \<Rightarrow> u16" where
  "get_le16 p = (ucast (p ! 0) OR push_bit 8 (ucast (p ! 1)))"

definition get_le32 :: "bytes \<Rightarrow> u32" where
  "get_le32 p =
     (ucast (p ! 0) OR push_bit 8 (ucast (p ! 1)) OR push_bit 16 (ucast (p ! 2))
        OR push_bit 24 (ucast (p ! 3)))"

text \<open>Overwriting part of a buffer (\<open>memcpy(buf + off, src, n)\<close>) that it fits in.\<close>

definition put_at :: "nat \<Rightarrow> 'a list \<Rightarrow> 'a list \<Rightarrow> 'a list" where
  "put_at off src buf = take off buf @ src @ drop (off + length src) buf"

section \<open>Lemmas: bytes and characters\<close>

lemma of_char_lt [simp]: "(of_char c :: nat) < 256"
  by simp

lemma code_lt [simp]: "code c < 256"
  by (simp add: code_def)

lemma code_char_of [simp]: "code (char_of n) = n mod 256"
  by (simp add: code_def)

lemma char_of_code [simp]: "char_of (code c) = c"
  by (simp add: code_def)

lemma code_inject [simp]: "code a = code b \<longleftrightarrow> a = b"
  by (metis char_of_code)

lemma char_of_byte_of_char [simp]: "char_of_byte (byte_of_char c) = c"
  by (simp add: char_of_byte_def byte_of_char_def unat_of_nat take_bit_eq_mod)

lemma byte_of_char_of_byte [simp]: "byte_of_char (char_of_byte b) = b"
proof -
  have "unat b < 256" using unsigned_less [of b] by simp
  then show ?thesis by (simp add: char_of_byte_def byte_of_char_def)
qed

lemma string_of_bytes_of_string [simp]: "string_of_bytes (bytes_of_string s) = s"
  by (simp add: string_of_bytes_def bytes_of_string_def comp_def)

lemma bytes_of_string_of_bytes [simp]: "bytes_of_string (string_of_bytes bs) = bs"
  by (simp add: string_of_bytes_def bytes_of_string_def comp_def)

lemma bytes_of_string_append [simp]:
  "bytes_of_string (s @ t) = bytes_of_string s @ bytes_of_string t"
  by (simp add: bytes_of_string_def)

lemma string_of_bytes_append [simp]:
  "string_of_bytes (s @ t) = string_of_bytes s @ string_of_bytes t"
  by (simp add: string_of_bytes_def)

lemma length_bytes_of_string [simp]: "length (bytes_of_string s) = length s"
  by (simp add: bytes_of_string_def)

lemma length_string_of_bytes [simp]: "length (string_of_bytes s) = length s"
  by (simp add: string_of_bytes_def)

lemma bytes_of_string_Nil [simp]: "bytes_of_string [] = []"
  by (simp add: bytes_of_string_def)

lemma bytes_of_string_Cons [simp]:
  "bytes_of_string (c # s) = byte_of_char c # bytes_of_string s"
  by (simp add: bytes_of_string_def)

lemma byte_of_char_inject [simp]: "byte_of_char a = byte_of_char b \<longleftrightarrow> a = b"
  by (metis char_of_byte_of_char)

section \<open>Lemmas: searching\<close>

lemma find_char_Some:
  "find_char c s = Some i \<Longrightarrow> i < length s \<and> s ! i = c \<and> c \<notin> set (take i s)"
  by (induction s arbitrary: i) (auto split: if_splits simp: nth_Cons')

lemma find_char_None [simp]: "find_char c s = None \<longleftrightarrow> c \<notin> set s"
  by (induction s) auto

lemma find_first_Some:
  "find_first P s = Some i \<Longrightarrow> i < length s \<and> P (s ! i) \<and> (\<forall>x \<in> set (take i s). \<not> P x)"
  by (induction s arbitrary: i) (auto split: if_splits)

lemma find_first_None [simp]: "find_first P s = None \<longleftrightarrow> (\<forall>x \<in> set s. \<not> P x)"
  by (induction s) auto

lemma find_char_append [simp]:
  "c \<notin> set s \<Longrightarrow> find_char c (s @ c # t) = Some (length s)"
  by (induction s) auto

lemma find_first_append [simp]:
  "\<forall>x \<in> set s. \<not> P x \<Longrightarrow> P c \<Longrightarrow> find_first P (s @ c # t) = Some (length s)"
  by (induction s) auto

lemma starts_with_append [simp]: "starts_with p (p @ s)"
  by (induction p) auto

lemma starts_with_conv: "starts_with p s \<longleftrightarrow> (\<exists>t. s = p @ t)"
  by (induction p s rule: starts_with.induct) auto

lemma starts_with_take: "starts_with p s \<longleftrightarrow> take (length p) s = p"
  by (auto simp: starts_with_conv) (metis append_take_drop_id)

lemma ends_with_conv: "ends_with s suf \<longleftrightarrow> (\<exists>t. s = t @ suf)"
  unfolding ends_with_def starts_with_conv
  by (metis rev_append rev_rev_ident)

lemma str_find_Some:
  "str_find p s = Some i \<Longrightarrow> i + length p \<le> length s \<and> starts_with p (drop i s)"
proof (induction p s arbitrary: i rule: str_find.induct)
  case (2 p x xs)
  show ?case
  proof (cases "starts_with p (x # xs)")
    case True
    then have "length p \<le> length (x # xs)"
      by (metis starts_with_conv length_append le_add1)
    with True 2 show ?thesis by auto
  qed (use 2 in auto)
qed (auto split: if_splits)

lemma str_find_None:
  "str_find p s = None \<longleftrightarrow> (\<forall>i \<le> length s. \<not> starts_with p (drop i s))"
proof (induction p s rule: str_find.induct)
  case (1 p)
  then show ?case by (cases p) auto
next
  case (2 p x xs)
  have "(\<forall>i \<le> length (x # xs). \<not> starts_with p (drop i (x # xs)))
     \<longleftrightarrow> \<not> starts_with p (x # xs) \<and> (\<forall>i \<le> length xs. \<not> starts_with p (drop i xs))"
    by (simp add: less_Suc_eq_le [symmetric] All_less_Suc2)
  with 2 show ?case by auto
qed

lemma rfind_first_Some:
  assumes "rfind_first P s = Some i"
  shows "i < length s" "P (s ! i)" "\<forall>x \<in> set (drop (Suc i) s). \<not> P x"
proof -
  from assms obtain j where j: "find_first P (rev s) = Some j" and i: "i = length s - Suc j"
    by (auto simp: rfind_first_def)
  from find_first_Some [OF j] have *: "j < length s" "P (rev s ! j)"
    "\<forall>x \<in> set (take j (rev s)). \<not> P x" by auto
  show "i < length s" using * i by simp
  show "P (s ! i)" using * i by (simp add: rev_nth)
  have "take j (rev s) = rev (drop (Suc i) s)" using * i by (simp add: take_rev Suc_diff_Suc)
  with * show "\<forall>x \<in> set (drop (Suc i) s). \<not> P x" by simp
qed

lemma rtrim_append [simp]: "\<forall>x \<in> set t. P x \<Longrightarrow> rtrim P (s @ t) = rtrim P s"
  unfolding rtrim_def by (subst rev_append, subst dropWhile_append2) auto

lemma rtrim_prefix: "\<exists>t. s = rtrim P s @ t \<and> (\<forall>x \<in> set t. P x)"
proof -
  have "rev s = takeWhile P (rev s) @ dropWhile P (rev s)" by simp
  then have "s = rtrim P s @ rev (takeWhile P (rev s))"
    unfolding rtrim_def by (metis rev_append rev_rev_ident)
  moreover have "\<forall>x \<in> set (rev (takeWhile P (rev s))). P x"
    by (auto dest: set_takeWhileD)
  ultimately show ?thesis by blast
qed

lemma rtrim_last: "rtrim P s \<noteq> [] \<Longrightarrow> \<not> P (last (rtrim P s))"
  by (simp add: rtrim_def last_rev hd_dropWhile)

lemma rtrim_id: "s = [] \<or> \<not> P (last s) \<Longrightarrow> rtrim P s = s"
  by (cases s rule: rev_cases) (auto simp: rtrim_def)

lemma set_rtrim: "set (rtrim P s) \<subseteq> set s"
  by (metis rtrim_prefix set_append Un_upper1)

lemma length_rtrim_le [simp]: "length (rtrim P s) \<le> length s"
  by (simp add: rtrim_def) (metis length_dropWhile_le length_rev)

section \<open>Lemmas: decimals\<close>

lemma digit_char_is_digit [simp]: "n < 10 \<Longrightarrow> is_digit (digit_char n)"
  by (simp add: is_digit_def digit_char_def)

lemma digit_val_digit_char [simp]: "n < 10 \<Longrightarrow> digit_val (digit_char n) = n"
  by (simp add: digit_val_def digit_char_def)

lemma dec_digits_all_digits: "c \<in> set (dec_digits n) \<Longrightarrow> is_digit c"
proof (induction n rule: dec_digits.induct)
  case (1 n)
  then show ?case
    by (cases "n < 10") (auto simp: dec_digits.simps [of n])
qed

lemma dec_digits_nonempty [simp]: "dec_digits n \<noteq> []"
  by (simp add: dec_digits.simps [of n])

lemma dec_val_snoc: "dec_val (s @ [c]) = 10 * dec_val s + digit_val c"
  by (simp add: dec_val_def)

lemma dec_val_dec_digits [simp]: "dec_val (dec_digits n) = n"
proof (induction n rule: dec_digits.induct)
  case (1 n)
  show ?case
  proof (cases "n < 10")
    case True
    then show ?thesis by (simp add: dec_digits.simps [of n] dec_val_def)
  next
    case False
    with 1 show ?thesis by (simp add: dec_digits.simps [of n] dec_val_snoc)
  qed
qed

lemma dec_digits_inject [simp]: "dec_digits a = dec_digits b \<longleftrightarrow> a = b"
  by (metis dec_val_dec_digits)

lemma takeWhile_dec_digits [simp]:
  "takeWhile is_digit (dec_digits n @ s) = dec_digits n @ takeWhile is_digit s"
  by (simp add: takeWhile_append1 [of _ _ "is_digit"] takeWhile_append2 dec_digits_all_digits)

lemma dropWhile_dec_digits [simp]:
  "dropWhile is_digit (dec_digits n @ s) = dropWhile is_digit s"
  by (simp add: dropWhile_append2 dec_digits_all_digits)

lemma takeWhile_dec_digits_all [simp]: "takeWhile is_digit (dec_digits n) = dec_digits n"
  using takeWhile_dec_digits [of n "[]"] by (simp del: takeWhile_dec_digits)

lemma dropWhile_dec_digits_all [simp]: "dropWhile is_digit (dec_digits n) = []"
  using dropWhile_dec_digits [of n "[]"] by (simp del: dropWhile_dec_digits)

lemma hd_dec_digits_is_digit [simp]: "is_digit (hd (dec_digits n))"
  using dec_digits_all_digits [of "hd (dec_digits n)" n] by simp

lemma digit_not_space: "is_digit c \<Longrightarrow> \<not> is_space c"
  by (auto simp: is_digit_def is_space_def)

lemma digit_not_sign: "is_digit c \<Longrightarrow> c \<noteq> CHR ''-'' \<and> c \<noteq> CHR ''+''"
  by (auto simp: is_digit_def code_def)

lemma strto_int_dec_digits:
  assumes "s = [] \<or> \<not> is_digit (hd s)"
  shows "strto_int (dec_digits n @ s) = Some (int n)"
proof -
  obtain c cs where c: "dec_digits n = c # cs" by (cases "dec_digits n") auto
  then have d: "is_digit c" using dec_digits_all_digits [of c n] by simp
  have tw: "takeWhile is_digit (c # cs @ s) = c # cs"
    using takeWhile_dec_digits [of n s] assms c by (cases s) auto
  have v: "dec_val (c # cs) = n" using dec_val_dec_digits [of n] c by simp
  show ?thesis
    using digit_not_sign [OF d] digit_not_space [OF d] tw v
    by (simp add: strto_int_def c Let_def)
qed

lemma atoi_dec_digits: "n < 2 ^ 31 \<Longrightarrow> atoi (dec_digits n) = int n"
  using strto_int_dec_digits [of "[]" n]
  by (simp add: atoi_def clamp_s64_def wrap_s32_def)

lemma wrap_s32_range: "- (2 ^ 31) \<le> wrap_s32 i \<and> wrap_s32 i < 2 ^ 31"
  by (simp add: wrap_s32_def)

lemma wrap_s32_id: "- (2 ^ 31) \<le> i \<Longrightarrow> i < 2 ^ 31 \<Longrightarrow> wrap_s32 i = i"
  by (simp add: wrap_s32_def)

section \<open>Lemmas: endian fields\<close>

lemma length_le16 [simp]: "length (le16 v) = 2"
  by (simp add: le16_def)

lemma length_le32 [simp]: "length (le32 v) = 4"
  by (simp add: le32_def)

lemma get_le16_le16 [simp]: "get_le16 (le16 v @ s) = v"
  unfolding get_le16_def le16_def
  by (rule bit_word_eqI) (auto simp: bit_simps bit_imp_le_length)

lemma get_le32_le32 [simp]: "get_le32 (le32 v @ s) = v"
proof (rule bit_word_eqI)
  fix n :: nat assume "n < LENGTH(32)"
  then consider "n < 8" | "8 \<le> n" "n < 16" | "16 \<le> n" "n < 24" | "24 \<le> n" "n < 32" by fastforce
  then show "bit (get_le32 (le32 v @ s)) n = bit v n"
    by cases (auto simp: get_le32_def le32_def bit_simps)
qed

text \<open>
  The contract of a fixed-width field: every value is written in the same number of bytes
  and reading the field back from a buffer that starts with it gives the value. A header is
  a sequence of such fields; the client lemmas are proved once here.
\<close>

locale field_codec =
  fixes enc :: "'a \<Rightarrow> bytes"
    and dec :: "bytes \<Rightarrow> 'a"
    and width :: nat
  assumes enc_width: "length (enc v) = width"
    and dec_enc: "dec (enc v @ s) = v"
begin

lemma enc_inject: "enc v = enc w \<longleftrightarrow> v = w"
  by (metis append_Nil2 dec_enc)

lemma dec_after: "length p = n \<Longrightarrow> dec (drop n (p @ enc v @ s)) = v"
  by (simp add: dec_enc)

lemma take_field: "take width (enc v @ s) = enc v"
  by (simp add: enc_width)

lemma drop_field: "drop width (enc v @ s) = s"
  by (simp add: enc_width)

end

interpretation le16: field_codec le16 get_le16 2
  by unfold_locales auto

interpretation le32: field_codec le32 get_le32 4
  by unfold_locales auto

lemma length_put_at [simp]:
  "off + length src \<le> length buf \<Longrightarrow> length (put_at off src buf) = length buf"
  by (simp add: put_at_def)

section \<open>Ordered maps\<close>

text \<open>
  \<open>std::map\<close> as the list of its entries in increasing order of the keys, which is the order in
  which the code walks it.
\<close>

text \<open>\<open>std::map::emplace\<close> keeps an existing entry; \<open>operator[]\<close> with assignment replaces it.\<close>

fun map_emplace :: "'k::linorder \<Rightarrow> 'v \<Rightarrow> ('k \<times> 'v) list \<Rightarrow> ('k \<times> 'v) list" where
  "map_emplace k v [] = [(k, v)]"
| "map_emplace k v ((k', v') # m) =
     (if k < k' then (k, v) # (k', v') # m
      else if k = k' then (k', v') # m
      else (k', v') # map_emplace k v m)"

fun map_assign :: "'k::linorder \<Rightarrow> 'v \<Rightarrow> ('k \<times> 'v) list \<Rightarrow> ('k \<times> 'v) list" where
  "map_assign k v [] = [(k, v)]"
| "map_assign k v ((k', v') # m) =
     (if k < k' then (k, v) # (k', v') # m
      else if k = k' then (k, v) # m
      else (k', v') # map_assign k v m)"

lemma map_emplace_keys: "fst ` set (map_emplace k v m) = insert k (fst ` set m)"
  by (induction k v m rule: map_emplace.induct) (auto split: if_splits)

lemma map_emplace_values: "snd ` set (map_emplace k v m) \<subseteq> insert v (snd ` set m)"
  by (induction k v m rule: map_emplace.induct) (auto split: if_splits)

lemma map_emplace_sorted:
  "sorted_wrt (<) (map fst m) \<Longrightarrow> sorted_wrt (<) (map fst (map_emplace k v m))"
proof (induction k v m rule: map_emplace.induct)
  case (2 k v k' v' m)
  have "\<forall>x \<in> fst ` set (map_emplace k v m). k' < x" if "k' < k"
    using 2 that by (simp add: map_emplace_keys)
  then show ?case using 2 by (fastforce dest: less_trans)
qed simp

lemma map_assign_keys: "fst ` set (map_assign k v m) = insert k (fst ` set m)"
  by (induction k v m rule: map_assign.induct) (auto split: if_splits)

lemma map_assign_sorted:
  "sorted_wrt (<) (map fst m) \<Longrightarrow> sorted_wrt (<) (map fst (map_assign k v m))"
proof (induction k v m rule: map_assign.induct)
  case (2 k v k' v' m)
  have "\<forall>x \<in> fst ` set (map_assign k v m). k' < x" if "k' < k"
    using 2 that by (simp add: map_assign_keys)
  then show ?case using 2 by (fastforce dest: less_trans)
qed simp

lemma map_of_map_assign:
  "sorted_wrt (<) (map fst m) \<Longrightarrow> map_of (map_assign k v m) = (map_of m)(k \<mapsto> v)"
  by (induction k v m rule: map_assign.induct) (auto simp: fun_eq_iff)

lemma map_assign_values: "snd ` set (map_assign k v m) \<subseteq> insert v (snd ` set m)"
  by (induction k v m rule: map_assign.induct) (auto split: if_splits)

lemma map_assign_nonempty [simp]: "map_assign k v m \<noteq> []"
  by (cases "(k, v, m)" rule: map_assign.cases) auto

lemma map_assign_snoc:
  "\<forall>k' \<in> fst ` set m. k' < k \<Longrightarrow> map_assign k v m = m @ [(k, v)]"
  by (induction k v m rule: map_assign.induct) auto

section \<open>Decoders of a byte stream\<close>

text \<open>
  A decoder that takes complete items off the front of a buffer: how many bytes it took and
  the items. Fed chunk by chunk, the rest of the buffer is kept in front of the next chunk.
\<close>

fun feed :: "('a list \<Rightarrow> (nat \<times> 'b list) option) \<Rightarrow> 'a list \<Rightarrow> 'a list list \<Rightarrow> ('b list \<times> 'a list) option" where
  "feed dec buf [] = Some ([], buf)"
| "feed dec buf (c # cs) =
     (case dec (buf @ c) of
        None \<Rightarrow> None
      | Some (n, bs) \<Rightarrow> map_option (\<lambda>(bs', r). (bs @ bs', r)) (feed dec (drop n (buf @ c)) cs))"

locale stream_decoder =
  fixes dec :: "'a list \<Rightarrow> (nat \<times> 'b list) option" and ok :: "'a list \<Rightarrow> bool"
  assumes dec_defined: "ok a \<Longrightarrow> \<exists>n bs. dec a = Some (n, bs)"
    and dec_bound: "dec a = Some (n, bs) \<Longrightarrow> n \<le> length a"
    and dec_append: "dec a = Some (n, bs) \<Longrightarrow>
      dec (a @ b) = map_option (\<lambda>(m, cs). (n + m, bs @ cs)) (dec (drop n a @ b))"
    and ok_prefix: "ok (a @ b) \<Longrightarrow> ok a"
    and ok_rest: "ok (a @ b) \<Longrightarrow> dec a = Some (n, bs) \<Longrightarrow> ok (drop n a @ b)"
begin

lemma dec_rest: "dec a = Some (n, bs) \<Longrightarrow> dec (drop n a) = Some (0, [])"
  using dec_append [of a n bs "[]"] by (cases "dec (drop n a)") auto

text \<open>However the bytes are cut into chunks, the items and the rest are those of the whole.\<close>

lemma feed_whole:
  assumes "ok (buf @ concat cs)" "dec buf = Some (0, [])"
  shows "feed dec buf cs = map_option (\<lambda>(n, bs). (bs, drop n (buf @ concat cs))) (dec (buf @ concat cs))"
  using assms
proof (induction cs arbitrary: buf)
  case (Cons c cs)
  define x where "x = buf @ c"
  have okc: "ok (x @ concat cs)" using Cons.prems by (simp add: x_def)
  then obtain n bs where d: "dec x = Some (n, bs)"
    using dec_defined ok_prefix by blast
  have shift: "drop m (drop n x @ y) = drop (n + m) (x @ y)" for m y
    using dec_bound [OF d] by (simp add: add.commute)
  have "feed dec (drop n x) cs =
      map_option (\<lambda>(m, bs'). (bs', drop m (drop n x @ concat cs))) (dec (drop n x @ concat cs))"
    using Cons.IH ok_rest [OF okc d] dec_rest [OF d] by simp
  then have "feed dec buf (c # cs) = map_option (\<lambda>(n, bs). (bs, drop n (x @ concat cs))) (dec (x @ concat cs))"
    using dec_append [OF d, of "concat cs"] d
    by (cases "dec (drop n x @ concat cs)") (auto simp: x_def [symmetric] shift simp del: drop_append)
  then show ?case by (simp add: x_def)
qed simp

end

end
