(* ===== verification/Json_Lite.thy ===== *)
theory Json_Lite
  imports Complex_Main Obn_Prelude
begin

text \<open>
  Model of \<open>src/json_lite.cpp\<close> and \<open>include/obn/json_lite.hpp\<close>: JSON values, the
  bounded recursive-descent parser, path lookup, and the serialiser. A \<open>double\<close> is its
  exact value, a rational: the parser never builds an infinity or a NaN (those texts are not
  numbers to it and a decimal out of range is an error), and the two zeros behave alike in
  every function modelled here. \<open>std::map\<close> objects are association lists in strictly
  increasing key order. The parser's pointer is the list of bytes that are left. The nesting
  limit bounds the parser's recursion; its two loops carry fuel, one more than the bytes
  left, and every input is parsed within it.
\<close>

section \<open>Binary64 numbers\<close>

type_synonym dbl = rat

definition round_half_even :: "rat \<Rightarrow> int" where
  "round_half_even q =
     (let f = \<lfloor>q\<rfloor>; r = q - of_int f
      in if r < 1 / 2 then f else if 1 / 2 < r then f + 1 else if even f then f else f + 1)"

fun ilog2 :: "nat \<Rightarrow> nat" where
  "ilog2 n = (if n < 2 then 0 else Suc (ilog2 (n div 2)))"

declare ilog2.simps [simp del]

text \<open>The exponent \<open>e\<close> of a positive value, with \<open>2^e \<le> a < 2^(e+1)\<close>.\<close>

definition bin_exponent :: "rat \<Rightarrow> int" where
  "bin_exponent a =
     (let (n, d) = quotient_of a; e = int (ilog2 (nat n)) - int (ilog2 (nat d))
      in if 2 powi e \<le> a then e else e - 1)"

definition round_at :: "int \<Rightarrow> rat \<Rightarrow> rat" where
  "round_at u a = of_int (round_half_even (a / 2 powi u)) * 2 powi u"

text \<open>
  \<open>strtod\<close>'s rounding to the nearest binary64, ties to even. \<open>None\<close> is \<open>ERANGE\<close>:
  overflow, or a result that is tiny and inexact. Neither can happen for an exponent well
  inside the normal range, which is the first case.
\<close>

definition b64_round :: "rat \<Rightarrow> dbl option" where
  "b64_round q =
     (if q = 0 then Some 0
      else let a = \<bar>q\<bar>; e = bin_exponent a
           in if - 1022 \<le> e \<and> e < 1023 then Some (sgn q * round_at (e - 52) a)
              else let r = round_at (max (e - 52) (- 1074)) a
                   in if 2 powi 1024 \<le> r then None
                      else if round_at (e - 52) a < 2 powi (- 1022) \<and> r \<noteq> a then None
                      else Some (sgn q * r))"

text \<open>
  \<open>std::stod\<close> on a text of decimal syntax (sign, digits, fraction, exponent), the only
  texts the callers pass: \<open>None\<close> when it throws. An exponent mark with no digits after it
  is not part of the number.
\<close>

definition stod :: "string \<Rightarrow> dbl option" where
  "stod s =
     (let neg = (case s of c # _ \<Rightarrow> c = CHR ''-'' | [] \<Rightarrow> False);
          s1 = (if neg then tl s else s);
          ip = takeWhile is_digit s1; s2 = dropWhile is_digit s1;
          fp = (case s2 of c # cs \<Rightarrow> (if c = CHR ''.'' then takeWhile is_digit cs else []) | [] \<Rightarrow> []);
          s3 = (case s2 of c # cs \<Rightarrow> (if c = CHR ''.'' then dropWhile is_digit cs else s2) | [] \<Rightarrow> []);
          ex = (case s3 of c # cs \<Rightarrow>
                  (if c = CHR ''e'' \<or> c = CHR ''E'' then
                     (let eneg = (case cs of d # _ \<Rightarrow> d = CHR ''-'' | [] \<Rightarrow> False);
                          cs1 = (case cs of d # ds \<Rightarrow> (if d = CHR ''-'' \<or> d = CHR ''+'' then ds else cs) | [] \<Rightarrow> []);
                          v = int (dec_val (takeWhile is_digit cs1))
                      in if eneg then - v else v)
                   else 0) | [] \<Rightarrow> (0::int));
          m = of_nat (dec_val (ip @ fp)) * (10::rat) powi (ex - int (length fp))
      in if ip = [] \<and> fp = [] then None else b64_round (if neg then - m else m))"

text \<open>\<open>std::trunc\<close>, and the conversion of a value to an integer type it fits in.\<close>

definition trunc_int :: "rat \<Rightarrow> int" where
  "trunc_int x = (if 0 \<le> x then \<lfloor>x\<rfloor> else \<lceil>x\<rceil>)"

section \<open>Values\<close>

datatype json =
    JNull
  | JBool bool
  | JNumber dbl
  | JString string
  | JArray "json list"
  | JObject "(string \<times> json) list"

type_synonym jobject = "(string \<times> json) list"

text \<open>The sequence of assignments with which the builders fill an object.\<close>

definition obj_of :: "(string \<times> json) list \<Rightarrow> jobject" where
  "obj_of kvs = foldl (\<lambda>m (k, v). map_assign k v m) [] kvs"

fun is_object :: "json \<Rightarrow> bool" where
  "is_object (JObject _) = True"
| "is_object _ = False"

fun is_array :: "json \<Rightarrow> bool" where
  "is_array (JArray _) = True"
| "is_array _ = False"

fun is_string :: "json \<Rightarrow> bool" where
  "is_string (JString _) = True"
| "is_string _ = False"

fun is_number :: "json \<Rightarrow> bool" where
  "is_number (JNumber _) = True"
| "is_number _ = False"

fun as_bool :: "bool \<Rightarrow> json \<Rightarrow> bool" where
  "as_bool d (JBool b) = b"
| "as_bool d _ = d"

fun as_number :: "dbl \<Rightarrow> json \<Rightarrow> dbl" where
  "as_number d (JNumber x) = x"
| "as_number d _ = d"

fun as_int :: "int \<Rightarrow> json \<Rightarrow> int" where
  "as_int d (JNumber x) =
     (if x \<ge> 2 ^ 63 then 2 ^ 63 - 1
      else if x \<le> - (2 ^ 63) then - (2 ^ 63)
      else trunc_int x)"
| "as_int d _ = d"

fun as_string :: "json \<Rightarrow> string" where
  "as_string (JString s) = s"
| "as_string _ = []"

fun as_array :: "json \<Rightarrow> json list" where
  "as_array (JArray a) = a"
| "as_array _ = []"

fun as_object :: "json \<Rightarrow> jobject" where
  "as_object (JObject m) = m"
| "as_object _ = []"

section \<open>Parser\<close>

definition kMaxNestingDepth :: nat where
  "kMaxNestingDepth = 128"

definition is_ws :: "char \<Rightarrow> bool" where
  "is_ws c = (c = CHR '' '' \<or> c = CHR 0x09 \<or> c = CHR 0x0A \<or> c = CHR 0x0D)"

definition skip_ws :: "string \<Rightarrow> string" where
  "skip_ws s = dropWhile is_ws s"

definition literal :: "string \<Rightarrow> string \<Rightarrow> string option" where
  "literal lit s = (if starts_with lit s then Some (drop (length lit) s) else None)"

text \<open>The code point of a UTF-16 unit or of a surrogate pair, as UTF-8 bytes.\<close>

definition utf8 :: "nat \<Rightarrow> string" where
  "utf8 cp =
     (if cp < 0x80 then [char_of cp]
      else if cp < 0x800 then [char_of (0xC0 + cp div 2 ^ 6), char_of (0x80 + cp mod 64)]
      else if cp < 0x10000 then
        [char_of (0xE0 + cp div 2 ^ 12), char_of (0x80 + cp div 2 ^ 6 mod 64),
         char_of (0x80 + cp mod 64)]
      else [char_of (0xF0 + cp div 2 ^ 18), char_of (0x80 + cp div 2 ^ 12 mod 64),
            char_of (0x80 + cp div 2 ^ 6 mod 64), char_of (0x80 + cp mod 64)])"

text \<open>Four hexadecimal digits.\<close>

definition hex4 :: "char \<Rightarrow> char \<Rightarrow> char \<Rightarrow> char \<Rightarrow> nat option" where
  "hex4 a b c d =
     (case (hex_val a, hex_val b, hex_val c, hex_val d) of
        (Some w, Some x, Some y, Some z) \<Rightarrow> Some (((w * 16 + x) * 16 + y) * 16 + z)
      | _ \<Rightarrow> None)"

definition simple_escape :: "char \<Rightarrow> char option" where
  "simple_escape e =
     (if e = CHR 0x22 then Some (CHR 0x22)
      else if e = CHR 0x5C then Some (CHR 0x5C)
      else if e = CHR ''/'' then Some (CHR ''/'')
      else if e = CHR ''b'' then Some (CHR 0x08)
      else if e = CHR ''f'' then Some (CHR 0x0C)
      else if e = CHR ''n'' then Some (CHR 0x0A)
      else if e = CHR ''r'' then Some (CHR 0x0D)
      else if e = CHR ''t'' then Some (CHR 0x09)
      else None)"

text \<open>
  The escape after \<open>u\<close>, whose four digits give \<open>cp\<close>: a high surrogate followed by
  another such escape is joined with it when that one is a low surrogate. Gives the code
  point and the text left, or the error.
\<close>

fun join_surrogate :: "nat \<Rightarrow> string \<Rightarrow> string + nat \<times> string" where
  "join_surrogate cp (bs # u # l1 # l2 # l3 # l4 # r) =
     (if 0xD800 \<le> cp \<and> cp \<le> 0xDBFF \<and> bs = CHR 0x5C \<and> u = CHR ''u'' then
        (case hex4 l1 l2 l3 l4 of
           None \<Rightarrow> Inl ''bad low surrogate''
         | Some lo \<Rightarrow>
             if 0xDC00 \<le> lo \<and> lo \<le> 0xDFFF
             then Inr (0x10000 + (cp - 0xD800) * 2 ^ 10 + (lo - 0xDC00), r)
             else Inr (cp, bs # u # l1 # l2 # l3 # l4 # r))
      else Inr (cp, bs # u # l1 # l2 # l3 # l4 # r))"
| "join_surrogate cp r = Inr (cp, r)"

lemma join_surrogate_length: "join_surrogate cp s = Inr (cp', r) \<Longrightarrow> length r \<le> length s"
  by (induction cp s rule: join_surrogate.induct) (auto split: if_splits option.splits)

text \<open>The text after a backslash: the bytes the escape stands for and the text left.\<close>

definition parse_escape :: "string \<Rightarrow> string + string \<times> string" where
  "parse_escape s =
     (case s of
        [] \<Rightarrow> Inl ''bad escape''
      | e # es \<Rightarrow>
          (case simple_escape e of
             Some x \<Rightarrow> Inr ([x], es)
           | None \<Rightarrow>
               if e = CHR ''u'' then
                 (case es of
                    h1 # h2 # h3 # h4 # r \<Rightarrow>
                      (case hex4 h1 h2 h3 h4 of
                         None \<Rightarrow> Inl (''bad hex in '' @ [CHR 0x5C, CHR ''u''])
                       | Some cp \<Rightarrow>
                           (case join_surrogate cp r of
                              Inl err \<Rightarrow> Inl err
                            | Inr (cp', r') \<Rightarrow> Inr (utf8 cp', r')))
                  | _ \<Rightarrow> Inl (''bad '' @ CHR 0x5C # ''u escape''))
               else Inl ''bad escape char''))"

lemma parse_escape_length: "parse_escape s = Inr (x, r) \<Longrightarrow> length r < length s"
  by (auto simp: parse_escape_def split: if_splits list.splits option.splits sum.splits
      dest!: join_surrogate_length)

text \<open>The characters of a string after its opening quote; \<open>out\<close> is what was read so far.\<close>

function parse_chars :: "string \<Rightarrow> string \<Rightarrow> string + string \<times> string" where
  "parse_chars out [] = Inl ''unterminated string''"
| "parse_chars out (c # cs) =
     (if c = CHR 0x22 then Inr (out, cs)
      else if c = CHR 0x5C then
        (case parse_escape cs of
           Inl err \<Rightarrow> Inl err
         | Inr (x, r) \<Rightarrow> parse_chars (out @ x) r)
      else parse_chars (out @ [c]) cs)"
  by pat_completeness auto
termination
  by (relation "measure (\<lambda>(out, s). length s)") (auto dest: parse_escape_length)

declare parse_chars.simps(2) [simp del]

definition parse_string :: "string \<Rightarrow> string + string \<times> string" where
  "parse_string s =
     (case s of
        c # cs \<Rightarrow> (if c = CHR 0x22 then parse_chars [] cs else Inl ''expected string'')
      | [] \<Rightarrow> Inl ''expected string'')"

text \<open>What is left after the longest text \<open>parse_number\<close> scans.\<close>

definition scan_number :: "string \<Rightarrow> string" where
  "scan_number s =
     (let s1 = (case s of c # cs \<Rightarrow> (if c = CHR ''-'' then cs else s) | [] \<Rightarrow> []);
          s2 = dropWhile is_digit s1;
          s3 = (case s2 of c # cs \<Rightarrow> (if c = CHR ''.'' then dropWhile is_digit cs else s2) | [] \<Rightarrow> [])
      in (case s3 of
            c # cs \<Rightarrow>
              (if c = CHR ''e'' \<or> c = CHR ''E'' then
                 dropWhile is_digit
                   (case cs of d # ds \<Rightarrow> (if d = CHR ''+'' \<or> d = CHR ''-'' then ds else cs) | [] \<Rightarrow> [])
               else s3)
          | [] \<Rightarrow> []))"

definition parse_number :: "string \<Rightarrow> string + dbl \<times> string" where
  "parse_number s =
     (let r = scan_number s; tok = take (length s - length r) s
      in if tok = [] then Inl ''bad number''
         else (case stod tok of None \<Rightarrow> Inl ''number range'' | Some d \<Rightarrow> Inr (d, r)))"

datatype 'a pres = POut | PErr string | POk 'a string

definition parse_literal :: "string \<Rightarrow> json \<Rightarrow> string \<Rightarrow> json pres" where
  "parse_literal lit v s =
     (case literal lit s of Some r \<Rightarrow> POk v r | None \<Rightarrow> PErr ''bad literal'')"

definition parse_scalar :: "string \<Rightarrow> json pres" where
  "parse_scalar s =
     (if hd s = CHR 0x22 then
        (case parse_string s of Inl e \<Rightarrow> PErr e | Inr (t, r) \<Rightarrow> POk (JString t) r)
      else if hd s = CHR ''t'' then parse_literal ''true'' (JBool True) s
      else if hd s = CHR ''f'' then parse_literal ''false'' (JBool False) s
      else if hd s = CHR ''n'' then parse_literal ''null'' JNull s
      else if hd s = CHR ''-'' \<or> is_digit (hd s) then
        (case parse_number s of Inl e \<Rightarrow> PErr e | Inr (d, r) \<Rightarrow> POk (JNumber d) r)
      else PErr ''unexpected character'')"

definition quoted :: "char \<Rightarrow> string" where
  "quoted c = [CHR 0x27, c, CHR 0x27]"

text \<open>
  The loops of \<open>Parser::parse_value\<close> over the members of an object and the elements of an
  array, for a reader \<open>pv\<close> of the contained values: the object loop reads a key, a colon
  and a value, the array loop a value; a comma continues the loop, the closing bracket ends
  it. \<open>POut\<close> marks that the fuel ran out, which no run of \<open>parse\<close> reaches.
\<close>

fun parse_members :: "(string \<Rightarrow> json pres) \<Rightarrow> nat \<Rightarrow> jobject \<Rightarrow> string \<Rightarrow> json pres" where
  "parse_members pv 0 obj s = POut"
| "parse_members pv (Suc fuel) obj s =
     (case parse_string (skip_ws s) of
        Inl e \<Rightarrow> PErr e
      | Inr (key, r) \<Rightarrow>
          if skip_ws r = [] \<or> hd (skip_ws r) \<noteq> CHR '':'' then PErr (''expected '' @ quoted (CHR '':''))
          else
            (case pv (tl (skip_ws r)) of
               POut \<Rightarrow> POut
             | PErr e \<Rightarrow> PErr e
             | POk v r1 \<Rightarrow>
                 (let t = skip_ws r1; obj' = map_emplace key v obj
                  in if t \<noteq> [] \<and> hd t = CHR '','' then parse_members pv fuel obj' (tl t)
                     else if t \<noteq> [] \<and> hd t = CHR 0x7D then POk (JObject obj') (tl t)
                     else PErr (''expected '' @ quoted (CHR '','') @ '' or '' @ quoted (CHR 0x7D)))))"

fun parse_elements :: "(string \<Rightarrow> json pres) \<Rightarrow> nat \<Rightarrow> json list \<Rightarrow> string \<Rightarrow> json pres" where
  "parse_elements pv 0 arr s = POut"
| "parse_elements pv (Suc fuel) arr s =
     (case pv s of
        POut \<Rightarrow> POut
      | PErr e \<Rightarrow> PErr e
      | POk v r1 \<Rightarrow>
          (let t = skip_ws r1
           in if t \<noteq> [] \<and> hd t = CHR '','' then parse_elements pv fuel (arr @ [v]) (tl t)
              else if t \<noteq> [] \<and> hd t = CHR 0x5D then POk (JArray (arr @ [v])) (tl t)
              else PErr (''expected '' @ quoted (CHR '','') @ '' or '' @ quoted (CHR 0x5D))))"

text \<open>The first symbol of a value decides between an object, an array and a scalar.\<close>

definition parse_head :: "(string \<Rightarrow> json pres) \<Rightarrow> (string \<Rightarrow> json pres) \<Rightarrow> string \<Rightarrow> json pres" where
  "parse_head obj arr s =
     (let t = skip_ws s
      in if t = [] then PErr ''unexpected EOF''
         else if hd t = CHR 0x7B then obj (skip_ws (tl t))
         else if hd t = CHR 0x5B then arr (skip_ws (tl t))
         else parse_scalar t)"

definition parse_object :: "(string \<Rightarrow> json pres) \<Rightarrow> string \<Rightarrow> json pres" where
  "parse_object pv u =
     (if u \<noteq> [] \<and> hd u = CHR 0x7D then POk (JObject []) (tl u)
      else parse_members pv (Suc (length u)) [] u)"

definition parse_array :: "(string \<Rightarrow> json pres) \<Rightarrow> string \<Rightarrow> json pres" where
  "parse_array pv u =
     (if u \<noteq> [] \<and> hd u = CHR 0x5D then POk (JArray []) (tl u)
      else parse_elements pv (Suc (length u)) [] u)"

text \<open>
  \<open>Parser::parse_value\<close>. The first argument is \<open>kMaxNestingDepth - depth\<close>, the number of
  containers that may still be entered: at 0 a bracket is an error.
\<close>

fun parse_value :: "nat \<Rightarrow> string \<Rightarrow> json pres" where
  "parse_value 0 s =
     parse_head (\<lambda>u. PErr ''max nesting depth exceeded'') (\<lambda>u. PErr ''max nesting depth exceeded'') s"
| "parse_value (Suc n) s = parse_head (parse_object (parse_value n)) (parse_array (parse_value n)) s"

text \<open>\<open>obn::json::parse\<close>: \<open>PErr\<close> holds the reason that is written to \<open>*err\<close>.\<close>

definition parse_res :: "string \<Rightarrow> json pres" where
  "parse_res text =
     (case parse_value kMaxNestingDepth (skip_ws text) of
        POut \<Rightarrow> POut
      | PErr e \<Rightarrow> PErr e
      | POk v r \<Rightarrow> (if skip_ws r = [] then POk v [] else PErr ''trailing characters''))"

definition parse :: "string \<Rightarrow> json option" where
  "parse text = (case parse_res text of POk v _ \<Rightarrow> Some v | _ \<Rightarrow> None)"

section \<open>Path lookup\<close>

text \<open>
  \<open>std::stoul\<close>: \<open>None\<close> when it throws; a minus sign negates in 64 bits, and text after
  the digits is ignored.
\<close>

definition stoul :: "string \<Rightarrow> nat option" where
  "stoul s =
     (case strto_int s of
        None \<Rightarrow> None
      | Some i \<Rightarrow> if 2 ^ 64 \<le> \<bar>i\<bar> then None else Some (nat (i mod 2 ^ 64)))"

definition skip_dot :: "string \<Rightarrow> string" where
  "skip_dot s = (case s of c # cs \<Rightarrow> (if c = CHR ''.'' then cs else s) | [] \<Rightarrow> [])"

definition path_sep :: "char \<Rightarrow> bool" where
  "path_sep c = (c = CHR ''.'' \<or> c = CHR 0x5B)"

function find_path :: "json \<Rightarrow> string \<Rightarrow> json" where
  "find_path cur path =
     (if path = [] then cur
      else if cur = JNull then JNull
      else if hd path = CHR 0x5B then
        (case find_char (CHR 0x5D) path of
           None \<Rightarrow> JNull
         | Some close \<Rightarrow>
             (case cur of
                JArray arr \<Rightarrow>
                  (case stoul (substr 1 (close - 1) path) of
                     None \<Rightarrow> JNull
                   | Some i \<Rightarrow>
                       if length arr \<le> i then JNull
                       else find_path (arr ! i) (skip_dot (drop (Suc close) path)))
              | _ \<Rightarrow> JNull))
      else
        (let next = find_first path_sep path;
             key = (case next of None \<Rightarrow> path | Some n \<Rightarrow> take n path)
         in (case cur of
               JObject obj \<Rightarrow>
                 (case map_of obj key of
                    None \<Rightarrow> JNull
                  | Some v \<Rightarrow>
                      find_path v (case next of None \<Rightarrow> [] | Some n \<Rightarrow> skip_dot (drop n path)))
             | _ \<Rightarrow> JNull)))"
  by pat_completeness auto

lemma skip_dot_length [simp]: "length (skip_dot s) \<le> length s"
  by (cases s) (auto simp: skip_dot_def)

lemma skip_dot_drop:
  assumes "path \<noteq> []" "hd path \<noteq> CHR 0x5B" "find_first path_sep path = Some n"
  shows "length (skip_dot (drop n path)) < length path"
proof (cases n)
  case 0
  with assms find_first_Some [of path_sep path n] have "hd path = CHR ''.''"
    by (auto simp: path_sep_def hd_conv_nth)
  with assms(1) 0 show ?thesis by (cases path) (auto simp: skip_dot_def)
next
  case (Suc m)
  have "length (skip_dot (drop n path)) \<le> length (drop n path)"
    by (rule skip_dot_length)
  also have "\<dots> < length path" using assms(1) Suc by (cases path) auto
  finally show ?thesis .
qed

termination find_path
proof (relation "measure (\<lambda>(cur, path). length path)")
  fix cur and path :: string and close arr i
  assume "path \<noteq> []"
  then have "length (drop (Suc close) path) < length path" by (cases path) auto
  then show "((arr ! i, skip_dot (drop (Suc close) path)), cur, path)
      \<in> measure (\<lambda>(cur, path). length path)"
    using skip_dot_length [of "drop (Suc close) path"] by simp
qed (auto split: option.splits simp: skip_dot_drop)

declare find_path.simps [simp del]

section \<open>Serialiser\<close>

definition escape_char :: "char \<Rightarrow> string" where
  "escape_char c =
     (if c = CHR 0x22 then [CHR 0x5C, CHR 0x22]
      else if c = CHR 0x5C then [CHR 0x5C, CHR 0x5C]
      else if c = CHR 0x08 then [CHR 0x5C, CHR ''b'']
      else if c = CHR 0x0C then [CHR 0x5C, CHR ''f'']
      else if c = CHR 0x0A then [CHR 0x5C, CHR ''n'']
      else if c = CHR 0x0D then [CHR 0x5C, CHR ''r'']
      else if c = CHR 0x09 then [CHR 0x5C, CHR ''t'']
      else if code c < 0x20 then
        [CHR 0x5C, CHR ''u'', CHR ''0'', CHR ''0'',
         hex_lower_digit (code c div 16), hex_lower_digit (code c mod 16)]
      else [c])"

definition escape :: "string \<Rightarrow> string" where
  "escape s = CHR 0x22 # concat (map escape_char s) @ [CHR 0x22]"

text \<open>
  Stream output with \<open>precision(17)\<close> and no format flag (\<open>%.17g\<close>): seventeen
  significant digits, fixed notation for exponents from -4 to 16, trailing zeros dropped.
\<close>

fun dec_exponent :: "nat \<Rightarrow> rat \<Rightarrow> int" where
  "dec_exponent 0 a = 0"
| "dec_exponent (Suc n) a =
     (if 10 \<le> a then 1 + dec_exponent n (a / 10)
      else if a < 1 then dec_exponent n (a * 10) - 1
      else 0)"

definition drop_zeros :: "string \<Rightarrow> string" where
  "drop_zeros s = rtrim (\<lambda>c. c = CHR ''0'') s"

definition with_point :: "string \<Rightarrow> string \<Rightarrow> string" where
  "with_point ip fp = (if fp = [] then ip else ip @ CHR ''.'' # fp)"

definition fmt_g17 :: "rat \<Rightarrow> string" where
  "fmt_g17 q =
     (let a = \<bar>q\<bar>; x0 = dec_exponent 400 a;
          m0 = round_half_even (a * 10 powi (16 - x0));
          x = (if 10 ^ 17 \<le> m0 then x0 + 1 else x0);
          m = (if 10 ^ 17 \<le> m0 then 10 ^ 16 else m0);
          ds = dec_digits (nat m);
          body =
            (if a = 0 then ''0''
             else if - 4 \<le> x \<and> x < 0 then
               with_point ''0'' (replicate (nat (- x - 1)) (CHR ''0'') @ drop_zeros ds)
             else if 0 \<le> x \<and> x < 17 then
               with_point (take (nat x + 1) ds) (drop_zeros (drop (nat x + 1) ds))
             else
               with_point (take 1 ds) (drop_zeros (drop 1 ds)) @ ''e'' @
               (if x < 0 then ''-'' else ''+'') @
               (if nat \<bar>x\<bar> < 10 then ''0'' else []) @ dec_digits (nat \<bar>x\<bar>))
      in (if q < 0 then CHR ''-'' # body else body))"

text \<open>The bound of the integer notation, the double nearest to \<open>9.2233720368547748e18\<close>.\<close>

definition dump_number :: "dbl \<Rightarrow> string" where
  "dump_number x =
     (if - 9223372036854774784 \<le> x \<and> x \<le> 9223372036854774784 \<and> of_int (trunc_int x) = x
      then dec_int (trunc_int x)
      else fmt_g17 x)"

fun join_comma :: "string list \<Rightarrow> string" where
  "join_comma [] = []"
| "join_comma [s] = s"
| "join_comma (s # t # ss) = s @ CHR '','' # join_comma (t # ss)"

fun dump :: "json \<Rightarrow> string" where
  "dump JNull = ''null''"
| "dump (JBool b) = (if b then ''true'' else ''false'')"
| "dump (JNumber x) = dump_number x"
| "dump (JString s) = escape s"
| "dump (JArray a) = CHR 0x5B # join_comma (map dump a) @ [CHR 0x5D]"
| "dump (JObject m) =
     CHR 0x7B # join_comma (map (\<lambda>(k, v). escape k @ CHR '':'' # dump v) m) @ [CHR 0x7D]"

section \<open>Progress and totality of the parser\<close>

lemma skip_ws_length [simp]: "length (skip_ws s) \<le> length s"
  by (simp add: skip_ws_def length_dropWhile_le)

lemma tl_skip_ws_length: "skip_ws s \<noteq> [] \<Longrightarrow> length (tl (skip_ws s)) < length s"
  using skip_ws_length [of s] by (cases "skip_ws s") auto

lemma skip_ws_idem [simp]: "skip_ws (skip_ws s) = skip_ws s"
  by (simp add: skip_ws_def)

lemma parse_chars_progress: "parse_chars out s = Inr (t, r) \<Longrightarrow> length r < length s"
proof (induction out s rule: parse_chars.induct)
  case (2 out c cs)
  note IH = "2.IH"
  from "2.prems" consider "r = cs"
    | x r' where "c \<noteq> CHR 0x22" "c = CHR 0x5C" "parse_escape cs = Inr (x, r')" "parse_chars (out @ x) r' = Inr (t, r)"
    | "c \<noteq> CHR 0x22" "c \<noteq> CHR 0x5C" "parse_chars (out @ [c]) cs = Inr (t, r)"
    by (auto simp: parse_chars.simps(2) [of out c cs] split: if_splits sum.splits)
  then show ?case
  proof cases
    case 2
    then have "length r < length r'" using IH(1) [of "(x, r')"] by simp
    then show ?thesis using parse_escape_length [OF 2(3)] by simp
  next
    case 3
    then show ?thesis using IH(2) by simp
  qed simp
qed simp

lemma parse_string_progress: "parse_string s = Inr (t, r) \<Longrightarrow> length r < length s"
  by (auto simp: parse_string_def split: list.splits if_splits dest: parse_chars_progress)

lemma parse_number_progress: "parse_number s = Inr (d, r) \<Longrightarrow> length r < length s"
  by (auto simp: parse_number_def Let_def split: if_splits option.splits)

lemma parse_literal_progress: "lit \<noteq> [] \<Longrightarrow> parse_literal lit v s = POk w r \<Longrightarrow> length r < length s"
  by (auto simp: parse_literal_def literal_def starts_with_conv split: if_splits option.splits)

lemma parse_scalar_progress: "parse_scalar s = POk v r \<Longrightarrow> length r < length s"
  by (auto simp: parse_scalar_def split: if_splits sum.splits
      dest: parse_string_progress parse_number_progress parse_literal_progress [rotated])

lemma parse_literal_total [simp]: "parse_literal lit v s \<noteq> POut"
  by (simp add: parse_literal_def split: option.split)

lemma parse_scalar_total [simp]: "parse_scalar s \<noteq> POut"
  by (auto simp: parse_scalar_def split: sum.split)

text \<open>
  What the loops rely on: the reader of contained values consumes input and never runs out
  of fuel.
\<close>

locale value_reader =
  fixes pv :: "string \<Rightarrow> json pres"
  assumes pv_progress: "pv s = POk v r \<Longrightarrow> length r < length s"
    and pv_total: "pv s \<noteq> POut"
begin

lemma elements_progress: "parse_elements pv n arr s = POk v r \<Longrightarrow> length r < length s"
proof (induction n arbitrary: arr s)
  case (Suc n)
  from Suc.prems obtain w r1 where w: "pv s = POk w r1" by (auto split: pres.splits)
  note len = pv_progress [OF w] skip_ws_length [of r1]
  from Suc.prems w consider
      "skip_ws r1 \<noteq> []" "parse_elements pv n (arr @ [w]) (tl (skip_ws r1)) = POk v r"
    | "skip_ws r1 \<noteq> []" "r = tl (skip_ws r1)"
    by (auto simp: Let_def split: if_splits)
  then show ?case
    using len Suc.IH [of "arr @ [w]" "tl (skip_ws r1)"] tl_skip_ws_length [of r1] by cases auto
qed simp

lemma elements_total: "length s < n \<Longrightarrow> parse_elements pv n arr s \<noteq> POut"
proof (induction n arbitrary: arr s)
  case (Suc n)
  show ?case
  proof (cases "pv s")
    case (POk w r1)
    have "skip_ws r1 \<noteq> [] \<Longrightarrow> length (tl (skip_ws r1)) < n"
      using pv_progress [OF POk] tl_skip_ws_length [of r1] Suc.prems by simp
    then show ?thesis using POk Suc.IH by (simp add: Let_def)
  qed (use pv_total in auto)
qed simp

lemma members_progress: "parse_members pv n obj s = POk v r \<Longrightarrow> length r < length s"
proof (induction n arbitrary: obj s)
  case (Suc n)
  from Suc.prems obtain k r0 where k: "parse_string (skip_ws s) = Inr (k, r0)"
    and c: "skip_ws r0 \<noteq> []" by (auto split: sum.splits if_splits)
  with Suc.prems obtain w r1 where w: "pv (tl (skip_ws r0)) = POk w r1"
    by (auto split: pres.splits if_splits)
  have r1: "length r1 < length s"
    using parse_string_progress [OF k] skip_ws_length [of s] pv_progress [OF w]
      tl_skip_ws_length [OF c] by linarith
  from Suc.prems k c w consider
      "skip_ws r1 \<noteq> []" "parse_members pv n (map_emplace k w obj) (tl (skip_ws r1)) = POk v r"
    | "skip_ws r1 \<noteq> []" "r = tl (skip_ws r1)"
    by (auto simp: Let_def split: if_splits)
  then show ?case
    using r1 Suc.IH [of "map_emplace k w obj" "tl (skip_ws r1)"] tl_skip_ws_length [of r1]
    by cases auto
qed simp

lemma members_total: "length s < n \<Longrightarrow> parse_members pv n obj s \<noteq> POut"
proof (induction n arbitrary: obj s)
  case (Suc n)
  show ?case
  proof (cases "parse_string (skip_ws s)")
    case (Inr p)
    obtain k r0 where p: "p = (k, r0)" by (cases p)
    show ?thesis
    proof (cases "skip_ws r0 = [] \<or> hd (skip_ws r0) \<noteq> CHR '':'' \<or> (\<forall>w r. pv (tl (skip_ws r0)) \<noteq> POk w r)")
      case True
      then show ?thesis using Inr p pv_total [of "tl (skip_ws r0)"] by (auto split: pres.splits)
    next
      case False
      then obtain w r1 where w: "pv (tl (skip_ws r0)) = POk w r1" and c: "skip_ws r0 \<noteq> []" by auto
      have "skip_ws r1 \<noteq> [] \<Longrightarrow> length (tl (skip_ws r1)) < n"
        using parse_string_progress [OF Inr [unfolded p]] skip_ws_length [of s] pv_progress [OF w]
          tl_skip_ws_length [OF c] tl_skip_ws_length [of r1] Suc.prems by linarith
      then show ?thesis using False Inr p w Suc.IH by (simp add: Let_def)
    qed
  qed auto
qed simp

lemma object_progress: "parse_object pv u = POk v r \<Longrightarrow> length r < length u"
  by (cases u) (auto simp: parse_object_def simp del: parse_members.simps
      split: if_splits dest: members_progress)

lemma array_progress: "parse_array pv u = POk v r \<Longrightarrow> length r < length u"
  by (cases u) (auto simp: parse_array_def simp del: parse_elements.simps
      split: if_splits dest: elements_progress)

lemma object_total: "parse_object pv u \<noteq> POut"
  by (simp add: parse_object_def members_total del: parse_members.simps)

lemma array_total: "parse_array pv u \<noteq> POut"
  by (simp add: parse_array_def elements_total del: parse_elements.simps)

lemma head_progress:
  "parse_head (parse_object pv) (parse_array pv) s = POk v r \<Longrightarrow> length r < length s"
  using skip_ws_length [of s] skip_ws_length [of "tl (skip_ws s)"] tl_skip_ws_length [of s]
  by (fastforce simp: parse_head_def Let_def split: if_splits
      dest: object_progress array_progress parse_scalar_progress)

lemma head_total: "parse_head (parse_object pv) (parse_array pv) s \<noteq> POut"
  by (simp add: parse_head_def Let_def object_total array_total)

end

lemma parse_value_0_reader: "value_reader (parse_value 0)"
proof
  fix s v r assume "parse_value 0 s = POk v r"
  then have "parse_scalar (skip_ws s) = POk v r" by (auto simp: parse_head_def Let_def split: if_splits)
  then show "length r < length s" 
    using parse_scalar_progress [of "skip_ws s" v r] skip_ws_length [of s] by linarith
qed (simp add: parse_head_def Let_def)

lemma parse_value_reader: "value_reader (parse_value n)"
proof (induction n)
  case (Suc n)
  show ?case
    by standard (simp_all add: value_reader.head_progress [OF Suc] value_reader.head_total [OF Suc])
qed (rule parse_value_0_reader)

section \<open>Strings round trip\<close>

lemma simple_escape_u: "simple_escape (CHR ''u'') = None"
  by (simp add: simple_escape_def)

lemma hex_val_lower: "n < 16 \<Longrightarrow> hex_val (hex_lower_digit n) = Some n"
  by (auto simp: hex_val_def hex_lower_digit_def)

lemma hex_val_0: "hex_val (CHR ''0'') = Some 0"
  by (simp add: hex_val_def code_def)

lemma join_surrogate_low: "cp < 0xD800 \<Longrightarrow> join_surrogate cp s = Inr (cp, s)"
  by (induction cp s rule: join_surrogate.induct) auto

lemma parse_escape_escape_char:
  assumes "escape_char c \<noteq> [c]"
  shows "\<exists>e. escape_char c = CHR 0x5C # e \<and> (\<forall>r. parse_escape (e @ r) = Inr ([c], r))"
proof -
  consider "c = CHR 0x22" | "c = CHR 0x5C" | "c = CHR 0x08" | "c = CHR 0x0C" | "c = CHR 0x0A"
    | "c = CHR 0x0D" | "c = CHR 0x09"
    | "c \<notin> {CHR 0x22, CHR 0x5C, CHR 0x08, CHR 0x0C, CHR 0x0A, CHR 0x0D, CHR 0x09}" "code c < 0x20"
    using assms by (auto simp: escape_char_def split: if_splits)
  then show ?thesis
  proof cases
    case 8
    have "hex4 (CHR ''0'') (CHR ''0'') (hex_lower_digit (code c div 16)) (hex_lower_digit (code c mod 16))
        = Some (code c)"
      using 8 by (simp add: hex4_def hex_val_0 hex_val_lower)
    moreover have "utf8 (code c) = [c]" using 8 by (simp add: utf8_def)
    ultimately show ?thesis using 8
      by (simp add: escape_char_def parse_escape_def simple_escape_u join_surrogate_low)
  qed (simp_all add: escape_char_def parse_escape_def simple_escape_def)
qed

lemma parse_chars_escape:
  "parse_chars out (concat (map escape_char s) @ CHR 0x22 # r) = Inr (out @ s, r)"
proof (induction s arbitrary: out)
  case (Cons c s)
  let ?k = "concat (map escape_char s) @ CHR 0x22 # r"
  show ?case
  proof (cases "escape_char c = [c]")
    case True
    then have "c \<noteq> CHR 0x22" "c \<noteq> CHR 0x5C" by (auto simp: escape_char_def)
    with True Cons show ?thesis by (simp add: parse_chars.simps(2))
  next
    case False
    then obtain e where e: "escape_char c = CHR 0x5C # e" "\<And>r. parse_escape (e @ r) = Inr ([c], r)"
      using parse_escape_escape_char by blast
    then show ?thesis using Cons by (simp add: parse_chars.simps(2))
  qed
qed (simp add: parse_chars.simps(2))

lemma parse_string_escape [simp]: "parse_string (escape s @ r) = Inr (s, r)"
  using parse_chars_escape [of "[]" s r] by (simp add: parse_string_def escape_def)


section \<open>Integers round trip\<close>

lemma ilog2_bounds: "0 < n \<Longrightarrow> 2 ^ ilog2 n \<le> n \<and> n < 2 ^ Suc (ilog2 n)"
proof (induction n rule: ilog2.induct)
  case (1 n)
  show ?case
  proof (cases "n < 2")
    case True
    with "1.prems" show ?thesis by (simp add: ilog2.simps [of n])
  next
    case False
    with 1 have "2 ^ ilog2 (n div 2) \<le> n div 2" "n div 2 < 2 * 2 ^ ilog2 (n div 2)" by auto
    then have "2 * 2 ^ ilog2 (n div 2) \<le> n" "n < 4 * 2 ^ ilog2 (n div 2)" by linarith+
    with False show ?thesis by (simp add: ilog2.simps [of n])
  qed
qed

lemma ilog2_le:
  assumes "0 < n" "n \<le> 2 ^ k"
  shows "ilog2 n \<le> k"
proof -
  have "(2::nat) ^ ilog2 n \<le> 2 ^ k" using ilog2_bounds [OF assms(1)] assms(2) by linarith
  then show ?thesis by (rule power_le_imp_le_exp [rotated]) simp
qed

lemma bin_exponent_nat:
  assumes "0 < n"
  shows "bin_exponent (of_nat n) = int (ilog2 n)"
proof -
  have q: "quotient_of (of_nat n) = (int n, 1)"
    using quotient_of_int [of "int n"] by (simp add: Rat.of_int_def [symmetric])
  have "2 ^ ilog2 n \<le> n" using ilog2_bounds [OF assms] by simp
  then have "(2::rat) ^ ilog2 n \<le> of_nat n"
    by (metis of_nat_le_iff of_nat_numeral of_nat_power)
  then show ?thesis by (simp add: bin_exponent_def q ilog2.simps [of "Suc 0"])
qed

lemma round_half_even_int [simp]: "round_half_even (of_int i) = i"
  by (simp add: round_half_even_def)

lemma round_at_int: "a / 2 powi u = of_int i \<Longrightarrow> round_at u a = a"
  by (simp add: round_at_def field_simps)

lemma exact_scale:
  assumes "0 < n" "n \<le> 2 ^ 53"
  shows "\<exists>i. (of_nat n :: rat) / 2 powi (int (ilog2 n) - 52) = of_int i"
proof (cases "ilog2 n \<le> 52")
  case True
  then have "(of_nat n :: rat) / 2 powi (int (ilog2 n) - 52) = of_int (int n * 2 ^ (52 - ilog2 n))"
    by (simp add: power_int_def nat_diff_distrib' field_simps power_inverse)
  then show ?thesis by blast
next
  case False
  have "ilog2 n \<le> 53" by (rule ilog2_le [OF assms])
  with False have l: "ilog2 n = 53" by simp
  with ilog2_bounds [OF assms(1)] assms(2) have "n = 2 ^ 53" by simp
  with l show ?thesis by (intro exI [of _ "2 ^ 52"]) (simp add: power_int_def)
qed

lemma b64_round_nat:
  assumes "0 < n" "n \<le> 2 ^ 53"
  shows "b64_round (of_nat n) = Some (of_nat n)" "b64_round (- of_nat n) = Some (- of_nat n)"
proof -
  have "round_at (int (ilog2 n) - 52) (of_nat n) = of_nat n"
    using exact_scale [OF assms] round_at_int by blast
  then show "b64_round (of_nat n) = Some (of_nat n)" "b64_round (- of_nat n) = Some (- of_nat n)"
    using assms(1) ilog2_le [OF assms] bin_exponent_nat [OF assms(1)]
    by (simp_all add: b64_round_def Let_def)
qed

lemma b64_round_int: "\<bar>i\<bar> \<le> 2 ^ 53 \<Longrightarrow> b64_round (of_int i) = Some (of_int i)"
  using b64_round_nat [of "nat \<bar>i\<bar>"]
  by (cases "i = 0"; cases "i < 0") (auto simp: b64_round_def)

lemma not_digit_marks: "\<not> is_digit (CHR ''-'')" "\<not> is_digit (CHR ''.'')" "\<not> is_digit (CHR ''e'')"
   "\<not> is_digit (CHR ''E'')"
  by (simp_all add: is_digit_def code_def)

lemma stod_dec_int:
  assumes "\<bar>i\<bar> \<le> 2 ^ 53"
  shows "stod (dec_int i) = Some (of_int i)"
proof (cases "i < 0")
  case True
  then have "rat_of_nat (nat (- i)) = - of_int i" by simp
  then show ?thesis using True b64_round_int [OF assms]
    by (simp add: stod_def dec_int_def)
next
  case False
  obtain c cs where c: "dec_digits (nat i) = c # cs" by (cases "dec_digits (nat i)") auto
  then have "is_digit c" using dec_digits_all_digits [of c "nat i"] by simp
  then have nm: "(case dec_digits (nat i) of [] \<Rightarrow> False | d # _ \<Rightarrow> d = CHR ''-'') = False"
    using not_digit_marks c by auto
  have "rat_of_nat (nat i) = of_int i" using False by simp
  then show ?thesis using False b64_round_int [OF assms]
    by (simp add: stod_def dec_int_def nm)
qed

text \<open>A text a number may be followed by: it does not continue the number.\<close>

definition ends_number :: "string \<Rightarrow> bool" where
  "ends_number r =
     (case r of [] \<Rightarrow> True
      | c # _ \<Rightarrow> \<not> is_digit c \<and> c \<noteq> CHR ''.'' \<and> c \<noteq> CHR ''e'' \<and> c \<noteq> CHR ''E'')"

lemma scan_number_dec_int:
  assumes "ends_number r"
  shows "scan_number (dec_int i @ r) = r"
proof -
  have dw: "dropWhile is_digit (dec_digits n @ r) = r" for n
    using assms by (cases r) (simp_all add: ends_number_def)
  obtain c cs where c: "dec_digits (nat i) = c # cs" by (cases "dec_digits (nat i)") auto
  then have "is_digit c" using dec_digits_all_digits [of c "nat i"] by simp
  then have nm: "c \<noteq> CHR ''-''" using not_digit_marks by auto
  show ?thesis
    using assms dw [of "nat i"] dw [of "nat (- i)"] c nm
    by (cases r) (auto simp: scan_number_def dec_int_def Let_def ends_number_def)
qed

lemma dec_int_nonempty: "dec_int i \<noteq> []"
  by (simp add: dec_int_def)

lemma parse_number_dec_int:
  "\<bar>i\<bar> \<le> 2 ^ 53 \<Longrightarrow> ends_number r \<Longrightarrow> parse_number (dec_int i @ r) = Inr (of_int i, r)"
  using dec_int_nonempty [of i]
  by (simp add: parse_number_def scan_number_dec_int stod_dec_int)


section \<open>Values round trip\<close>

text \<open>
  The shape of a value: at most \<open>n\<close> nested containers; objects as \<open>std::map\<close> keeps them,
  keys strictly increasing; numbers that are integers a binary64 holds exactly.
\<close>

fun fits :: "nat \<Rightarrow> json \<Rightarrow> bool" where
  "fits n (JArray a) = (0 < n \<and> (\<forall>v \<in> set a. fits (n - 1) v))"
| "fits n (JObject m) = (0 < n \<and> (\<forall>p \<in> set m. fits (n - 1) (snd p)))"
| "fits n v = True"

fun well_keyed :: "json \<Rightarrow> bool" where
  "well_keyed (JArray a) = (\<forall>v \<in> set a. well_keyed v)"
| "well_keyed (JObject m) = (sorted_wrt (<) (map fst m) \<and> (\<forall>p \<in> set m. well_keyed (snd p)))"
| "well_keyed v = True"

fun int_exact :: "json \<Rightarrow> bool" where
  "int_exact (JNumber x) = (of_int (trunc_int x) = x \<and> \<bar>x\<bar> \<le> 2 ^ 53)"
| "int_exact (JArray a) = (\<forall>v \<in> set a. int_exact v)"
| "int_exact (JObject m) = (\<forall>p \<in> set m. int_exact (snd p))"
| "int_exact v = True"

lemma dump_number_exact: "int_exact (JNumber x) \<Longrightarrow> dump_number x = dec_int (trunc_int x)"
  by (auto simp: dump_number_def)

lemma trunc_exact: "int_exact (JNumber x) \<Longrightarrow> \<bar>trunc_int x\<bar> \<le> 2 ^ 53"
  by auto

lemma skip_ws_Cons [simp]: "skip_ws (c # s) = (if is_ws c then skip_ws s else c # s)"
  by (simp add: skip_ws_def)

lemma digit_not_ws: "is_digit c \<Longrightarrow> \<not> is_ws c"
  by (auto simp: is_digit_def is_ws_def code_def)

lemma dec_int_head: "\<exists>c cs. dec_int i = c # cs \<and> (c = CHR ''-'' \<or> is_digit c)"
proof (cases "i < 0")
  case False
  then show ?thesis using dec_digits_all_digits [of _ "nat i"]
    by (cases "dec_digits (nat i)") (auto simp: dec_int_def)
qed (simp add: dec_int_def)

lemma parse_scalar_number:
  assumes "\<bar>i\<bar> \<le> 2 ^ 53" "ends_number r"
  shows "parse_head f g (dec_int i @ r) = POk (JNumber (of_int i)) r"
proof -
  obtain c cs where c: "dec_int i = c # cs" and d: "c = CHR ''-'' \<or> is_digit c"
    using dec_int_head by blast
  have nd: "\<not> is_digit x" if "x \<in> {CHR 0x22, CHR 0x7B, CHR 0x5B, CHR ''t'', CHR ''f'', CHR ''n''}" for x
    using that by (auto simp: is_digit_def code_def)
  have "c \<notin> {CHR 0x22, CHR 0x7B, CHR 0x5B, CHR ''t'', CHR ''f'', CHR ''n''}" using d nd by auto
  moreover have "\<not> is_ws c" using d digit_not_ws by (auto simp: is_ws_def)
  ultimately show ?thesis using d parse_number_dec_int [OF assms] c
    by (simp add: parse_head_def parse_scalar_def)
qed

lemma dump_head: "\<exists>c cs. dump v = c # cs \<and> \<not> is_ws c \<and> c \<noteq> CHR 0x5D" if "int_exact v"
proof (cases v)
  case (JNumber x)
  then show ?thesis using dec_int_head [of "trunc_int x"] that digit_not_ws dump_number_exact [of x]
    by (auto simp: is_ws_def is_digit_def code_def)
qed (auto simp: is_ws_def escape_def)

lemma ends_number_marks [simp]: "ends_number (CHR '','' # r)" "ends_number (CHR 0x5D # r)"
   "ends_number (CHR 0x7D # r)" "ends_number []"
  by (simp_all add: ends_number_def is_digit_def code_def)

lemma marks_not_ws [simp]: "\<not> is_ws (CHR '','')" "\<not> is_ws (CHR 0x5D)" "\<not> is_ws (CHR 0x7D)"
   "\<not> is_ws (CHR '':'')" "\<not> is_ws (CHR 0x22)" "\<not> is_ws (CHR 0x5B)" "\<not> is_ws (CHR 0x7B)"
   "\<not> is_ws (CHR ''t'')" "\<not> is_ws (CHR ''f'')" "\<not> is_ws (CHR ''n'')"
  by (simp_all add: is_ws_def)

lemma elements_dump:
  assumes "\<And>v r. v \<in> set vs \<Longrightarrow> ends_number r \<Longrightarrow> pv (dump v @ r) = POk (g v) r"
    and "vs \<noteq> []" and "length vs \<le> fuel"
  shows "parse_elements pv fuel arr (join_comma (map dump vs) @ CHR 0x5D # r) = POk (JArray (arr @ map g vs)) r"
  using assms
proof (induction vs arbitrary: arr fuel)
  case (Cons v vs)
  then obtain f where f: "fuel = Suc f" by (cases fuel) auto
  show ?case
  proof (cases vs)
    case Nil
    then show ?thesis using Cons f by simp
  next
    case (Cons w ws)
    have "parse_elements pv f (arr @ [g v]) (join_comma (map dump vs) @ CHR 0x5D # r)
        = POk (JArray ((arr @ [g v]) @ map g vs)) r"
      using Cons.IH Cons.prems f Cons by simp
    then show ?thesis using Cons.prems f Cons by simp
  qed
qed simp

lemma map_emplace_snoc:
  "\<forall>k' \<in> fst ` set m. k' < k \<Longrightarrow> map_emplace k v m = m @ [(k, v)]"
  by (induction m) (auto simp: less_le_not_le)

lemma escape_head: "\<exists>cs. escape s = CHR 0x22 # cs"
  by (simp add: escape_def)

lemma skip_ws_escape [simp]: "skip_ws (escape s @ r) = escape s @ r"
  by (simp add: escape_def)

definition emplace_all :: "jobject \<Rightarrow> (string \<times> json) list \<Rightarrow> jobject" where
  "emplace_all m0 ms = foldl (\<lambda>m (k, v). map_emplace k v m) m0 ms"

lemma emplace_all_simps [simp]:
  "emplace_all m0 [] = m0"
  "emplace_all m0 ((k, v) # ms) = emplace_all (map_emplace k v m0) ms"
  by (simp_all add: emplace_all_def)

lemma emplace_all_sorted: "sorted_wrt (<) (map fst (m0 @ ms)) \<Longrightarrow> emplace_all m0 ms = m0 @ ms"
proof (induction ms arbitrary: m0)
  case (Cons p ms)
  then have "map_emplace (fst p) (snd p) m0 = m0 @ [p]"
    by (subst map_emplace_snoc) (auto simp: sorted_wrt_append)
  then show ?case using Cons by (cases p) simp
qed simp

text \<open>The printed form of a list of members, in whatever order and with whatever repeats.\<close>

definition dump_members :: "(string \<times> json) list \<Rightarrow> string" where
  "dump_members ms = join_comma (map (\<lambda>(k, v). escape k @ CHR '':'' # dump v) ms)"

lemma members_dump:
  assumes "\<And>p r. p \<in> set ms \<Longrightarrow> ends_number r \<Longrightarrow> pv (dump (snd p) @ r) = POk (g (snd p)) r"
    and "ms \<noteq> []" and "length ms \<le> fuel"
  shows "parse_members pv fuel m0 (dump_members ms @ CHR 0x7D # r) = POk (JObject (emplace_all m0 (map (\<lambda>(k, v). (k, g v)) ms))) r"
  using assms
proof (induction ms arbitrary: m0 fuel)
  case (Cons p ms)
  obtain k v where p: "p = (k, v)" by (cases p)
  obtain f where f: "fuel = Suc f" using Cons.prems by (cases fuel) auto
  have pv: "ends_number r' \<Longrightarrow> pv (dump v @ r') = POk (g v) r'" for r'
    using Cons.prems(1) [of p r'] p by simp
  show ?case
  proof (cases ms)
    case Nil
    then show ?thesis using f p pv by (simp add: dump_members_def)
  next
    case (Cons q qs)
    have "parse_members pv f (map_emplace k (g v) m0) (dump_members ms @ CHR 0x7D # r)
       = POk (JObject (emplace_all (map_emplace k (g v) m0) (map (\<lambda>(k, v). (k, g v)) ms))) r"
      using Cons.IH Cons.prems f p Cons by simp
    then show ?thesis using f p pv Cons by (simp add: dump_members_def)
  qed
qed simp

lemma length_join_comma: "length ss \<le> Suc (length (join_comma ss))"
  by (induction ss rule: join_comma.induct) auto

lemma parse_head_string: "parse_head f g (escape t @ r) = POk (JString t) r"
proof -
  obtain cs where cs: "escape t = CHR 0x22 # cs" using escape_head by blast
  then show ?thesis using parse_string_escape [of t r]
    by (simp add: parse_head_def parse_scalar_def)
qed

lemma parse_head_dump:
  assumes "\<not> is_array v" "\<not> is_object v" "int_exact v" "ends_number r"
  shows "parse_head f g (dump v @ r) = POk v r"
proof (cases v)
  case (JNumber x)
  then show ?thesis using assms parse_scalar_number [OF trunc_exact] dump_number_exact by simp
next
  case (JString t)
  then show ?thesis by (simp add: parse_head_string)
qed (use assms in \<open>auto simp: parse_head_def parse_scalar_def parse_literal_def literal_def\<close>)

lemma dump_array_parse:
  assumes "\<And>v r. v \<in> set vs \<Longrightarrow> ends_number r \<Longrightarrow> pv (dump v @ r) = POk (g v) r"
    and "\<forall>v \<in> set vs. int_exact v"
  shows "parse_head f (parse_array pv) (dump (JArray vs) @ r) = POk (JArray (map g vs)) r"
proof (cases vs)
  case (Cons v vs')
  define b where "b = join_comma (map dump vs) @ CHR 0x5D # r"
  obtain c cs where c: "dump v = c # cs" "\<not> is_ws c" "c \<noteq> CHR 0x5D"
    using dump_head [of v] assms(2) Cons by auto
  then have b: "b \<noteq> []" "hd b = c" using Cons by (cases vs', auto simp: b_def)+
  then have "skip_ws b = b" using c by (cases b) auto
  moreover have "parse_elements pv (Suc (length b)) [] b = POk (JArray ([] @ map g vs)) r"
    using length_join_comma [of "map dump vs"] Cons assms(1)
    unfolding b_def by (intro elements_dump) auto
  moreover have "dump (JArray vs) @ r = CHR 0x5B # b" by (simp add: b_def)
  ultimately show ?thesis using b c
    by (simp add: parse_head_def parse_array_def del: parse_elements.simps dump.simps)
qed (simp add: parse_head_def parse_array_def)

lemma members_parse:
  assumes "\<And>p r. p \<in> set ms \<Longrightarrow> ends_number r \<Longrightarrow> pv (dump (snd p) @ r) = POk (g (snd p)) r"
  shows "parse_head (parse_object pv) h (CHR 0x7B # dump_members ms @ CHR 0x7D # r)
     = POk (JObject (emplace_all [] (map (\<lambda>(k, v). (k, g v)) ms))) r"
proof (cases ms)
  case (Cons p ms')
  let ?j = "map (\<lambda>(k, v). escape k @ CHR '':'' # dump v) ms"
  define b where "b = dump_members ms @ CHR 0x7D # r"
  obtain k v where p: "p = (k, v)" by (cases p)
  obtain cs where "escape k = CHR 0x22 # cs" using escape_head by blast
  then have b: "b \<noteq> []" "hd b = CHR 0x22"
    using Cons p by (cases ms', auto simp: b_def dump_members_def)+
  then have "skip_ws b = b" by (cases b) auto
  moreover have "parse_members pv (Suc (length b)) [] b = POk (JObject (emplace_all [] (map (\<lambda>(k, v). (k, g v)) ms))) r"
    using length_join_comma [of ?j] Cons assms
    unfolding b_def by (intro members_dump) (auto simp: dump_members_def)
  ultimately show ?thesis using b unfolding b_def [symmetric]
    by (simp add: parse_head_def parse_object_def del: parse_members.simps)
qed (simp add: parse_head_def parse_object_def dump_members_def)

lemma dump_object: "dump (JObject ms) = CHR 0x7B # dump_members ms @ [CHR 0x7D]"
  by (simp add: dump_members_def)

text \<open>
  What reading back a printed value gives: of the members with the same key the first, in the
  order of the keys. Values that are kept in that order are read back unchanged.
\<close>

fun read_back :: "json \<Rightarrow> json" where
  "read_back (JArray vs) = JArray (map read_back vs)"
| "read_back (JObject ms) = JObject (emplace_all [] (map (\<lambda>(k, v). (k, read_back v)) ms))"
| "read_back v = v"

lemma read_back_well_keyed: "well_keyed v \<Longrightarrow> read_back v = v"
proof (induction v rule: read_back.induct)
  case (2 ms)
  then have "map (\<lambda>(k, v). (k, read_back v)) ms = ms" by (auto intro!: map_idI)
  then show ?case using 2 emplace_all_sorted [of "[]" ms] by simp
qed (auto intro: map_idI)

lemma parse_value_dump_any:
  "fits n v \<Longrightarrow> int_exact v \<Longrightarrow> ends_number r \<Longrightarrow> parse_value n (dump v @ r) = POk (read_back v) r"
proof (induction n arbitrary: v r)
  case 0
  then have "read_back v = v" by (cases v) auto
  then show ?case using 0 by (cases v) (auto intro!: parse_head_dump simp del: dump.simps)
next
  case (Suc n)
  show ?case
  proof (cases v)
    case (JArray vs)
    have "parse_head (parse_object (parse_value n)) (parse_array (parse_value n)) (dump (JArray vs) @ r) = POk (JArray (map read_back vs)) r"
      by (rule dump_array_parse) (use Suc JArray in auto)
    then show ?thesis using JArray by (simp del: dump.simps)
  next
    case (JObject ms)
    have "parse_head (parse_object (parse_value n)) (parse_array (parse_value n)) (CHR 0x7B # dump_members ms @ CHR 0x7D # r) =
        POk (JObject (emplace_all [] (map (\<lambda>(k, v). (k, read_back v)) ms))) r"
      by (rule members_parse) (use Suc JObject in auto)
    then show ?thesis using JObject by (simp add: dump_object del: dump.simps)
  qed (use Suc in \<open>auto intro!: parse_head_dump simp del: dump.simps\<close>)
qed

lemma parse_value_dump:
  "well_keyed v \<Longrightarrow> fits n v \<Longrightarrow> int_exact v \<Longrightarrow> ends_number r \<Longrightarrow> parse_value n (dump v @ r) = POk v r"
  using parse_value_dump_any [of n v r] read_back_well_keyed [of v] by simp

lemma parse_dump_any:
  assumes "fits kMaxNestingDepth v" "int_exact v"
  shows "parse (dump v) = Some (read_back v)"
proof -
  obtain c cs where c: "dump v = c # cs" "\<not> is_ws c" using dump_head [OF assms(2)] by blast
  then have "skip_ws (dump v) = dump v" by simp
  moreover have "parse_value kMaxNestingDepth (dump v @ []) = POk (read_back v) []"
    by (rule parse_value_dump_any [OF assms]) simp
  ultimately show ?thesis by (simp add: parse_def parse_res_def skip_ws_def)
qed

lemma parse_dump: "well_keyed v \<Longrightarrow> fits kMaxNestingDepth v \<Longrightarrow> int_exact v \<Longrightarrow> parse (dump v) = Some v"
  using parse_dump_any [of v] read_back_well_keyed [of v] by simp

section \<open>What the parser returns\<close>

lemma parse_scalar_shape: "parse_scalar s = POk v r \<Longrightarrow> well_keyed v \<and> fits n v"
  by (auto simp: parse_scalar_def parse_literal_def split: if_splits sum.splits option.splits)

text \<open>A reader that, in addition, only builds well-formed values of at most \<open>n\<close> levels.\<close>

locale shaped_reader = value_reader pv for pv :: "string \<Rightarrow> json pres" +
  fixes n :: nat
  assumes pv_shape: "pv s = POk v r \<Longrightarrow> well_keyed v \<and> fits n v"
begin

lemma elements_shape:
  "parse_elements pv m arr s = POk v r \<Longrightarrow> \<forall>x \<in> set arr. well_keyed x \<and> fits n x \<Longrightarrow>
   well_keyed v \<and> fits (Suc n) v"
proof (induction m arbitrary: arr s)
  case (Suc m)
  from Suc.prems obtain w r1 where w: "pv s = POk w r1" by (auto split: pres.splits)
  with Suc.prems consider "parse_elements pv m (arr @ [w]) (tl (skip_ws r1)) = POk v r"
    | "v = JArray (arr @ [w])" by (auto simp: Let_def split: if_splits)
  then show ?case
  proof cases
    case 1
    then show ?thesis using Suc.IH Suc.prems(2) pv_shape [OF w] by simp
  next
    case 2
    then show ?thesis using Suc.prems(2) pv_shape [OF w] by auto
  qed
qed simp

lemma members_shape:
  "parse_members pv m obj s = POk v r \<Longrightarrow> well_keyed (JObject obj) \<Longrightarrow> fits (Suc n) (JObject obj) \<Longrightarrow>
   well_keyed v \<and> fits (Suc n) v"
proof (induction m arbitrary: obj s)
  case (Suc m)
  from Suc.prems(1) obtain k r0 where k: "parse_string (skip_ws s) = Inr (k, r0)"
    by (auto split: sum.splits)
  with Suc.prems(1) obtain w r1 where w: "pv (tl (skip_ws r0)) = POk w r1"
    by (auto split: pres.splits if_splits)
  have "snd p \<in> insert w (snd ` set obj)" if "p \<in> set (map_emplace k w obj)" for p
    using that map_emplace_values [of k w obj] by blast
  then have ok: "well_keyed (JObject (map_emplace k w obj))" "fits (Suc n) (JObject (map_emplace k w obj))"
    using Suc.prems(2,3) pv_shape [OF w] map_emplace_sorted by fastforce+
  from Suc.prems(1) k w consider
      "parse_members pv m (map_emplace k w obj) (tl (skip_ws r1)) = POk v r"
    | "v = JObject (map_emplace k w obj)" by (auto simp: Let_def split: if_splits)
  then show ?case using ok Suc.IH by cases auto
qed simp

lemma head_shape:
  "parse_head (parse_object pv) (parse_array pv) s = POk v r \<Longrightarrow> well_keyed v \<and> fits (Suc n) v"
  by (auto simp: parse_head_def parse_object_def parse_array_def Let_def
      simp del: parse_elements.simps parse_members.simps split: if_splits
      dest: elements_shape members_shape parse_scalar_shape)

end

lemma parse_value_shaped: "shaped_reader (parse_value n) n"
proof (induction n)
  case 0
  show ?case
    by (intro shaped_reader.intro parse_value_reader shaped_reader_axioms.intro)
      (auto simp: parse_head_def Let_def split: if_splits dest: parse_scalar_shape)
next
  case (Suc n)
  show ?case
    by (intro shaped_reader.intro parse_value_reader shaped_reader_axioms.intro)
      (simp add: shaped_reader.head_shape [OF Suc])
qed

interpretation pv: shaped_reader "parse_value n" n for n
  by (rule parse_value_shaped)

lemma parse_shape: "parse t = Some v \<Longrightarrow> well_keyed v \<and> fits kMaxNestingDepth v"
  by (auto simp: parse_def parse_res_def split: pres.splits if_splits dest: pv.pv_shape)

lemma parse_res_total: "parse_res text \<noteq> POut"
  using pv.pv_total [of kMaxNestingDepth "skip_ws text"]
  by (simp add: parse_res_def split: pres.split)

section \<open>Objects built by assignment\<close>

lemma obj_of_snoc: "obj_of (kvs @ [(k, v)]) = map_assign k v (obj_of kvs)"
  by (simp add: obj_of_def)

lemma obj_of_sorted: "sorted_wrt (<) (map fst (obj_of kvs))"
  by (induction kvs rule: rev_induct) (auto simp: obj_of_snoc map_assign_sorted, simp add: obj_of_def)

lemma map_of_obj_of: "map_of (obj_of kvs) k = map_of (rev kvs) k"
  by (induction kvs rule: rev_induct)
    (auto simp: obj_of_snoc map_of_map_assign obj_of_sorted, simp add: obj_of_def)

lemma obj_of_values: "snd ` set (obj_of kvs) \<subseteq> snd ` set kvs"
proof (induction kvs rule: rev_induct)
  case (snoc p kvs)
  have "snd ` set (obj_of (kvs @ [p])) \<subseteq> insert (snd p) (snd ` set (obj_of kvs))"
    using map_assign_values [of "fst p" "snd p" "obj_of kvs"] obj_of_snoc [of kvs "fst p" "snd p"] by simp
  also have "\<dots> \<subseteq> insert (snd p) (snd ` set kvs)" by (rule insert_mono [OF snoc])
  finally show ?case by simp
qed (simp add: obj_of_def)

section \<open>Lookup\<close>

lemma find_path_Nil [simp]: "find_path v [] = v"
  by (simp add: find_path.simps)

lemma find_path_JNull [simp]: "find_path JNull p = JNull"
  by (simp add: find_path.simps)

lemma find_path_key:
  assumes "k \<noteq> []" "\<forall>c \<in> set k. \<not> path_sep c"
  shows "find_path v k = (case v of JObject m \<Rightarrow> (case map_of m k of None \<Rightarrow> JNull | Some w \<Rightarrow> w) | _ \<Rightarrow> JNull)"
proof -
  have "hd k \<noteq> CHR 0x5B" using assms by (cases k) (auto simp: path_sep_def)
  moreover have "find_first path_sep k = None" using assms by simp
  ultimately show ?thesis using assms(1)
    by (cases v) (simp_all add: find_path.simps [of _ k] Let_def del: find_first_None split: option.split)
qed

lemma find_path_dot:
  assumes "k \<noteq> []" "\<forall>c \<in> set k. \<not> path_sep c"
  shows "find_path v (k @ CHR ''.'' # p) = find_path (find_path v k) p"
proof -
  have h: "hd (k @ CHR ''.'' # p) \<noteq> CHR 0x5B" using assms by (cases k) (auto simp: path_sep_def)
  have "find_first path_sep (k @ CHR ''.'' # p) = Some (length k)"
    using assms by (intro find_first_append) (auto simp: path_sep_def)
  then show ?thesis using assms h
    by (cases v) (auto simp: find_path.simps [of _ "k @ CHR ''.'' # p"] find_path_key skip_dot_def
        split: option.split)
qed

lemma find_path_index:
  assumes "n < 2 ^ 64"
  shows "find_path v (CHR 0x5B # dec_digits n @ CHR 0x5D # p) =
    (case v of JArray a \<Rightarrow> (if n < length a then find_path (a ! n) (skip_dot p) else JNull) | _ \<Rightarrow> JNull)"
proof -
  let ?path = "CHR 0x5B # dec_digits n @ CHR 0x5D # p"
  have "\<not> is_digit (CHR 0x5D)" by (simp add: is_digit_def code_def)
  then have "CHR 0x5D \<notin> set (dec_digits n)" using dec_digits_all_digits by blast
  then have c: "find_char (CHR 0x5D) ?path = Some (Suc (length (dec_digits n)))" by simp
  have s: "stoul (dec_digits n) = Some n"
    using strto_int_dec_digits [of "[]" n] assms by (simp add: stoul_def nat_mod_distrib nat_power_eq)
  show ?thesis using c s
    by (cases v) (auto simp: find_path.simps [of _ ?path] substr_def not_less)
qed

lemma as_int_range: "- (2 ^ 63) \<le> d \<Longrightarrow> d < 2 ^ 63 \<Longrightarrow> - (2 ^ 63) \<le> as_int d v \<and> as_int d v < 2 ^ 63"
proof (cases v)
  case (JNumber x)
  have "\<lfloor>x\<rfloor> < 2 ^ 63" if "x < 2 ^ 63" using that by (simp add: floor_less_iff)
  moreover have "- (2 ^ 63) \<le> \<lceil>x\<rceil>" if "- (2 ^ 63) < x" using that by (simp add: le_ceiling_iff)
  moreover have "\<lceil>x\<rceil> \<le> 0" if "x < 0" using that by (simp add: ceiling_le_iff)
  ultimately show ?thesis using JNumber by (auto simp: trunc_int_def not_le)
qed auto

lemma trunc_int_of_int [simp]: "trunc_int (of_int i) = i"
  by (simp add: trunc_int_def)

section \<open>The contract of the JSON codec\<close>

text \<open>What the protocol layers rely on: every value they may send is read back unchanged.\<close>

definition dumpable :: "json \<Rightarrow> bool" where
  "dumpable v = (well_keyed v \<and> fits kMaxNestingDepth v \<and> int_exact v)"

locale json_codec =
  fixes print :: "json \<Rightarrow> string" and read :: "string \<Rightarrow> json option" and ok :: "json \<Rightarrow> bool"
  assumes read_print: "ok v \<Longrightarrow> read (print v) = Some v"
begin

lemma print_inject: "ok v \<Longrightarrow> ok w \<Longrightarrow> print v = print w \<Longrightarrow> v = w"
  by (metis option.inject read_print)

lemma read_field: "ok v \<Longrightarrow> map_option (\<lambda>r. find_path r k) (read (print v)) = Some (find_path v k)"
  by (simp add: read_print)

end

interpretation json: json_codec dump parse dumpable
  by unfold_locales (simp add: dumpable_def parse_dump)

section \<open>Properties\<close>



text \<open>
  C2. Parsing always ends with a value or with a reason: no input drives the parser's loops
  past the fuel they are given.
\<close>

theorem json_parse_total: "(\<exists>v. parse_res t = POk v []) \<or> (\<exists>e. parse_res t = PErr e)"
  using parse_res_total [of t] by (auto simp: parse_res_def split: pres.splits if_splits)

text \<open>
  A path lookup composes: looking up \<open>k.p\<close> is looking up \<open>p\<close> in what \<open>k\<close> names,
  and an array step reads the element of that index, or null past the end.
\<close>

lemma json_find_composes:
  "k \<noteq> [] \<and> (\<forall>c \<in> set k. \<not> path_sep c) \<and> n < 2 ^ 64 \<Longrightarrow>
   find_path v (k @ CHR ''.'' # p) = find_path (find_path v k) p \<and>
   find_path (JArray a) (CHR 0x5B # dec_digits n @ CHR 0x5D # p)
     = (if n < length a then find_path (a ! n) (skip_dot p) else JNull)"
  by (simp add: find_path_dot find_path_index)

end
