(* ===== verification/Tunnel_Local.thy ===== *)
theory Tunnel_Local
  imports Json_Lite
begin

text \<open>
  Model of \<open>src/tunnel_local.cpp\<close> (\<open>include/obn/tunnel_local.hpp\<close>), the framed control
  channel to the printer's port 6000: 16-byte frame headers, the JSON messages of the file
  browser, the split of a frame body into JSON and binary, and the replies. The session with
  its handshake is in \<open>Tunnel_Session\<close>. \<open>None\<close> as the result of an operation stands for
  behaviour the C++ does not define, an out-of-range read, or for a loop that makes no
  progress; where it can happen is stated as a theorem.
\<close>

section \<open>Wire constants\<close>

definition kMagicLoginClient :: u32 where "kMagicLoginClient = 0x0101013F"
definition kMagicLoginServer :: u32 where "kMagicLoginServer = 0x0001013F"
definition kMagicCtrlClient :: u32 where "kMagicCtrlClient = 0x0102013F"

definition kMtypeCtrlSetup :: int where "kMtypeCtrlSetup = 12291"
definition kMtypeCtrlJson :: int where "kMtypeCtrlJson = 12289"

definition kCmdMediaAbility :: int where "kCmdMediaAbility = 7"
definition kCmdFileUpload :: int where "kCmdFileUpload = 5"
definition kCmdFileDownload :: int where "kCmdFileDownload = 4"
definition kCmdFileDel :: int where "kCmdFileDel = 3"
definition kCmdSubFile :: int where "kCmdSubFile = 2"
definition kCmdListInfo :: int where "kCmdListInfo = 1"

section \<open>Frame headers\<close>

record frame_header =
  payload_len :: u32
  magic :: u32
  seq :: u32

definition build_frame_header :: "u32 \<Rightarrow> u32 \<Rightarrow> u32 \<Rightarrow> bytes" where
  "build_frame_header len mag sq = le32 len @ le32 mag @ le32 sq @ [0, 0, 0, 0]"

definition parse_frame_header :: "bytes \<Rightarrow> frame_header option" where
  "parse_frame_header data =
     (if length data < 16 then None
      else Some \<lparr>payload_len = get_le32 data, magic = get_le32 (drop 4 data), seq = get_le32 (drop 8 data)\<rparr>)"

definition ascii_field :: "string \<Rightarrow> nat \<Rightarrow> string" where
  "ascii_field s width = take width s @ replicate (width - length s) (CHR 0x00)"

definition build_login_payload :: "string \<Rightarrow> string \<Rightarrow> string" where
  "build_login_payload username access_code = ascii_field username 8 @ ascii_field access_code 8"

section \<open>Requests\<close>

text \<open>\<open>static_cast<double>\<close> of an unsigned 64-bit value.\<close>

definition to_dbl :: "nat \<Rightarrow> dbl" where
  "to_dbl n = (case b64_round (of_nat n) of Some d \<Rightarrow> d | None \<Rightarrow> 0)"

definition jint :: "int \<Rightarrow> json" where
  "jint i = JNumber (of_int i)"

definition jnat :: "nat \<Rightarrow> json" where
  "jnat n = JNumber (to_dbl n)"

text \<open>The root object every request shares, from its command, sequence and request object.\<close>

definition request :: "int \<Rightarrow> u32 \<Rightarrow> (string \<times> json) list \<Rightarrow> json" where
  "request cmd sq req =
     JObject (obj_of [(''cmdtype'', jint cmd), (''sequence'', jnat (unat sq)), (''req'', JObject (obj_of req))])"

definition opt_str :: "string \<Rightarrow> string \<Rightarrow> (string \<times> json) list" where
  "opt_str k s = (if s = [] then [] else [(k, JString s)])"

definition build_setup_json :: "string \<Rightarrow> string \<Rightarrow> string" where
  "build_setup_json client_id client_ver =
     dump (JObject (obj_of
       [(''sequence'', jint 0), (''mtype'', jint kMtypeCtrlSetup),
        (''req'', JObject (obj_of
           [(''t_av'', jint 1), (''mtype'', jint kMtypeCtrlJson), (''peer_t'', jint 3),
            (''pid'', JString client_id), (''ver'', JString client_ver)]))]))"

definition build_media_ability_abi :: "u32 \<Rightarrow> string" where
  "build_media_ability_abi sq =
     dump (request kCmdMediaAbility sq
       [(''peer'', JString ''studio''), (''peer_t'', jint 3), (''api_version'', jint 3)])"

definition build_file_upload_init_abi :: "u32 \<Rightarrow> string \<Rightarrow> string \<Rightarrow> u64 \<Rightarrow> string" where
  "build_file_upload_init_abi sq dest_storage dest_name tot =
     dump (request kCmdFileUpload sq
       ([(''type'', JString ''model''), (''path'', JString dest_name), (''total'', jnat (unat tot))]
        @ opt_str ''storage'' dest_storage))"

definition build_file_delete_abi :: "u32 \<Rightarrow> string \<Rightarrow> string \<Rightarrow> string" where
  "build_file_delete_abi sq dest_storage dest_name =
     dump (request kCmdFileDel sq
       ((''delete'', JArray [JString dest_name]) # opt_str ''storage'' dest_storage))"

definition build_file_download_abi :: "u32 \<Rightarrow> string \<Rightarrow> u64 \<Rightarrow> string \<Rightarrow> string" where
  "build_file_download_abi sq path off target_path =
     dump (request kCmdFileDownload sq
       ([(''path'', JString path), (''offset'', jnat (unat off))] @ opt_str ''target_path'' target_path))"

definition build_sub_file_abi :: "u32 \<Rightarrow> string list \<Rightarrow> string \<Rightarrow> string" where
  "build_sub_file_abi sq paths storage =
     dump (request kCmdSubFile sq
       ([(''paths'', JArray (map JString paths)), (''api_version'', jint 2), (''peer'', JString ''studio'')]
        @ opt_str ''storage'' storage))"

definition build_list_info_abi :: "u32 \<Rightarrow> string \<Rightarrow> string \<Rightarrow> string" where
  "build_list_info_abi sq typ storage =
     dump (request kCmdListInfo sq
       ([(''type'', JString typ), (''api_version'', jint 2), (''notify'', JString ''DETAIL'')]
        @ opt_str ''storage'' storage))"

definition build_file_upload_chunk_abi :: "u32 \<Rightarrow> u32 \<Rightarrow> u64 \<Rightarrow> u32 \<Rightarrow> string \<Rightarrow> string" where
  "build_file_upload_chunk_abi sq frag_id off sz file_md5_lower =
     dump (JObject (obj_of
       [(''cmdtype'', jint kCmdFileUpload), (''sequence'', jnat (unat sq)), (''frag_id'', jnat (unat frag_id)),
        (''req'', JObject (obj_of
           ([(''offset'', jnat (unat off)), (''size'', jnat (unat sz))] @ opt_str ''file_md5'' file_md5_lower)))]))"

definition build_file_upload_abi :: "u32 \<Rightarrow> string \<Rightarrow> string \<Rightarrow> u64 \<Rightarrow> string \<Rightarrow> string" where
  "build_file_upload_abi sq dest_storage dest_name sz md5 =
     (let p1 = ''/'' @ dest_storage;
          path = (if dest_storage = [] then ''/'' else if last p1 = CHR ''/'' then p1 else p1 @ ''/'')
      in dump (request kCmdFileUpload sq
           ([(''path'', JString path), (''file'', JString dest_name), (''size'', jnat (unat sz)),
             (''md5'', JString md5)]
            @ opt_str ''storage'' dest_storage
            @ [(''peer'', JString ''studio''), (''api_version'', jint 3)])))"

definition mtype_prefix :: string where
  "mtype_prefix = CHR 0x7B # CHR 0x22 # ''mtype'' @ [CHR 0x22]"

definition is_eol_ws :: "char \<Rightarrow> bool" where
  "is_eol_ws c = (c = CHR 0x0A \<or> c = CHR 0x0D \<or> c = CHR '' '' \<or> c = CHR 0x09)"

definition wrap_ctrl_abi :: "string \<Rightarrow> string" where
  "wrap_ctrl_abi abi_json =
     (let trimmed = rtrim is_eol_ws abi_json
      in if abi_json = [] then abi_json
         else if starts_with mtype_prefix trimmed then abi_json
         else if trimmed \<noteq> [] \<and> hd trimmed = CHR 0x7B then
           mtype_prefix @ '':'' @ dec_int kMtypeCtrlJson @ '','' @ tl trimmed
         else abi_json)"

definition separator :: string where
  "separator = [CHR 0x0A, CHR 0x0A]"

definition wrap_ctrl_abi_with_binary :: "string \<Rightarrow> bytes \<Rightarrow> string" where
  "wrap_ctrl_abi_with_binary abi_json bin =
     wrap_ctrl_abi abi_json @ (if bin = [] then [] else separator @ string_of_bytes bin)"

section \<open>Splitting a frame body\<close>

text \<open>
  The scan over a JSON prefix: from byte \<open>i\<close>, the depth of open braces, whether a string is
  open and whether the last byte was a backslash in it. Gives the position after the brace
  that closes the outermost object, or the end, and the depth there.
\<close>

fun scan_prefix :: "nat \<Rightarrow> int \<Rightarrow> bool \<Rightarrow> bool \<Rightarrow> bytes \<Rightarrow> nat \<times> int" where
  "scan_prefix i depth in_str esc [] = (i, depth)"
| "scan_prefix i depth in_str esc (c # cs) =
     (if in_str then
        (if esc then scan_prefix (Suc i) depth True False cs
         else if c = 0x5C then scan_prefix (Suc i) depth True True cs
         else if c = 0x22 then scan_prefix (Suc i) depth False False cs
         else scan_prefix (Suc i) depth True False cs)
      else if c = 0x22 then scan_prefix (Suc i) depth True esc cs
      else if c = 0x7B then scan_prefix (Suc i) (depth + 1) False esc cs
      else if c = 0x7D then
        (if depth - 1 = 0 then (Suc i, 0) else scan_prefix (Suc i) (depth - 1) False esc cs)
      else scan_prefix (Suc i) depth False esc cs)"

definition split_json_prefix :: "bytes \<Rightarrow> (string \<times> bytes) option" where
  "split_json_prefix data =
     (if data = [] \<or> hd data \<noteq> 0x7B then None
      else let (i, depth) = scan_prefix 0 0 False False data
           in if depth \<noteq> 0 then None
              else Some (string_of_bytes (take i data),
                (if i + 1 < length data \<and> data ! i = 0x0A \<and> data ! (i + 1) = 0x0A
                 then drop (i + 2) data
                 else if i + 3 < length data \<and> data ! i = 0x0D \<and> data ! (i + 1) = 0x0A
                         \<and> data ! (i + 2) = 0x0D \<and> data ! (i + 3) = 0x0A
                 then drop (i + 4) data
                 else drop i data)))"

section \<open>Replies\<close>

definition wire_int :: "string \<Rightarrow> string \<Rightarrow> int" where
  "wire_int key wire_json =
     (case parse wire_json of
        None \<Rightarrow> - 1
      | Some jroot \<Rightarrow> wrap_s32 (as_int (- 1) (find_path jroot key)))"

definition parse_wire_result :: "string \<Rightarrow> int" where
  "parse_wire_result = wire_int ''result''"

definition parse_wire_cmdtype :: "string \<Rightarrow> int" where
  "parse_wire_cmdtype = wire_int ''cmdtype''"

definition parse_wire_sequence :: "string \<Rightarrow> int" where
  "parse_wire_sequence = wire_int ''sequence''"

definition parse_wire_reply_json :: "string \<Rightarrow> string" where
  "parse_wire_reply_json wire_json =
     (case parse wire_json of
        None \<Rightarrow> []
      | Some jroot \<Rightarrow>
          (let reply = find_path jroot ''reply''
           in if is_object reply then dump reply else []))"

definition kMaxChunkSizeKb :: int where
  "kMaxChunkSizeKb = 64 * 1024"

text \<open>The result code, and the chunk size and resume offset when the reply is accepted.\<close>

definition parse_upload_init_reply :: "string \<Rightarrow> int \<times> (u32 \<times> u64) option" where
  "parse_upload_init_reply wire_json =
     (let rc = parse_wire_result wire_json
      in (rc,
          if rc \<noteq> 1 \<and> rc \<noteq> 19 then None
          else (case parse wire_json of
             None \<Rightarrow> None
           | Some jroot \<Rightarrow>
               (let reply = find_path jroot ''reply'';
                    raw_kb = as_int 0 (find_path reply ''chunk_size'');
                    raw_offset = as_int 0 (find_path reply ''offset'')
                in if \<not> is_object reply then None
                   else if raw_kb \<le> 0 \<or> kMaxChunkSizeKb < raw_kb then None
                   else if raw_offset < 0 then None
                   else Some (word_of_int raw_kb, word_of_int raw_offset)))))"

text \<open>The list of storages of an ability reply: the first non-empty array of several keys.\<close>

fun pick_array :: "json \<Rightarrow> string list \<Rightarrow> json list" where
  "pick_array reply [] = []"
| "pick_array reply (k # ks) =
     (if as_array (find_path reply k) \<noteq> [] then as_array (find_path reply k) else pick_array reply ks)"

definition ability_storages :: "json \<Rightarrow> json list" where
  "ability_storages reply =
     (let top = pick_array reply [''upload_storage'', ''storage'', ''storage_list'', ''storages''];
          ab = find_path reply ''ability'';
          v = find_path ab ''upload_storage''
      in if top \<noteq> [] then top
         else if is_object ab then as_array (if is_array v then v else find_path ab ''storage'')
         else [])"

definition quote_storage :: "string \<Rightarrow> string" where
  "quote_storage s =
     CHR 0x22 # concat (map (\<lambda>c. if c = CHR 0x22 then [CHR 0x5C, CHR 0x22] else [c]) s) @ [CHR 0x22]"

definition parse_ability_reply_to_ft_json :: "string \<Rightarrow> string" where
  "parse_ability_reply_to_ft_json wire_json =
     (case parse wire_json of
        None \<Rightarrow> []
      | Some jroot \<Rightarrow>
          (let reply = find_path jroot ''reply''; storages = ability_storages reply
           in if wrap_s32 (as_int (- 1) (find_path jroot ''result'')) \<noteq> 0 then []
              else if \<not> is_object reply then []
              else if storages = [] then []
              else CHR 0x5B # join_comma (map (quote_storage \<circ> as_string) storages) @ [CHR 0x5D]))"

definition pick_progress :: "json \<Rightarrow> dbl" where
  "pick_progress obj =
     (if is_object obj \<and> is_number (find_path obj ''progress'')
      then as_number 0 (find_path obj ''progress'') else - 1)"

text \<open>With a result pointer a negative result ends the call; without one it is not looked at.\<close>

definition parse_upload_progress_value :: "bool \<Rightarrow> string \<Rightarrow> dbl" where
  "parse_upload_progress_value want_result wire_json =
     (if want_result \<and> parse_wire_result wire_json < 0 then - 1
      else (case parse wire_json of
         None \<Rightarrow> - 1
       | Some jroot \<Rightarrow>
           (let p = pick_progress (find_path jroot ''reply'')
            in if p < 0 then pick_progress jroot else p)))"

text \<open>
  The sum \<open>v + 0.5\<close> is rounded to a double; the cast to \<open>int\<close> has no defined value
  (\<open>None\<close>) when the device reports a progress that does not fit.
\<close>

definition parse_upload_progress :: "bool \<Rightarrow> string \<Rightarrow> int option" where
  "parse_upload_progress want_result wire_json =
     (let v = parse_upload_progress_value want_result wire_json
      in if v < 0 then Some (- 1)
         else (case b64_round (v + 1 / 2) of
            None \<Rightarrow> None
          | Some d \<Rightarrow> if trunc_int d < 2 ^ 31 then Some (trunc_int d) else None))"

section \<open>Reassembling frames\<close>

text \<open>
  The bytes of a receive buffer, frame by frame: the bodies and how many bytes they took.
  The frame length is \<open>16 + payload_len\<close> in 32-bit unsigned arithmetic, as the code
  computes it; the body is then copied for \<open>payload_len\<close> bytes. \<open>None\<close> when that copy
  reads past the buffer, or when a frame length of 0 keeps the loop where it is.
\<close>

function consume_frames :: "bytes \<Rightarrow> (nat \<times> bytes list) option" where
  "consume_frames data =
     (case parse_frame_header data of
        None \<Rightarrow> Some (0, [])
      | Some hdr \<Rightarrow>
          (let frame_len = unat (16 + payload_len hdr); body_len = unat (payload_len hdr)
           in if length data < frame_len then Some (0, [])
              else if length data < 16 + body_len \<or> frame_len = 0 then None
              else (case consume_frames (drop frame_len data) of
                 None \<Rightarrow> None
               | Some (n, bodies) \<Rightarrow> Some (frame_len + n, take body_len (drop 16 data) # bodies))))"
  by pat_completeness auto
termination
  by (relation "measure length") (auto simp: parse_frame_header_def split: if_splits)

declare consume_frames.simps [simp del]

definition body_messages :: "bytes \<Rightarrow> string list" where
  "body_messages body =
     (if body = [] then []
      else (case split_json_prefix body of
         Some (json, bin) \<Rightarrow> (if json = [] then [] else [json])
       | None \<Rightarrow> [string_of_bytes body]))"

lemma consume_frames_le: "consume_frames data = Some (n, bodies) \<Longrightarrow> n \<le> length data"
proof (induction data arbitrary: n bodies rule: consume_frames.induct)
  case (1 data)
  show ?case
  proof (cases "parse_frame_header data")
    case None
    with 1 show ?thesis by (simp add: consume_frames.simps [of data])
  next
    case (Some hdr)
    let ?f = "unat (16 + payload_len hdr)"
    show ?thesis
    proof (cases "length data < ?f \<or> length data < 16 + unat (payload_len hdr) \<or> ?f = 0")
      case True
      with 1 Some show ?thesis
        by (auto simp: consume_frames.simps [of data] Let_def split: if_splits)
    next
      case False
      with "1.prems" Some obtain m bs where m: "consume_frames (drop ?f data) = Some (m, bs)"
        and n: "n = ?f + m"
        by (auto simp: consume_frames.simps [of data] Let_def split: option.splits)
      have "m \<le> length (drop ?f data)" using "1.IH" [OF Some refl refl] False m by simp
      with n False show ?thesis unfolding length_drop by linarith
    qed
  qed
qed

function take_pending_wire_json :: "bytes \<Rightarrow> (string list \<times> bytes) option" where
  "take_pending_wire_json buf =
     (case consume_frames buf of
        None \<Rightarrow> None
      | Some (consumed, bodies) \<Rightarrow>
          if consumed = 0 then Some ([], buf)
          else (case take_pending_wire_json (drop consumed buf) of
             None \<Rightarrow> None
           | Some (msgs, rest) \<Rightarrow> Some (concat (map body_messages bodies) @ msgs, rest)))"
  by pat_completeness auto
termination
  by (relation "measure length") (auto dest: consume_frames_le)

declare take_pending_wire_json.simps [simp del]

section \<open>Frames on the wire\<close>

definition frame :: "u32 \<times> u32 \<times> bytes \<Rightarrow> bytes" where
  "frame f = (case f of (mag, sq, body) \<Rightarrow> build_frame_header (of_nat (length body)) mag sq @ body)"

definition frame_body :: "u32 \<times> u32 \<times> bytes \<Rightarrow> bytes" where
  "frame_body f = snd (snd f)"

definition sized :: "u32 \<times> u32 \<times> bytes \<Rightarrow> bool" where
  "sized f = (length (frame_body f) < 2 ^ 32 - 16)"

text \<open>The start of a frame that has not arrived in full, with a length that does not wrap.\<close>

definition partial_frame :: "bytes \<Rightarrow> bool" where
  "partial_frame t =
     (case parse_frame_header t of
        None \<Rightarrow> True
      | Some hdr \<Rightarrow> unat (payload_len hdr) < 2 ^ 32 - 16 \<and> length t < 16 + unat (payload_len hdr))"

lemma length_frame_header [simp]: "length (build_frame_header n m q) = 16"
  by (simp add: build_frame_header_def)

lemma length_frame: "length (frame f) = 16 + length (frame_body f)"
  by (simp add: frame_def frame_body_def split: prod.split)

lemma parse_built_header:
  "parse_frame_header (build_frame_header n m q @ s) = Some \<lparr>payload_len = n, magic = m, seq = q\<rparr>"
proof -
  have "get_le32 (drop 4 (le32 n @ le32 m @ le32 q @ [0, 0, 0, 0] @ s)) = m"
    using le32.dec_after [of "le32 n" 4 m] by simp
  moreover have "get_le32 (drop 8 ((le32 n @ le32 m) @ le32 q @ [0, 0, 0, 0] @ s)) = q"
    using le32.dec_after [of "le32 n @ le32 m" 8 q] by simp
  ultimately show ?thesis
    by (simp add: parse_frame_header_def build_frame_header_def)
qed

lemma frame_len_word:
  assumes "n < 2 ^ 32 - 16"
  shows "unat (16 + of_nat n :: u32) = 16 + n"
  using assms by (simp add: unat_word_ariths unat_of_nat take_bit_eq_mod)

lemma consume_frame:
  assumes "sized f"
  shows "consume_frames (frame f @ s) =
    map_option (\<lambda>(n, bs). (length (frame f) + n, frame_body f # bs)) (consume_frames s)"
proof -
  obtain m q b where f: "f = (m, q, b)" by (cases f) auto
  have b: "length b < 2 ^ 32 - 16" using assms by (simp add: f sized_def frame_body_def)
  then have u: "unat (of_nat (length b) :: u32) = length b"
    by (simp add: unat_of_nat take_bit_eq_mod)
  show ?thesis
    using frame_len_word [OF b] u
    by (simp add: consume_frames.simps [of "build_frame_header (of_nat (length b)) m q @ b @ s"] f
        frame_def frame_body_def parse_built_header Let_def split: option.split)
qed

lemma consume_partial:
  assumes "partial_frame t"
  shows "consume_frames t = Some (0, [])"
proof (cases "parse_frame_header t")
  case (Some hdr)
  then have "unat (payload_len hdr) < 2 ^ 32 - 16" "length t < 16 + unat (payload_len hdr)"
    using assms by (simp_all add: partial_frame_def)
  moreover from this(1) have "unat (16 + payload_len hdr) = 16 + unat (payload_len hdr)"
    using frame_len_word [of "unat (payload_len hdr)"] by simp
  ultimately show ?thesis using Some by (simp add: consume_frames.simps [of t])
qed (simp add: consume_frames.simps [of t])

lemma consume_all_frames:
  assumes "\<forall>f \<in> set fs. sized f" "partial_frame t"
  shows "consume_frames (concat (map frame fs) @ t) =
    Some (length (concat (map frame fs)), map frame_body fs)"
  using assms(1)
  by (induction fs) (simp_all add: consume_partial [OF assms(2)] consume_frame)

text \<open>The bytes taken are those of the bodies and a header each.\<close>

lemma consume_frames_append:
  "consume_frames a = Some (n, bs) \<Longrightarrow>
   consume_frames (a @ b) = map_option (\<lambda>(m, cs). (n + m, bs @ cs)) (consume_frames (drop n a @ b))"
proof (induction a arbitrary: n bs rule: consume_frames.induct)
  case (1 a)
  show ?case
  proof (cases "n = 0")
    case True
    have "bs = []" using "1.prems" True
      by (auto simp: consume_frames.simps [of a] Let_def split: option.splits if_splits)
    with True show ?thesis by (cases "consume_frames (a @ b)") auto
  next
    case False
    then obtain hdr m cs where h: "parse_frame_header a = Some hdr"
      and le: "unat (16 + payload_len hdr) \<le> length a" "16 + unat (payload_len hdr) \<le> length a"
      and pos: "unat (16 + payload_len hdr) \<noteq> 0"
      and rec: "consume_frames (drop (unat (16 + payload_len hdr)) a) = Some (m, cs)"
      and n: "n = unat (16 + payload_len hdr) + m"
      and bs: "bs = take (unat (payload_len hdr)) (drop 16 a) # cs"
      using "1.prems"
      by (auto simp: consume_frames.simps [of a] Let_def not_less split: option.splits if_splits)
    have h': "parse_frame_header (a @ b) = Some hdr"
      using h by (auto simp: parse_frame_header_def get_le32_def nth_append split: if_splits)
    have IH: "consume_frames (drop (unat (16 + payload_len hdr)) a @ b) =
        map_option (\<lambda>(m', cs'). (m + m', cs @ cs')) (consume_frames (drop n a @ b))"
      using "1.IH" [OF h refl refl _ _ rec] le pos n by (simp add: not_less add.commute)
    show ?thesis
      using le pos IH n bs
      by (simp add: consume_frames.simps [of "a @ b"] h' Let_def not_less split: option.split)
  qed
qed

lemma consume_frames_rest:
  "consume_frames a = Some (n, bs) \<Longrightarrow> consume_frames (drop n a) = Some (0, [])"
proof -
  assume *: "consume_frames a = Some (n, bs)"
  from consume_frames_append [OF *, of "[]"] * show ?thesis
    by (cases "consume_frames (drop n a)") auto
qed


text \<open>A stream none of whose length fields is so large that \<open>16 + payload_len\<close> wraps.\<close>

function well_framed :: "bytes \<Rightarrow> bool" where
  "well_framed s =
     (case parse_frame_header s of
        None \<Rightarrow> True
      | Some hdr \<Rightarrow>
          unat (payload_len hdr) < 2 ^ 32 - 16 \<and>
          (length s < 16 + unat (payload_len hdr) \<or> well_framed (drop (16 + unat (payload_len hdr)) s)))"
  by pat_completeness auto
termination
  by (relation "measure length") (auto simp: parse_frame_header_def split: if_splits)

declare well_framed.simps [simp del]

lemma parse_frame_header_append:
  "parse_frame_header a = Some hdr \<Longrightarrow> parse_frame_header (a @ b) = Some hdr"
  by (auto simp: parse_frame_header_def get_le32_def nth_append split: if_splits)

lemma consume_safe:
  assumes "parse_frame_header a = Some hdr" "unat (payload_len hdr) < 2 ^ 32 - 16"
  shows "consume_frames a =
    (if length a < 16 + unat (payload_len hdr) then Some (0, [])
     else map_option (\<lambda>(n, bs). (16 + unat (payload_len hdr) + n, take (unat (payload_len hdr)) (drop 16 a) # bs))
            (consume_frames (drop (16 + unat (payload_len hdr)) a)))"
  using assms frame_len_word [OF assms(2)]
  by (simp add: consume_frames.simps [of a] Let_def split: option.split)

lemma well_framed_defined: "well_framed a \<Longrightarrow> \<exists>n bs. consume_frames a = Some (n, bs)"
proof (induction a rule: well_framed.induct)
  case (1 a)
  show ?case
  proof (cases "parse_frame_header a")
    case (Some hdr)
    with 1 show ?thesis
      by (auto simp: well_framed.simps [of a] consume_safe [OF Some] not_less)
  qed (simp add: consume_frames.simps [of a])
qed

lemma well_framed_prefix: "well_framed (a @ b) \<Longrightarrow> well_framed a"
proof (induction a rule: well_framed.induct)
  case (1 a)
  show ?case
  proof (cases "parse_frame_header a")
    case (Some hdr)
    with 1 show ?thesis
      using parse_frame_header_append [OF Some, of b]
      by (cases "length a < 16 + unat (payload_len hdr)")
        (auto simp: well_framed.simps [of a] well_framed.simps [of "a @ b"])
  qed (simp add: well_framed.simps [of a])
qed

lemma well_framed_rest:
  "well_framed (a @ b) \<Longrightarrow> consume_frames a = Some (n, bs) \<Longrightarrow> well_framed (drop n a @ b)"
proof (induction a arbitrary: n bs rule: well_framed.induct)
  case (1 a)
  show ?case
  proof (cases "parse_frame_header a")
    case None
    with 1 show ?thesis by (simp add: consume_frames.simps [of a])
  next
    case (Some hdr)
    note ab = parse_frame_header_append [OF Some, of b]
    have w: "unat (payload_len hdr) < 2 ^ 32 - 16"
      using "1.prems"(1) ab by (simp add: well_framed.simps [of "a @ b"])
    show ?thesis
    proof (cases "length a < 16 + unat (payload_len hdr)")
      case True
      with 1 Some w show ?thesis by (simp add: consume_safe [OF Some])
    next
      case False
      then have "well_framed (drop (16 + unat (payload_len hdr)) a @ b)"
        using "1.prems"(1) ab by (simp add: well_framed.simps [of "a @ b"])
      with False "1.prems"(2) w show ?thesis
        using "1.IH" [OF Some] by (auto simp: consume_safe [OF Some] add.commute)
    qed
  qed
qed

interpretation frames: stream_decoder consume_frames well_framed
  using well_framed_defined consume_frames_le consume_frames_append well_framed_prefix well_framed_rest
  by unfold_locales blast+

lemma well_framed_frames:
  assumes "\<forall>f \<in> set fs. sized f" "partial_frame t"
  shows "well_framed (concat (map frame fs) @ t)"
  using assms(1)
proof (induction fs)
  case Nil
  then show ?case using assms(2)
    by (auto simp: well_framed.simps [of t] partial_frame_def split: option.splits)
next
  case (Cons f fs)
  obtain m q b where f: "f = (m, q, b)" by (cases f) auto
  have b: "length b < 2 ^ 32 - 16" using Cons.prems by (simp add: f sized_def frame_body_def)
  then have u: "unat (of_nat (length b) :: u32) = length b"
    by (simp add: unat_of_nat take_bit_eq_mod)
  show ?case using Cons b u
    by (simp add: well_framed.simps [of "build_frame_header (of_nat (length b)) m q @ b @ s" for s] f
        frame_def parse_built_header)
qed

section \<open>Finding the end of the JSON part\<close>

text \<open>A text the scan passes over, at a given depth, without a change of its state.\<close>

definition neutral :: "int \<Rightarrow> string \<Rightarrow> bool" where
  "neutral d s \<longleftrightarrow> (\<forall>i r. scan_prefix i d False False (bytes_of_string s @ r)
     = scan_prefix (i + length s) d False False r)"

lemma byte_marks:
  "byte_of_char c = 0x22 \<longleftrightarrow> c = CHR 0x22" "byte_of_char c = 0x5C \<longleftrightarrow> c = CHR 0x5C"
  "byte_of_char c = 0x7B \<longleftrightarrow> c = CHR 0x7B" "byte_of_char c = 0x7D \<longleftrightarrow> c = CHR 0x7D"
proof -
  have "byte_of_char (CHR 0x22) = 0x22" "byte_of_char (CHR 0x5C) = 0x5C"
    "byte_of_char (CHR 0x7B) = 0x7B" "byte_of_char (CHR 0x7D) = 0x7D" by code_simp+
  then show "byte_of_char c = 0x22 \<longleftrightarrow> c = CHR 0x22" "byte_of_char c = 0x5C \<longleftrightarrow> c = CHR 0x5C"
    "byte_of_char c = 0x7B \<longleftrightarrow> c = CHR 0x7B" "byte_of_char c = 0x7D \<longleftrightarrow> c = CHR 0x7D"
    by (metis byte_of_char_inject)+
qed

lemma hex_lower_digit_plain:
  assumes "n < 16"
  shows "hex_lower_digit n \<noteq> CHR 0x22" "hex_lower_digit n \<noteq> CHR 0x5C"
proof -
  have "code (hex_lower_digit n) \<in> {48..57} \<union> {97..102}" using assms by (auto simp: hex_lower_digit_def)
  moreover have "code (CHR 0x22) = 34" "code (CHR 0x5C) = 92" by (simp_all add: code_def)
  ultimately show "hex_lower_digit n \<noteq> CHR 0x22" "hex_lower_digit n \<noteq> CHR 0x5C" by auto
qed

lemma scan_escape_char:
  "scan_prefix i d True False (bytes_of_string (escape_char c) @ r)
   = scan_prefix (i + length (escape_char c)) d True False r"
  using hex_lower_digit_plain [of "code c div 16"] hex_lower_digit_plain [of "code c mod 16"]
  by (auto simp: escape_char_def byte_marks less_mult_imp_div_less)

lemma scan_escaped:
  "scan_prefix i d True False (bytes_of_string (concat (map escape_char s)) @ r)
   = scan_prefix (i + length (concat (map escape_char s))) d True False r"
  by (induction s arbitrary: i) (simp_all add: scan_escape_char add.assoc)

lemma neutral_escape: "neutral d (escape s)"
  by (simp add: neutral_def escape_def scan_escaped byte_marks)

lemma neutral_append: "neutral d s \<Longrightarrow> neutral d t \<Longrightarrow> neutral d (s @ t)"
  by (simp add: neutral_def add.assoc)

lemma neutral_Nil: "neutral d []"
  by (simp add: neutral_def)

lemma neutral_Cons:
  "c \<noteq> CHR 0x22 \<Longrightarrow> c \<noteq> CHR 0x7B \<Longrightarrow> c \<noteq> CHR 0x7D \<Longrightarrow> neutral d s \<Longrightarrow> neutral d (c # s)"
  by (simp add: neutral_def byte_marks)

lemma neutral_plain:
  "\<forall>c \<in> set s. c \<noteq> CHR 0x22 \<and> c \<noteq> CHR 0x7B \<and> c \<noteq> CHR 0x7D \<Longrightarrow> neutral d s"
  by (induction s) (simp_all add: neutral_Nil neutral_Cons)

lemma neutral_dec_int: "neutral d (dec_int i)"
proof (rule neutral_plain)
  have "\<not> is_digit (CHR 0x22)" "\<not> is_digit (CHR 0x7B)" "\<not> is_digit (CHR 0x7D)"
    by (simp_all add: is_digit_def code_def)
  then show "\<forall>c \<in> set (dec_int i). c \<noteq> CHR 0x22 \<and> c \<noteq> CHR 0x7B \<and> c \<noteq> CHR 0x7D"
    by (auto simp: dec_int_def dest: dec_digits_all_digits)
qed

lemma neutral_join: "\<forall>s \<in> set ss. neutral d s \<Longrightarrow> neutral d (join_comma ss)"
  by (induction ss rule: join_comma.induct) (simp_all add: neutral_Nil neutral_append neutral_Cons)

lemma neutral_braces: "1 \<le> d \<Longrightarrow> neutral (d + 1) s \<Longrightarrow> neutral d (CHR 0x7B # s @ [CHR 0x7D])"
  by (simp add: neutral_def byte_marks)

lemma neutral_dump: "int_exact v \<Longrightarrow> 1 \<le> d \<Longrightarrow> neutral d (dump v)"
proof (induction v arbitrary: d)
  case (JNumber x)
  then show ?case by (simp add: dump_number_exact neutral_dec_int del: int_exact.simps)
next
  case (JString s)
  then show ?case by (simp add: neutral_escape)
next
  case (JArray vs)
  then have "neutral d (join_comma (map dump vs))" by (intro neutral_join) auto
  then show ?case by (simp add: neutral_Cons neutral_append neutral_Nil)
next
  case (JObject ms)
  have "neutral (d + 1) (escape (fst p) @ CHR '':'' # dump (snd p))" if "p \<in> set ms" for p
    using JObject.IH [of p "snd p" "d + 1"] JObject.prems that
    by (cases p) (auto intro!: neutral_append neutral_escape neutral_Cons)
  then have "neutral (d + 1) (join_comma (map (\<lambda>(k, v). escape k @ CHR '':'' # dump v) ms))"
    by (intro neutral_join) auto
  then show ?case using JObject.prems by (simp add: neutral_braces)
qed (auto intro!: neutral_plain)

lemma scan_members:
  assumes "\<forall>p \<in> set ms. int_exact (snd p)"
  shows "scan_prefix 0 0 False False (bytes_of_string (CHR 0x7B # dump_members ms @ [CHR 0x7D]) @ r)
     = (length (dump_members ms) + 2, 0)"
proof -
  have "neutral 1 (escape (fst p) @ CHR '':'' # dump (snd p))" if "p \<in> set ms" for p
    using assms that neutral_dump [of "snd p" 1]
    by (cases p) (auto intro!: neutral_append neutral_escape neutral_Cons)
  then have "neutral 1 (dump_members ms)"
    unfolding dump_members_def by (intro neutral_join) auto
  then show ?thesis by (simp add: neutral_def byte_marks)
qed

text \<open>A body: an object, in whatever order its members come, and optional binary data.\<close>

lemma split_members:
  assumes "\<forall>p \<in> set ms. int_exact (snd p)"
  shows "split_json_prefix (bytes_of_string (dump (JObject ms)
      @ (if bin = [] then [] else separator @ string_of_bytes bin))) = Some (dump (JObject ms), bin)"
proof -
  let ?o = "dump (JObject ms)"
  let ?x = "bytes_of_string ?o"
  let ?t = "bytes_of_string (if bin = [] then [] else separator @ string_of_bytes bin)"
  have len: "length ?x = length (dump_members ms) + 2" unfolding dump_object by simp
  have t: "?t = (if bin = [] then [] else 0x0A # 0x0A # bin)"
    by (simp add: separator_def byte_of_char_def)
  have hd: "hd (?x @ ?t) = 0x7B" "?x @ ?t \<noteq> []" unfolding dump_object by (simp_all add: byte_marks)
  have sc: "scan_prefix 0 0 False False (?x @ ?t) = (length ?x, 0)"
    using scan_members [OF assms, of ?t] len unfolding dump_object by simp
  have tk: "string_of_bytes (take (length ?x) (?x @ ?t)) = ?o" by (simp del: dump.simps)
  have "(if length ?x + 1 < length (?x @ ?t) \<and> (?x @ ?t) ! length ?x = 0x0A \<and> (?x @ ?t) ! (length ?x + 1) = 0x0A
       then drop (length ?x + 2) (?x @ ?t)
       else if length ?x + 3 < length (?x @ ?t) \<and> (?x @ ?t) ! length ?x = 0x0D \<and> (?x @ ?t) ! (length ?x + 1) = 0x0A
             \<and> (?x @ ?t) ! (length ?x + 2) = 0x0D \<and> (?x @ ?t) ! (length ?x + 3) = 0x0A
       then drop (length ?x + 4) (?x @ ?t) else drop (length ?x) (?x @ ?t)) = bin"
    unfolding t by (simp add: nth_append)
  then show ?thesis
    unfolding split_json_prefix_def bytes_of_string_append using hd sc tk
    by (simp del: dump.simps bytes_of_string_append length_append length_bytes_of_string)
qed

section \<open>The wrapped request\<close>

lemma mtype_member: "mtype_prefix @ '':'' @ dec_int kMtypeCtrlJson = CHR 0x7B # escape ''mtype'' @ CHR '':'' # dump (jint 12289)"
  by code_simp

lemma rtrim_object: "rtrim is_eol_ws (dump (JObject ms)) = dump (JObject ms)"
  unfolding dump_object by (rule rtrim_id) (simp add: is_eol_ws_def)

lemma dump_members_Cons:
  "ms \<noteq> [] \<Longrightarrow> dump_members ((k, v) # ms) = escape k @ CHR '':'' # dump v @ CHR '','' # dump_members ms"
  by (cases ms) (simp_all add: dump_members_def)

lemma escape_head_eq:
  "starts_with mtype_prefix (CHR 0x7B # escape k @ CHR '':'' # r) \<Longrightarrow> k = ''mtype''"
proof -
  assume "starts_with mtype_prefix (CHR 0x7B # escape k @ CHR '':'' # r)"
  then obtain t where "escape k @ CHR '':'' # r = escape ''mtype'' @ t"
    by (auto simp: starts_with_conv mtype_prefix_def escape_def escape_char_def code_def)
  then have "parse_string (escape k @ CHR '':'' # r) = parse_string (escape ''mtype'' @ t)" by simp
  then show ?thesis by (simp add: parse_string_escape)
qed

lemma wrap_object:
  assumes "ms \<noteq> []" "fst (hd ms) \<noteq> ''mtype''"
  shows "wrap_ctrl_abi (dump (JObject ms)) = dump (JObject ((''mtype'', jint 12289) # ms))"
proof -
  obtain k v ms' where ms: "ms = (k, v) # ms'" using assms(1) by (cases ms) auto
  have "\<exists>r. dump_members ms = escape k @ CHR '':'' # r" using ms by (cases ms') (auto simp: dump_members_def)
  then obtain r where "dump (JObject ms) = CHR 0x7B # escape k @ CHR '':'' # r"
    unfolding dump_object by auto
  then have ns: "\<not> starts_with mtype_prefix (dump (JObject ms))"
    using escape_head_eq [of k r] assms(2) ms by auto
  show ?thesis
    using ns rtrim_object [of ms] mtype_member assms(1)
    by (auto simp: wrap_ctrl_abi_def dump_object dump_members_Cons simp del: dump.simps(6))
qed

lemma parse_members_list:
  assumes "\<forall>p \<in> set ms. well_keyed (snd p) \<and> fits (kMaxNestingDepth - 1) (snd p) \<and> int_exact (snd p)"
  shows "parse (dump (JObject ms)) = Some (JObject (emplace_all [] ms))"
proof -
  have "map (\<lambda>(k, v). (k, read_back v)) ms = ms" using assms read_back_well_keyed by (auto intro!: map_idI)
  moreover have "fits kMaxNestingDepth (JObject ms)" using assms by (simp add: kMaxNestingDepth_def)
  ultimately show ?thesis using parse_dump_any [of "JObject ms"] assms by (simp del: dump.simps)
qed

lemma map_of_map_emplace:
  "sorted_wrt (<) (map fst m) \<Longrightarrow> map_of (map_emplace k v m) x =
    (case map_of m x of Some w \<Rightarrow> Some w | None \<Rightarrow> if x = k then Some v else None)"
proof (induction k v m rule: map_emplace.induct)
  case (2 k v k' v' m)
  have "map_of m k = None" if "k < k'"
    using "2.prems" that by (auto simp: map_of_eq_None_iff dest: less_trans)
  then show ?case using 2 by (auto split: option.split)
qed simp

lemma emplace_all_map_of:
  "sorted_wrt (<) (map fst m0) \<Longrightarrow> map_of (emplace_all m0 ms) k =
    (case map_of m0 k of Some v \<Rightarrow> Some v | None \<Rightarrow> map_of ms k)"
proof (induction ms arbitrary: m0)
  case (Cons p ms)
  then show ?case
    by (cases p) (simp add: map_emplace_sorted map_of_map_emplace split: option.split)
qed (simp split: option.split)

lemma trunc_int_numeral [simp]: "trunc_int (numeral k) = numeral k"
  by (simp add: trunc_int_def)

lemma wrapped_request:
  assumes "dumpable (JObject ms)" "ms \<noteq> []" "fst (hd ms) \<noteq> ''mtype''"
  defines "wire \<equiv> wrap_ctrl_abi (dump (JObject ms))"
  shows "split_json_prefix (bytes_of_string (wrap_ctrl_abi_with_binary (dump (JObject ms)) bin)) = Some (wire, bin)"
    and "\<exists>m. parse wire = Some (JObject m) \<and> map_of m = (map_of ms)(''mtype'' \<mapsto> jint 12289)"
proof -
  have w: "wire = dump (JObject ((''mtype'', jint 12289) # ms))"
    unfolding wire_def by (rule wrap_object [OF assms(2,3)])
  have ok: "\<forall>p \<in> set ((''mtype'', jint 12289) # ms).
      well_keyed (snd p) \<and> fits (kMaxNestingDepth - 1) (snd p) \<and> int_exact (snd p)"
    using assms(1) by (auto simp: dumpable_def jint_def)
  then show "split_json_prefix (bytes_of_string (wrap_ctrl_abi_with_binary (dump (JObject ms)) bin)) = Some (wire, bin)"
    using split_members [of "(''mtype'', jint 12289) # ms" bin] w
    unfolding wrap_ctrl_abi_with_binary_def wire_def by (simp del: dump.simps)
  have "map_of (emplace_all [] ((''mtype'', jint 12289) # ms)) = (map_of ms)(''mtype'' \<mapsto> jint 12289)"
    by (rule ext) (simp add: emplace_all_map_of del: emplace_all_simps)
  then show "\<exists>m. parse wire = Some (JObject m) \<and> map_of m = (map_of ms)(''mtype'' \<mapsto> jint 12289)"
    using parse_members_list [OF ok] w by auto
qed

section \<open>Requests read back\<close>

lemma to_dbl_exact: "n \<le> 2 ^ 53 \<Longrightarrow> to_dbl n = of_nat n"
  using b64_round_int [of "int n"] by (simp add: to_dbl_def)

lemma u32_exact: "unat (w :: u32) \<le> 2 ^ 53"
  using unsigned_less [of w, where 'a = nat] by simp

lemma exact_jnat: "n \<le> 2 ^ 53 \<Longrightarrow> int_exact (jnat n)"
  using trunc_int_of_int [of "int n"] of_nat_le_iff [of n "2 ^ 53", where 'a = rat]
  by (simp add: jnat_def to_dbl_exact)

lemma exact_jint: "\<bar>i\<bar> \<le> 2 ^ 53 \<Longrightarrow> int_exact (jint i)"
  using of_int_le_iff [of "\<bar>i\<bar>" "2 ^ 53", where 'a = rat] by (simp add: jint_def)

lemma as_int_jnat: "n \<le> 2 ^ 53 \<Longrightarrow> as_int d (jnat n) = int n"
proof -
  assume n: "n \<le> 2 ^ 53"
  then have "(of_nat n :: rat) \<le> 2 ^ 53" using of_nat_le_iff [of n "2 ^ 53", where 'a = rat] by simp
  then show ?thesis using n trunc_int_of_int [of "int n"] by (simp add: jnat_def to_dbl_exact)
qed

lemma as_int_jint:
  assumes "\<bar>i\<bar> \<le> 2 ^ 53"
  shows "as_int d (jint i) = i"
proof -
  have "(of_int i :: rat) \<le> 2 ^ 53" "- (2 ^ 53) \<le> (of_int i :: rat)"
    using assms of_int_le_iff [of i "2 ^ 53", where 'a = rat] of_int_le_iff [of "- (2 ^ 53)" i, where 'a = rat]
    by auto
  then show ?thesis by (simp add: jint_def)
qed

text \<open>Objects filled by assignment from values that are printed exactly.\<close>

definition plain :: "nat \<Rightarrow> json \<Rightarrow> bool" where
  "plain n v = (well_keyed v \<and> fits n v \<and> int_exact v)"

lemma plain_simps [simp]:
  "plain n (JString s)"
  "i \<le> 2 ^ 53 \<Longrightarrow> plain n (jnat i)"
  "\<bar>j\<bar> \<le> 2 ^ 53 \<Longrightarrow> plain n (jint j)"
  "plain n (JArray vs) \<longleftrightarrow> 0 < n \<and> (\<forall>v \<in> set vs. plain (n - 1) v)"
  using exact_jnat [of i] exact_jint [of j] by (auto simp: plain_def) (auto simp: jnat_def jint_def)

lemma plain_obj_of:
  assumes "\<forall>v \<in> snd ` set kvs. plain n v"
  shows "plain (Suc n) (JObject (obj_of kvs))"
proof -
  have "plain n (snd p)" if "p \<in> set (obj_of kvs)" for p
    using obj_of_values [of kvs] assms that by blast
  then show ?thesis using obj_of_sorted [of kvs] by (auto simp: plain_def)
qed

lemma find_path_obj_of:
  assumes "k \<noteq> []" "\<forall>c \<in> set k. \<not> path_sep c"
  shows "find_path (JObject (obj_of kvs)) k = (case map_of (rev kvs) k of None \<Rightarrow> JNull | Some w \<Rightarrow> w)"
  by (simp add: find_path_key [OF assms] map_of_obj_of)

lemma find_in_req: "find_path v (CHR ''r'' # CHR ''e'' # CHR ''q'' # CHR ''.'' # p) = find_path (find_path v ''req'') p"
  using find_path_dot [of "''req''" v p] by (simp add: path_sep_def)

text \<open>A text parses to an object that has the given values at the given paths.\<close>

definition carries :: "string \<Rightarrow> (string \<times> json) list \<Rightarrow> bool" where
  "carries js fs = (case parse js of None \<Rightarrow> False | Some r \<Rightarrow> list_all (\<lambda>(k, v). find_path r k = v) fs)"

lemma carries_obj_of:
  assumes "plain kMaxNestingDepth (JObject m)"
    and "list_all (\<lambda>(k, v). find_path (JObject m) k = v) fs"
  shows "carries (dump (JObject m)) fs"
  using assms json.read_print [of "JObject m"] by (simp add: carries_def plain_def dumpable_def)

lemma depth_Suc: "kMaxNestingDepth = Suc (Suc 126)"
  by (simp add: kMaxNestingDepth_def)

lemma plain_request:
  assumes "\<forall>v \<in> snd ` set kvs. plain 126 v" "\<bar>cmd\<bar> \<le> 2 ^ 53"
  shows "plain kMaxNestingDepth (request cmd sq kvs)"
  unfolding request_def depth_Suc using assms u32_exact [of sq] plain_obj_of [of kvs 126]
  by (intro plain_obj_of) auto

lemma carries_request:
  assumes "\<forall>v \<in> snd ` set kvs. plain 126 v" "\<bar>cmd\<bar> \<le> 2 ^ 53"
    and "list_all (\<lambda>(k, v). find_path (request cmd sq kvs) k = v) fs"
  shows "carries (dump (request cmd sq kvs)) fs"
  using plain_request [OF assms(1,2)] assms(3) unfolding request_def by (rule carries_obj_of)

text \<open>
  A request on the wire: whatever binary data follows, the frame body splits into a JSON part and
  exactly that data, and the JSON part has the control message type and the given fields.
\<close>

definition reads_as :: "string \<Rightarrow> (string \<times> json) list \<Rightarrow> bool" where
  "reads_as js fs \<longleftrightarrow>
     (\<forall>bin. \<exists>wire. split_json_prefix (bytes_of_string (wrap_ctrl_abi_with_binary js bin)) = Some (wire, bin) \<and>
        carries wire ((''mtype'', jint 12289) # fs))"

lemma find_path_beside:
  assumes "map_of m = (map_of ms)(''mtype'' \<mapsto> x)" "take 5 k \<noteq> ''mtype''" "k \<noteq> []" "hd k \<noteq> CHR 0x5B"
  shows "find_path (JObject m) k = find_path (JObject ms) k"
proof -
  have "take n k \<noteq> ''mtype''" for n
  proof
    assume e: "take n k = ''mtype''"
    then have "length (take n k) = 5" by simp
    then have "take 5 (take n k) = take 5 k" by (simp add: min_def split: if_splits)
    then show False using e assms(2) by simp
  qed
  moreover from this [of "length k"] have "k \<noteq> ''mtype''" by simp
  ultimately show ?thesis
    using assms(1,3,4)
    by (simp add: find_path.simps [of "JObject m" k] find_path.simps [of "JObject ms" k] Let_def split: option.split)
qed

lemma reads_as_object:
  assumes p: "plain kMaxNestingDepth (JObject ms)" and ne: "ms \<noteq> []" "fst (hd ms) \<noteq> ''mtype''"
    and fs: "list_all (\<lambda>(k, v). k \<noteq> [] \<and> hd k \<noteq> CHR 0x5B \<and> take 5 k \<noteq> ''mtype'' \<and> find_path (JObject ms) k = v) fs"
  shows "reads_as (dump (JObject ms)) fs"
proof -
  have ok: "dumpable (JObject ms)" using p by (simp add: plain_def dumpable_def)
  obtain m where m: "parse (wrap_ctrl_abi (dump (JObject ms))) = Some (JObject m)"
    "map_of m = (map_of ms)(''mtype'' \<mapsto> jint 12289)"
    using wrapped_request(2) [OF ok ne] by blast
  have "find_path (JObject m) ''mtype'' = jint 12289" using m(2) by (simp add: find_path_key path_sep_def)
  moreover have "list_all (\<lambda>(k, v). find_path (JObject m) k = v) fs"
    using fs find_path_beside [OF m(2)] by (auto simp: list_all_iff)
  ultimately show ?thesis
    using wrapped_request(1) [OF ok ne] m(1) unfolding reads_as_def carries_def by (simp del: dump.simps)
qed

lemma reads_as_request:
  assumes "\<forall>v \<in> snd ` set kvs. plain 126 v" "\<bar>cmd\<bar> \<le> 2 ^ 53"
    and "list_all (\<lambda>(k, v). k \<noteq> [] \<and> hd k \<noteq> CHR 0x5B \<and> take 5 k \<noteq> ''mtype'' \<and> find_path (request cmd sq kvs) k = v) fs"
  shows "reads_as (dump (request cmd sq kvs)) fs"
  using plain_request [OF assms(1,2)] assms(3) unfolding request_def
  by (intro reads_as_object) (simp_all add: obj_of_def)

lemmas lookup_simps = request_def find_in_req find_path_obj_of path_sep_def opt_str_def

lemmas command_defs = kCmdMediaAbility_def kCmdFileUpload_def kCmdFileDownload_def kCmdFileDel_def
  kCmdSubFile_def kCmdListInfo_def

text \<open>The two messages that are not of the common shape.\<close>

lemma plain_chunk:
  fixes sq frag sz :: u32 and off :: u64
  assumes "unat off \<le> 2 ^ 53"
  shows "plain kMaxNestingDepth (JObject (obj_of [(''cmdtype'', jint kCmdFileUpload), (''sequence'', jnat (unat sq)), (''frag_id'', jnat (unat frag)),
        (''req'', JObject (obj_of ([(''offset'', jnat (unat off)), (''size'', jnat (unat sz))] @ opt_str ''file_md5'' md5)))]))"
proof -
  have "plain (Suc 126) (JObject (obj_of ([(''offset'', jnat (unat off)), (''size'', jnat (unat sz))] @ opt_str ''file_md5'' md5)))"
    using assms u32_exact [of sz] by (intro plain_obj_of) (auto simp: opt_str_def)
  then show ?thesis
    unfolding depth_Suc using u32_exact [of sq] u32_exact [of frag] by (intro plain_obj_of) (auto simp: command_defs)
qed

lemma plain_setup:
  "plain kMaxNestingDepth (JObject (obj_of [(''sequence'', jint 0), (''mtype'', jint kMtypeCtrlSetup), (''req'', JObject (obj_of
        [(''t_av'', jint 1), (''mtype'', jint kMtypeCtrlJson), (''peer_t'', jint 3),
         (''pid'', JString client_id), (''ver'', JString client_ver)]))]))"
proof -
  have "plain (Suc 126) (JObject (obj_of
        [(''t_av'', jint 1), (''mtype'', jint kMtypeCtrlJson), (''peer_t'', jint 3),
         (''pid'', JString client_id), (''ver'', JString client_ver)]))"
    by (intro plain_obj_of) (auto simp: kMtypeCtrlJson_def)
  then show ?thesis unfolding depth_Suc by (intro plain_obj_of) (auto simp: kMtypeCtrlSetup_def)
qed

section \<open>Properties\<close>

text \<open>
  C3. However TCP cuts a sequence of frames into reads, reassembly delivers exactly the
  bodies that were sent, in order, and keeps exactly the bytes of the unfinished frame.
\<close>

theorem frames_reassemble:
  assumes "\<forall>f \<in> set fs. sized f" "partial_frame t" "concat chunks = concat (map frame fs) @ t"
  shows "feed consume_frames [] chunks = Some (map frame_body fs, t)"
proof -
  have "consume_frames [] = Some (0, [])" by (simp add: consume_frames.simps parse_frame_header_def)
  then show ?thesis
    using frames.feed_whole [of "[]" chunks] well_framed_frames [OF assms(1,2)]
      consume_all_frames [OF assms(1,2)] assms(3) by simp
qed

theorem frames_reassemble_witness:
  "feed consume_frames [] [[2, 0, 0], [0, 0x3F, 1, 2, 1, 9, 0, 0, 0, 0, 0, 0, 0, 0x7B], [0x7D, 3, 0]]
   = Some ([[0x7B, 0x7D]], [3, 0])"
proof -
  have "concat [[2, 0, 0], [0, 0x3F, 1, 2, 1, 9, 0, 0, 0, 0, 0, 0, 0, 0x7B], [0x7D, 3, 0]]
      = concat (map frame [(kMagicCtrlClient, 9, [0x7B, 0x7D])]) @ [3, 0]"
    by code_simp
  then show ?thesis
    using frames_reassemble [of "[(kMagicCtrlClient, 9, [0x7B, 0x7D])]" "[3, 0]"
        "[[2, 0, 0], [0, 0x3F, 1, 2, 1, 9, 0, 0, 0, 0, 0, 0, 0, 0x7B], [0x7D, 3, 0]]"]
    by (simp add: sized_def frame_body_def partial_frame_def parse_frame_header_def)
qed

text \<open>
  C4. A header whose length field is at least \<open>2^32 - 16\<close> makes \<open>16 + payload_len\<close> wrap
  to a small number, so reassembly does not wait for the body: it copies \<open>payload_len\<close>
  bytes from a buffer that has fewer, or never advances.
\<close>

theorem consume_frames_wraps:
  assumes "2 ^ 32 - 16 \<le> n" "n < 2 ^ 32" "length rest < n"
  shows "consume_frames (build_frame_header (of_nat n) m q @ rest) = None"
proof -
  have u: "unat (of_nat n :: u32) = n" using assms(2) by (simp add: unat_of_nat take_bit_eq_mod)
  have "unat (16 + of_nat n :: u32) = n + 16 - 2 ^ 32"
    using assms(1,2) u by (simp add: unat_word_ariths mod_if)
  then show ?thesis using assms u
    by (simp add: consume_frames.simps [of "build_frame_header (of_nat n) m q @ rest"]
        parse_built_header Let_def)
qed

theorem consume_frames_wraps_witness:
  "consume_frames (build_frame_header (of_nat 4294967290) kMagicLoginServer 1 @ [1, 2, 3]) = None"
  by (rule consume_frames_wraps) simp_all

text \<open>
  C5. The printer's side reads from every request exactly what its builder was called with, and
  the constants of the protocol: all eight requests and the chunks of an upload, wrapped as
  control messages with any binary data behind them, and the setup message. Optional arguments
  are absent when empty; sizes and offsets up to \<open>2^53\<close> are exact.
\<close>

theorem requests_read_back:
  assumes "unat off \<le> 2 ^ 53"
  shows "reads_as (build_file_download_abi sq path off target)
      [(''cmdtype'', jint 4), (''sequence'', jnat (unat sq)), (''req.path'', JString path),
       (''req.offset'', jnat (unat off)), (''req.target_path'', if target = [] then JNull else JString target)]
    \<and> reads_as (build_file_upload_init_abi sq storage name off)
      [(''cmdtype'', jint 5), (''sequence'', jnat (unat sq)), (''req.type'', JString ''model''),
       (''req.path'', JString name), (''req.total'', jnat (unat off)),
       (''req.storage'', if storage = [] then JNull else JString storage)]
    \<and> reads_as (build_file_upload_chunk_abi sq frag off sz md5)
      [(''cmdtype'', jint 5), (''sequence'', jnat (unat sq)), (''frag_id'', jnat (unat frag)),
       (''req.offset'', jnat (unat off)), (''req.size'', jnat (unat sz)),
       (''req.file_md5'', if md5 = [] then JNull else JString md5)]
    \<and> reads_as (build_file_upload_abi sq storage name off md5)
      [(''cmdtype'', jint 5), (''sequence'', jnat (unat sq)),
       (''req.path'', JString (if storage = [] then ''/'' else if last storage = CHR ''/'' then ''/'' @ storage
                               else ''/'' @ storage @ ''/'')),
       (''req.file'', JString name), (''req.size'', jnat (unat off)), (''req.md5'', JString md5),
       (''req.storage'', if storage = [] then JNull else JString storage),
       (''req.peer'', JString ''studio''), (''req.api_version'', jint 3)]
    \<and> reads_as (build_file_delete_abi sq storage name)
      [(''cmdtype'', jint 3), (''sequence'', jnat (unat sq)), (''req.delete'', JArray [JString name]),
       (''req.storage'', if storage = [] then JNull else JString storage)]
    \<and> reads_as (build_sub_file_abi sq paths storage)
      [(''cmdtype'', jint 2), (''sequence'', jnat (unat sq)), (''req.paths'', JArray (map JString paths)),
       (''req.api_version'', jint 2), (''req.peer'', JString ''studio''),
       (''req.storage'', if storage = [] then JNull else JString storage)]
    \<and> reads_as (build_list_info_abi sq name storage)
      [(''cmdtype'', jint 1), (''sequence'', jnat (unat sq)), (''req.type'', JString name),
       (''req.api_version'', jint 2), (''req.notify'', JString ''DETAIL''),
       (''req.storage'', if storage = [] then JNull else JString storage)]
    \<and> reads_as (build_media_ability_abi sq)
      [(''cmdtype'', jint 7), (''sequence'', jnat (unat sq)), (''req.peer'', JString ''studio''),
       (''req.peer_t'', jint 3), (''req.api_version'', jint 3)]
    \<and> carries (build_setup_json client_id client_ver)
      [(''sequence'', jint 0), (''mtype'', jint 12291), (''req.t_av'', jint 1), (''req.mtype'', jint 12289),
       (''req.peer_t'', jint 3), (''req.pid'', JString client_id), (''req.ver'', JString client_ver)]"
proof (intro conjI)
  show "reads_as (build_file_upload_chunk_abi sq frag off sz md5)
      [(''cmdtype'', jint 5), (''sequence'', jnat (unat sq)), (''frag_id'', jnat (unat frag)),
       (''req.offset'', jnat (unat off)), (''req.size'', jnat (unat sz)),
       (''req.file_md5'', if md5 = [] then JNull else JString md5)]"
    unfolding build_file_upload_chunk_abi_def
    by (rule reads_as_object [OF plain_chunk [OF assms]]) (simp add: obj_of_def, simp add: obj_of_def, auto simp: lookup_simps command_defs)
  show "carries (build_setup_json client_id client_ver)
      [(''sequence'', jint 0), (''mtype'', jint 12291), (''req.t_av'', jint 1), (''req.mtype'', jint 12289),
       (''req.peer_t'', jint 3), (''req.pid'', JString client_id), (''req.ver'', JString client_ver)]"
    unfolding build_setup_json_def
    by (rule carries_obj_of [OF plain_setup]) (auto simp: lookup_simps kMtypeCtrlSetup_def kMtypeCtrlJson_def)
qed (unfold build_file_download_abi_def build_file_upload_init_abi_def build_file_delete_abi_def build_file_upload_abi_def
    build_sub_file_abi_def build_list_info_abi_def build_media_ability_abi_def Let_def;
    rule reads_as_request; use assms in \<open>auto simp: lookup_simps command_defs\<close>)+

theorem requests_read_back_witness:
  "reads_as (build_file_download_abi 7 ''/cache/a.3mf'' 4096 [])
      [(''cmdtype'', jint 4), (''sequence'', jnat 7), (''req.path'', JString ''/cache/a.3mf''),
       (''req.offset'', jnat 4096), (''req.target_path'', JNull)]"
  using requests_read_back [of 4096 7 "''/cache/a.3mf''" "[]"] by simp

text \<open>
  An upload chunk on the wire: the frame body splits back into the JSON part and exactly
  the bytes of the chunk, whatever they are, and the JSON part has the control message type
  and the fields of the chunk.
\<close>

lemma upload_chunk_on_wire:
  assumes "unat off \<le> 2 ^ 53"
  shows "\<exists>js root.
    split_json_prefix (bytes_of_string
      (wrap_ctrl_abi_with_binary (build_file_upload_chunk_abi sq frag off sz md5) bin)) = Some (js, bin) \<and>
    parse js = Some root \<and>
    as_int 0 (find_path root ''mtype'') = kMtypeCtrlJson \<and>
    as_int 0 (find_path root ''cmdtype'') = kCmdFileUpload \<and>
    as_int 0 (find_path root ''sequence'') = uint sq \<and>
    as_int 0 (find_path root ''frag_id'') = uint frag \<and>
    as_int 0 (find_path root ''req.offset'') = uint off \<and>
    as_int 0 (find_path root ''req.size'') = uint sz \<and>
    as_string (find_path root ''req.file_md5'') = md5"
proof -
  define req where "req = obj_of ([(''offset'', jnat (unat off)), (''size'', jnat (unat sz))] @ opt_str ''file_md5'' md5)"
  define kvs where "kvs = [(''cmdtype'', jint kCmdFileUpload), (''sequence'', jnat (unat sq)),
    (''frag_id'', jnat (unat frag)), (''req'', JObject req)]"
  have b: "build_file_upload_chunk_abi sq frag off sz md5 = dump (JObject (obj_of kvs))"
    by (simp add: build_file_upload_chunk_abi_def kvs_def req_def)
  have "plain kMaxNestingDepth (JObject (obj_of kvs))" unfolding kvs_def req_def by (rule plain_chunk [OF assms])
  then have ok: "dumpable (JObject (obj_of kvs))" by (simp add: plain_def dumpable_def)
  have ne: "obj_of kvs \<noteq> []" "fst (hd (obj_of kvs)) \<noteq> ''mtype''" by (simp_all add: kvs_def obj_of_def)
  obtain m where p: "parse (wrap_ctrl_abi (dump (JObject (obj_of kvs)))) = Some (JObject m)"
    and m: "map_of m = (map_of (obj_of kvs))(''mtype'' \<mapsto> jint 12289)"
    using wrapped_request(2) [OF ok ne] by blast
  have look: "find_path (JObject m) k = (case map_of m k of None \<Rightarrow> JNull | Some w \<Rightarrow> w)"
    if "k \<noteq> []" "\<forall>c \<in> set k. \<not> path_sep c" for k
    by (simp add: find_path_key [OF that])
  have fields: "find_path (JObject m) ''mtype'' = jint 12289" "find_path (JObject m) ''cmdtype'' = jint kCmdFileUpload"
    "find_path (JObject m) ''sequence'' = jnat (unat sq)" "find_path (JObject m) ''frag_id'' = jnat (unat frag)"
    "find_path (JObject m) ''req'' = JObject req"
    by (simp_all add: look m map_of_obj_of kvs_def path_sep_def)
  have req: "find_path (JObject req) ''offset'' = jnat (unat off)" "find_path (JObject req) ''size'' = jnat (unat sz)"
    "as_string (find_path (JObject req) ''file_md5'') = md5"
    by (simp_all add: req_def find_path_obj_of opt_str_def path_sep_def)
  have "split_json_prefix (bytes_of_string
      (wrap_ctrl_abi_with_binary (build_file_upload_chunk_abi sq frag off sz md5) bin))
      = Some (wrap_ctrl_abi (dump (JObject (obj_of kvs))), bin)"
    unfolding b by (rule wrapped_request(1) [OF ok ne])
  then show ?thesis
    using p fields req assms u32_exact [of sq] u32_exact [of frag] u32_exact [of sz]
    by (intro exI [of _ "wrap_ctrl_abi (dump (JObject (obj_of kvs)))"] exI [of _ "JObject m"])
      (simp add: find_in_req as_int_jnat as_int_jint command_defs kMtypeCtrlJson_def del: dump.simps)
qed

text \<open>
  Draining a buffer of frames whose bodies are JSON objects, with or without binary data,
  gives the JSON texts in the order they were sent and keeps an unfinished frame.
\<close>

lemma pending_in_order:
  assumes "\<forall>(ms, bin) \<in> set msgs. \<forall>p \<in> set ms. int_exact (snd p)"
    and "\<forall>f \<in> set fs. sized f" "partial_frame t"
    and "map frame_body fs = map (\<lambda>(ms, bin). bytes_of_string (dump (JObject ms)
          @ (if bin = [] then [] else separator @ string_of_bytes bin))) msgs"
  shows "take_pending_wire_json (concat (map frame fs) @ t) = Some (map (\<lambda>(ms, bin). dump (JObject ms)) msgs, t)"
proof -
  have rest: "take_pending_wire_json t = Some ([], t)"
    by (simp add: take_pending_wire_json.simps [of t] consume_partial [OF assms(3)])
  have one: "body_messages (bytes_of_string (dump (JObject ms)
      @ (if bin = [] then [] else separator @ string_of_bytes bin))) = [dump (JObject ms)]"
    if "(ms, bin) \<in> set msgs" for ms bin
    using split_members [of ms bin] assms(1) that unfolding body_messages_def dump_object by auto
  then have bodies: "concat (map body_messages (map frame_body fs)) = map (\<lambda>(ms, bin). dump (JObject ms)) msgs"
    unfolding assms(4) by (induction msgs) (auto simp del: dump.simps)
  have len: "length fs = length msgs" using assms(4) map_eq_imp_length_eq by blast
  show ?thesis
  proof (cases "fs = []")
    case True
    then show ?thesis using rest len by simp
  next
    case False
    then have "0 < length (concat (map frame fs))" by (cases fs) (auto simp: length_frame simp flip: length_greater_0_conv)
    then show ?thesis
      using consume_all_frames [OF assms(2,3)] rest bodies
      by (auto simp: take_pending_wire_json.simps [of "concat (map frame fs) @ t"] simp del: dump.simps)
  qed
qed

text \<open>
  An accepted answer to an upload request: its result code is CONTINUE or FILE_EXIST,
  the chunk size is between 1 KiB and 64 MiB, so the buffer of \<open>chunk_size * 1024\<close> bytes does
  not wrap, and the resume offset is not negative as a signed number. Every other answer,
  malformed ones included, is refused with its result code.
\<close>

lemma upload_init_bounds:
  "case parse_upload_init_reply w of
     (rc, None) \<Rightarrow> - (2 ^ 31) \<le> rc \<and> rc < 2 ^ 31
   | (rc, Some (kb, off)) \<Rightarrow>
       rc \<in> {1, 19} \<and> 0 < kb \<and> kb \<le> 65536 \<and> unat (kb * 1024) = unat kb * 1024 \<and>
       unat (kb * 1024) \<le> 64 * 1024 * 1024 \<and> 0 \<le> sint off"
proof (cases "snd (parse_upload_init_reply w)")
  case None
  have "- (2 ^ 31) \<le> parse_wire_result w \<and> parse_wire_result w < 2 ^ 31"
    using wrap_s32_range by (auto simp: parse_wire_result_def wire_int_def split: option.split)
  moreover have "fst (parse_upload_init_reply w) = parse_wire_result w"
    by (simp add: parse_upload_init_reply_def Let_def)
  ultimately show ?thesis using None by (cases "parse_upload_init_reply w") simp
next
  case (Some p)
  then obtain x where rc: "parse_wire_result w \<in> {1, 19}"
    and x: "0 < as_int 0 (find_path (find_path x ''reply'') ''chunk_size'')"
      "as_int 0 (find_path (find_path x ''reply'') ''chunk_size'') \<le> 65536"
      "0 \<le> as_int 0 (find_path (find_path x ''reply'') ''offset'')"
      "p = (word_of_int (as_int 0 (find_path (find_path x ''reply'') ''chunk_size'')),
        word_of_int (as_int 0 (find_path (find_path x ''reply'') ''offset'')))"
    by (auto simp: parse_upload_init_reply_def Let_def kMaxChunkSizeKb_def not_le not_less
        split: if_splits option.splits)
  define kb where "kb = as_int 0 (find_path (find_path x ''reply'') ''chunk_size'')"
  define off where "off = as_int 0 (find_path (find_path x ''reply'') ''offset'')"
  note nk = x(1,2) [folded kb_def] and p = x(4) [folded kb_def off_def] and off = x(3) [folded off_def]
  have "off < 2 ^ 63" using as_int_range [of 0] by (simp add: off_def)
  then have s: "0 \<le> sint (word_of_int off :: u64)" using off
    by (simp add: sint_sbintrunc' signed_take_bit_int_eq_self)
  have u: "uint (word_of_int kb :: u32) = kb" using nk by (simp add: uint_word_of_int)
  have k: "0 < (word_of_int kb :: u32)" "(word_of_int kb :: u32) \<le> 65536"
    using u nk by (simp_all add: word_less_def word_le_def)
  have un: "unat (word_of_int kb :: u32) = nat kb" using u by (simp add: unat_eq_nat_uint)
  then have m: "unat ((word_of_int kb :: u32) * 1024) = nat kb * 1024"
    using nk by (simp add: unat_word_ariths)
  have "nat kb * 1024 \<le> 64 * 1024 * 1024" using nk by simp
  moreover have "fst (parse_upload_init_reply w) = parse_wire_result w"
    by (simp add: parse_upload_init_reply_def Let_def)
  ultimately show ?thesis using Some rc s k m un p by (cases "parse_upload_init_reply w") simp
qed

end
