(* ===== verification/Tunnel_Session.thy ===== *)
theory Tunnel_Session
  imports Tunnel_Local
begin

text \<open>
  Model of \<open>Session\<close> of \<open>src/tunnel_local.cpp\<close>: sending and receiving frames, the login and
  setup handshake, requests with binary data, and the polling of incoming messages. OpenSSL
  is not part of the repository: a connection is a script of read results and write outcomes
  (\<open>ssl_io\<close>), an argument of every operation that uses it, and records the bytes that went
  out. The mutexes around the buffer and the socket, the null checks and the logging are left
  out. \<open>None\<close> is undefined behaviour of \<open>consume_frames\<close>.
\<close>

section \<open>The connection\<close>

text \<open>
  The results of the coming \<open>SSL_read\<close> calls (data, orderly close, would block, error) and
  of the coming \<open>ssl_write_all\<close> calls (all bytes out, or a failure after some), and the
  bytes sent so far. Past the end of a script a read would block and a write succeeds.
\<close>

datatype read_result = RData bytes | RClosed | RWant | RFail
datatype write_result = WOk | WFail nat

record ssl_io =
  rds :: "read_result list"
  wrs :: "write_result list"
  sent :: bytes

definition ssl_write_all :: "bytes \<Rightarrow> ssl_io \<Rightarrow> int \<times> ssl_io" where
  "ssl_write_all buf io =
     (case wrs io of
        [] \<Rightarrow> (0, io\<lparr>sent := sent io @ buf\<rparr>)
      | WOk # ws \<Rightarrow> (0, io\<lparr>wrs := ws, sent := sent io @ buf\<rparr>)
      | WFail n # ws \<Rightarrow> (- 1, io\<lparr>wrs := ws, sent := sent io @ take n buf\<rparr>))"

text \<open>\<open>read_some\<close>: at most \<open>cap\<close> bytes; 0 at the peer's close, -2 would block, -1 error.\<close>

definition read_some :: "nat \<Rightarrow> ssl_io \<Rightarrow> int \<times> bytes \<times> ssl_io" where
  "read_some cap io =
     (case rds io of
        [] \<Rightarrow> (- 2, [], io)
      | RData bs # rs \<Rightarrow>
          (int (length (take cap bs)), take cap bs,
           io\<lparr>rds := (if length bs \<le> cap then rs else RData (drop cap bs) # rs)\<rparr>)
      | RClosed # rs \<Rightarrow> (0, [], io\<lparr>rds := rs\<rparr>)
      | RWant # rs \<Rightarrow> (- 2, [], io\<lparr>rds := rs\<rparr>)
      | RFail # rs \<Rightarrow> (- 1, [], io\<lparr>rds := rs\<rparr>))"

section \<open>The session\<close>

datatype phase = NotStarted | LoginSent | SetupSent | Ready | Failed

record tunnel_config =
  username :: string
  access_code :: string
  client_id :: string
  client_ver :: string

record session =
  seq_no :: u32
  hs_phase :: phase
  recv_buf :: bytes
  rx_total :: nat
  hs_note :: string

definition new_session :: "u32 \<Rightarrow> session" where
  "new_session seed = \<lparr>seq_no = seed, hs_phase = NotStarted, recv_buf = [], rx_total = 0, hs_note = []\<rparr>"

definition send_frame :: "u32 \<Rightarrow> bytes \<Rightarrow> session \<Rightarrow> ssl_io \<Rightarrow> int \<times> session \<times> ssl_io" where
  "send_frame mag payload s io =
     (let hdr = build_frame_header (of_nat (length payload)) mag (seq_no s);
          s1 = s\<lparr>seq_no := seq_no s + 1\<rparr>;
          (r1, io1) = ssl_write_all hdr io
      in if r1 \<noteq> 0 then (- 1, s1, io1)
         else if payload = [] then (0, s1, io1)
         else let (r2, io2) = ssl_write_all payload io1
              in if r2 \<noteq> 0 then (- 1, s1, io2) else (0, s1, io2))"

definition try_read_frames :: "session \<Rightarrow> ssl_io \<Rightarrow> int \<times> session \<times> ssl_io" where
  "try_read_frames s io =
     (let (n, chunk, io1) = read_some 65536 io
      in if n = - 2 then (1, s, io1)
         else if n \<le> 0 then (- 1, s, io1)
         else (0, s\<lparr>recv_buf := recv_buf s @ chunk, rx_total := rx_total s + length chunk\<rparr>, io1))"

text \<open>\<open>16 + hdr.payload_len\<close> is again 32-bit arithmetic.\<close>

definition have_login_ack :: "session \<Rightarrow> bool" where
  "have_login_ack s =
     (case parse_frame_header (recv_buf s) of
        None \<Rightarrow> False
      | Some hdr \<Rightarrow> magic hdr = kMagicLoginServer \<and> unat (16 + payload_len hdr) \<le> length (recv_buf s))"

text \<open>\<open>obn::log::hexdump\<close>: printable bytes as they are, others as hexadecimal.\<close>

definition printable :: "byte \<Rightarrow> bool" where
  "printable c = ((0x20 \<le> c \<and> c \<noteq> 0x7F) \<or> c = 0x0A \<or> c = 0x0D \<or> c = 0x09)"

definition hex2 :: "byte \<Rightarrow> string" where
  "hex2 b = [hex_lower_digit (unat b div 16), hex_lower_digit (unat b mod 16)]"

definition hexdump :: "nat \<Rightarrow> bytes \<Rightarrow> string" where
  "hexdump max_bytes p =
     (let n = min (length p) max_bytes; q = take n p
      in if p = [] then []
         else (if list_all printable q then string_of_bytes q else concat (map hex2 q))
              @ (if n < length p then ''...'' else []))"

text \<open>\<open>%08x\<close> of a 32-bit value.\<close>

definition hex8 :: "u32 \<Rightarrow> string" where
  "hex8 v = map (\<lambda>i. hex_lower_digit (unat v div 16 ^ i mod 16)) [7, 6, 5, 4, 3, 2, 1, 0]"

definition login_note :: "session \<Rightarrow> string" where
  "login_note s =
     (case parse_frame_header (recv_buf s) of
        Some hdr \<Rightarrow>
          if magic hdr \<noteq> kMagicLoginServer
          then ''frame magic=0x'' @ hex8 (magic hdr) @ '' len='' @ dec_digits (unat (payload_len hdr)) @ '': ''
               @ hexdump 64 (drop 16 (recv_buf s))
          else hs_note s
      | None \<Rightarrow>
          if recv_buf s \<noteq> [] \<and> length (recv_buf s) < 16
          then ''partial: '' @ hexdump 64 (recv_buf s)
          else hs_note s)"

definition is_setup_ack :: "bytes \<Rightarrow> bool" where
  "is_setup_ack body =
     (case parse (string_of_bytes body) of
        None \<Rightarrow> False
      | Some v \<Rightarrow> as_int 0 (find_path v ''mtype'') = kMtypeCtrlSetup \<and> as_int 0 (find_path v ''result'') = 0)"

text \<open>The bodies of one round: \<open>True\<close> and the note so far when one of them is the setup reply.\<close>

fun scan_setup :: "string \<Rightarrow> bytes list \<Rightarrow> bool \<times> string" where
  "scan_setup note [] = (False, note)"
| "scan_setup note (body # bodies) =
     (if body = [] then scan_setup note bodies
      else if is_setup_ack body then (True, note)
      else scan_setup (''setup reply: '' @ hexdump 200 body) bodies)"

fun setup_loop :: "nat \<Rightarrow> session \<Rightarrow> ssl_io \<Rightarrow> (int \<times> session \<times> ssl_io) option" where
  "setup_loop 0 s io = Some (1, s, io)"
| "setup_loop (Suc n) s io =
     (case consume_frames (recv_buf s) of
        None \<Rightarrow> None
      | Some (consumed, bodies) \<Rightarrow>
          (let (ready, note) = scan_setup (hs_note s) bodies;
               s1 = s\<lparr>recv_buf := drop consumed (recv_buf s), hs_note := note\<rparr>
           in if ready then Some (0, s1\<lparr>hs_phase := Ready\<rparr>, io)
              else (let (rr, s2, io2) = try_read_frames s1 io
                    in if rr < 0 then Some (- 1, s2\<lparr>hs_phase := Failed\<rparr>, io2)
                       else if 0 < rr then Some (1, s2, io2)
                       else setup_loop n s2 io2)))"

definition handshake_step :: "tunnel_config \<Rightarrow> session \<Rightarrow> ssl_io \<Rightarrow> (int \<times> session \<times> ssl_io) option" where
  "handshake_step cfg s io =
     (case hs_phase s of
        Ready \<Rightarrow> Some (0, s, io)
      | Failed \<Rightarrow> Some (- 1, s, io)
      | NotStarted \<Rightarrow>
          (let (r, s1, io1) = send_frame kMagicLoginClient
                 (bytes_of_string (build_login_payload (username cfg) (access_code cfg))) s io
           in if r \<noteq> 0 then Some (- 1, s1\<lparr>hs_phase := Failed\<rparr>, io1)
              else Some (1, s1\<lparr>hs_phase := LoginSent\<rparr>, io1))
      | LoginSent \<Rightarrow>
          (let cid = (if client_id cfg = [] then hex8 (seq_no s) else client_id cfg);
               (rr, s1, io1) = try_read_frames s io
           in if rr < 0 then Some (- 1, s1\<lparr>hs_phase := Failed\<rparr>, io1)
              else if 0 < rr then Some (1, s1, io1)
              else if \<not> have_login_ack s1 then Some (1, s1\<lparr>hs_note := login_note s1\<rparr>, io1)
              else (case consume_frames (recv_buf s1) of
                 None \<Rightarrow> None
               | Some (consumed, bodies) \<Rightarrow>
                   (let s2 = s1\<lparr>recv_buf := drop consumed (recv_buf s1)\<rparr>;
                        (r, s3, io3) = send_frame kMagicCtrlClient
                          (bytes_of_string (build_setup_json cid (client_ver cfg))) s2 io1
                    in if r \<noteq> 0 then Some (- 1, s3\<lparr>hs_phase := Failed\<rparr>, io3)
                       else Some (1, s3\<lparr>hs_phase := SetupSent\<rparr>, io3))))
      | SetupSent \<Rightarrow> setup_loop 32 s io)"

definition send_abi_json :: "string \<Rightarrow> session \<Rightarrow> ssl_io \<Rightarrow> int \<times> session \<times> ssl_io" where
  "send_abi_json abi_body s io = send_frame kMagicCtrlClient (bytes_of_string (wrap_ctrl_abi abi_body)) s io"

text \<open>
  The callback for incoming messages is a function of the messages delivered before and the
  new one: what it answers may depend on the whole history. \<open>deliver\<close> hands over messages
  until one is refused and gives the history, and whether all were accepted.
\<close>

type_synonym wire_callback = "string list \<Rightarrow> string \<Rightarrow> bool"

fun deliver :: "wire_callback \<Rightarrow> string list \<Rightarrow> string list \<Rightarrow> string list \<times> bool" where
  "deliver on_wire hist [] = (hist, True)"
| "deliver on_wire hist (m # ms) =
     (if on_wire hist m then deliver on_wire (hist @ [m]) ms else (hist @ [m], False))"

definition dispatch ::
    "wire_callback \<Rightarrow> string list \<Rightarrow> session \<Rightarrow> (bool \<times> string list \<times> session) option" where
  "dispatch on_wire hist s =
     (case take_pending_wire_json (recv_buf s) of
        None \<Rightarrow> None
      | Some (msgs, rest) \<Rightarrow>
          (let (hist1, ok) = deliver on_wire hist msgs
           in Some (ok, hist1, s\<lparr>recv_buf := rest\<rparr>)))"

text \<open>
  The passes of \<open>poll_incoming_wire\<close>; \<open>readable\<close> is the script of answers of the zero-time
  poll on the socket, "not readable" past its end.
\<close>

fun poll_passes ::
    "nat \<Rightarrow> bool list \<Rightarrow> wire_callback \<Rightarrow> string list \<Rightarrow> session \<Rightarrow> ssl_io \<Rightarrow>
     (int \<times> string list \<times> session \<times> ssl_io) option" where
  "poll_passes n readable on_wire hist s io =
     (if n = 0 then Some (0, hist, s, io)
      else let (rr, s1, io1) = try_read_frames s io
           in if rr < 0 then Some (- 1, hist, s1, io1)
              else (case dispatch on_wire hist s1 of
                 None \<Rightarrow> None
               | Some (ok, hist1, s2) \<Rightarrow>
                   if \<not> ok then Some (- 2, hist1, s2, io1)
                   else if 0 < rr then Some (0, hist1, s2, io1)
                   else if readable = [] \<or> \<not> hd readable then Some (0, hist1, s2, io1)
                   else poll_passes (n - 1) (tl readable) on_wire hist1 s2 io1))"

declare poll_passes.simps [simp del]

definition poll_incoming_wire ::
    "bool list \<Rightarrow> wire_callback \<Rightarrow> string list \<Rightarrow> session \<Rightarrow> ssl_io \<Rightarrow>
     (int \<times> string list \<times> session \<times> ssl_io) option" where
  "poll_incoming_wire readable on_wire hist s io =
     (case dispatch on_wire hist s of
        None \<Rightarrow> None
      | Some (ok, hist1, s1) \<Rightarrow> poll_passes 64 readable on_wire hist1 s1 io)"

text \<open>Reads after a send: up to \<open>n\<close>, as long as the result is one the loop goes on with.\<close>

fun rx_passes :: "(int \<Rightarrow> bool) \<Rightarrow> nat \<Rightarrow> session \<Rightarrow> ssl_io \<Rightarrow> session \<times> ssl_io" where
  "rx_passes go_on n s io =
     (if n = 0 then (s, io)
      else let (rr, s1, io1) = try_read_frames s io
           in if go_on rr then rx_passes go_on (n - 1) s1 io1 else (s1, io1))"

declare rx_passes.simps [simp del]

text \<open>
  The stream delivers \<open>stream_data\<close>; fewer than \<open>bin_len\<close> bytes are an error before anything
  is sent. The result also has the callback's history.
\<close>

definition send_abi_json_with_binary_stream ::
    "string \<Rightarrow> bytes \<Rightarrow> nat \<Rightarrow> wire_callback option \<Rightarrow> bool \<Rightarrow> string list \<Rightarrow> session \<Rightarrow> ssl_io \<Rightarrow>
     (int \<times> string list \<times> session \<times> ssl_io) option" where
  "send_abi_json_with_binary_stream abi_json stream_data bin_len on_wire poll_rx_after_send hist s io =
     (let wire = bytes_of_string (wrap_ctrl_abi abi_json);
          body = wire @ (if 0 < bin_len then bytes_of_string separator @ take bin_len stream_data else []);
          (r, s1, io1) = send_frame kMagicCtrlClient body s io
      in if 0 < bin_len \<and> length stream_data < bin_len then Some (- 1, hist, s, io)
         else if r \<noteq> 0 then Some (- 1, hist, s1, io1)
         else if \<not> poll_rx_after_send then Some (0, hist, s1, io1)
         else (case on_wire of
            Some cb \<Rightarrow>
              (let (s2, io2) = rx_passes (\<lambda>rr. 0 \<le> rr) 8 s1 io1
               in (case dispatch cb hist s2 of
                     None \<Rightarrow> None
                   | Some (ok, hist1, s3) \<Rightarrow> Some (if ok then 0 else - 2, hist1, s3, io2)))
          | None \<Rightarrow>
              (let (s2, io2) = rx_passes (\<lambda>rr. 0 < rr) 8 s1 io1 in Some (0, hist, s2, io2))))"

definition send_abi_json_with_binary ::
    "string \<Rightarrow> bytes \<Rightarrow> bool \<Rightarrow> session \<Rightarrow> ssl_io \<Rightarrow> (int \<times> string list \<times> session \<times> ssl_io) option" where
  "send_abi_json_with_binary abi_json bin poll_rx_after_send s io =
     (if bin = [] then (let (r, s1, io1) = send_abi_json abi_json s io in Some (r, [], s1, io1))
      else send_abi_json_with_binary_stream abi_json bin (length bin) None poll_rx_after_send [] s io)"

definition handshake_note :: "session \<Rightarrow> string" where
  "handshake_note s =
     ''rx='' @ dec_digits (rx_total s) @ '' bytes''
     @ (if hs_note s = [] then [] else '', last unexpected: '' @ hs_note s)"

definition drain_pending_wire_json :: "session \<Rightarrow> (string list \<times> session) option" where
  "drain_pending_wire_json s =
     (case take_pending_wire_json (recv_buf s) of
        None \<Rightarrow> None
      | Some (msgs, rest) \<Rightarrow> Some (msgs, s\<lparr>recv_buf := rest\<rparr>))"

text \<open>
  \<open>recv_payload_until\<close>: 0 with a payload, 1 would block, 2 past the deadline, -1 error. The
  clock is a script of answers to \<open>now() >= deadline\<close>, \<open>False\<close> past its end; a read that
  delivers data is consumed from the connection, so the loop ends with the script of reads.
\<close>

function recv_payload_until ::
    "bool list \<Rightarrow> session \<Rightarrow> ssl_io \<Rightarrow> (int \<times> bytes \<times> session \<times> ssl_io) option" where
  "recv_payload_until late s io =
     (case consume_frames (recv_buf s) of
        None \<Rightarrow> None
      | Some (consumed, bodies) \<Rightarrow>
          (let s1 = s\<lparr>recv_buf := drop consumed (recv_buf s)\<rparr>;
               (rc, s2, io2) = try_read_frames s1 io
           in (case bodies of
                 body # _ \<Rightarrow> Some (0, body, s1, io)
               | [] \<Rightarrow>
                   if late \<noteq> [] \<and> hd late then Some (2, [], s1, io)
                   else if rc < 0 then Some (- 1, [], s2, io2)
                   else if 0 < rc then Some (1, [], s2, io2)
                   else recv_payload_until (tl late) s2 io2)))"
  by pat_completeness auto

fun read_size :: "read_result \<Rightarrow> nat" where
  "read_size (RData bs) = Suc (length bs)"
| "read_size _ = 1"

lemma try_read_shrinks:
  "try_read_frames s io = (0, s', io') \<Longrightarrow>
   sum_list (map read_size (rds io')) < sum_list (map read_size (rds io))"
  by (auto simp: try_read_frames_def read_some_def Let_def
      split: list.splits read_result.splits if_splits)

termination recv_payload_until
proof (relation "measure (\<lambda>(late, s, io). sum_list (map read_size (rds io)))")
  fix late s io x2 consumed bodies s1 x y rc z s2 io2
  assume "x = try_read_frames s1 io" "(rc, y) = x" "(s2, io2) = y" "\<not> rc < 0" "\<not> 0 < rc"
  then have "try_read_frames s1 io = (0, s2, io2)" by (metis linorder_neqE)
  then show "((tl late, s2, io2), late, s, io)
      \<in> measure (\<lambda>(late, s, io). sum_list (map read_size (rds io)))"
    using try_read_shrinks by simp
qed auto

declare recv_payload_until.simps [simp del]

definition recv_payload :: "session \<Rightarrow> ssl_io \<Rightarrow> (int \<times> bytes \<times> session \<times> ssl_io) option" where
  "recv_payload s io = recv_payload_until [] s io"

section \<open>Sending\<close>

lemma ssl_write_all_sent:
  "ssl_write_all buf io = (r, io') \<Longrightarrow>
   rds io' = rds io \<and> (\<exists>k. sent io' = sent io @ take k buf) \<and> (r = 0 \<longrightarrow> sent io' = sent io @ buf)"
  by (auto simp: ssl_write_all_def split: list.splits write_result.splits intro: exI [of _ "length buf"])

lemma send_frame_state:
  assumes "send_frame mag p s io = (r, s', io')"
  shows "s' = s\<lparr>seq_no := seq_no s + 1\<rparr>" "rds io' = rds io"
    "\<exists>k. sent io' = sent io @ take k (frame (mag, seq_no s, p))"
    "r = 0 \<Longrightarrow> sent io' = sent io @ frame (mag, seq_no s, p)"
proof -
  let ?h = "build_frame_header (of_nat (length p)) mag (seq_no s)"
  obtain r1 io1 where w1: "ssl_write_all ?h io = (r1, io1)" by fastforce
  obtain r2 io2 where w2: "ssl_write_all p io1 = (r2, io2)" by fastforce
  note e1 = ssl_write_all_sent [OF w1] and e2 = ssl_write_all_sent [OF w2]
  have c: "s' = s\<lparr>seq_no := seq_no s + 1\<rparr> \<and>
      (r1 \<noteq> 0 \<and> r = - 1 \<and> io' = io1 \<or> r1 = 0 \<and> p = [] \<and> r = 0 \<and> io' = io1 \<or>
       r1 = 0 \<and> p \<noteq> [] \<and> io' = io2 \<and> (r = 0 \<longleftrightarrow> r2 = 0))"
    using assms w1 w2 by (auto simp: send_frame_def Let_def split: if_splits)
  show "s' = s\<lparr>seq_no := seq_no s + 1\<rparr>" "rds io' = rds io" using c e1 e2 by auto
  have tk: "\<exists>k. take j ?h = take k (frame (mag, seq_no s, p))" for j
    by (rule exI [of _ "min j 16"]) (auto simp: frame_def min_def)
  have "\<exists>k. ?h @ take j p = take k (frame (mag, seq_no s, p))" for j
    by (rule exI [of _ "16 + j"]) (simp add: frame_def)
  then show "\<exists>k. sent io' = sent io @ take k (frame (mag, seq_no s, p))"
    using c e1 e2 tk by (metis append.assoc take_all_iff le_refl)
  show "sent io' = sent io @ frame (mag, seq_no s, p)" if "r = 0"
    using c e1 e2 that by (auto simp: frame_def)
qed

section \<open>The handshake as a state machine\<close>

text \<open>The states the handshake reaches from a new session on a fresh connection.\<close>

inductive hs_reach :: "tunnel_config \<Rightarrow> u32 \<Rightarrow> session \<Rightarrow> ssl_io \<Rightarrow> bool" for cfg seed where
  hs_start: "sent io = [] \<Longrightarrow> hs_reach cfg seed (new_session seed) io"
| hs_next: "hs_reach cfg seed s io \<Longrightarrow> handshake_step cfg s io = Some (r, s', io') \<Longrightarrow> hs_reach cfg seed s' io'"

definition login_frame :: "tunnel_config \<Rightarrow> u32 \<Rightarrow> bytes" where
  "login_frame cfg seed =
     frame (kMagicLoginClient, seed, bytes_of_string (build_login_payload (username cfg) (access_code cfg)))"

definition setup_frame :: "tunnel_config \<Rightarrow> u32 \<Rightarrow> bytes" where
  "setup_frame cfg seed =
     frame (kMagicCtrlClient, seed + 1, bytes_of_string
       (build_setup_json (if client_id cfg = [] then hex8 (seed + 1) else client_id cfg) (client_ver cfg)))"

definition hs_inv :: "tunnel_config \<Rightarrow> u32 \<Rightarrow> session \<Rightarrow> ssl_io \<Rightarrow> bool" where
  "hs_inv cfg seed s io =
     (case hs_phase s of
        NotStarted \<Rightarrow> sent io = [] \<and> seq_no s = seed
      | LoginSent \<Rightarrow> sent io = login_frame cfg seed \<and> seq_no s = seed + 1
      | SetupSent \<Rightarrow> sent io = login_frame cfg seed @ setup_frame cfg seed \<and> seq_no s = seed + 2
      | Ready \<Rightarrow> sent io = login_frame cfg seed @ setup_frame cfg seed \<and> seq_no s = seed + 2
      | Failed \<Rightarrow> starts_with (sent io) (login_frame cfg seed @ setup_frame cfg seed))"

lemma starts_with_take_self: "starts_with (take k x) (x @ y)"
  by (simp add: starts_with_conv) (metis append.assoc append_take_drop_id)

lemma starts_with_append_take: "starts_with (x @ take k y) (x @ y)"
  by (simp add: starts_with_conv) (metis append_take_drop_id)

lemma try_read_sent:
  "try_read_frames s io = (r, s', io') \<Longrightarrow> sent io' = sent io \<and> seq_no s' = seq_no s \<and> hs_phase s' = hs_phase s"
  by (auto simp: try_read_frames_def read_some_def Let_def
      split: list.splits read_result.splits if_splits)

lemma setup_loop_keeps:
  "setup_loop n s io = Some (r, s', io') \<Longrightarrow>
   sent io' = sent io \<and> seq_no s' = seq_no s \<and> hs_phase s' \<in> {hs_phase s, Ready, Failed}"
proof (induction n arbitrary: s io)
  case (Suc n)
  from Suc.prems show ?case
    by (auto simp: Let_def split: option.splits prod.splits if_splits dest!: try_read_sent Suc.IH)
qed simp

lemma hs_inv_step:
  assumes "hs_inv cfg seed s io" "handshake_step cfg s io = Some (r, s', io')"
  shows "hs_inv cfg seed s' io'"
proof (cases "hs_phase s")
  case NotStarted
  obtain r1 s1 io1 where w: "send_frame kMagicLoginClient
      (bytes_of_string (build_login_payload (username cfg) (access_code cfg))) s io = (r1, s1, io1)"
    by (metis prod_cases3)
  from send_frame_state [OF w] NotStarted assms w show ?thesis
    by (auto simp: handshake_step_def hs_inv_def login_frame_def starts_with_take_self split: if_splits)
next
  case LoginSent
  obtain rr s1 io1 where rd: "try_read_frames s io = (rr, s1, io1)" by (metis prod_cases3)
  note k = try_read_sent [OF rd]
  let ?cid = "if client_id cfg = [] then hex8 (seq_no s) else client_id cfg"
  have seq: "seq_no s = seed + 1" "sent io = login_frame cfg seed"
    using LoginSent assms(1) by (auto simp: hs_inv_def)
  show ?thesis
  proof (cases "rr = 0 \<and> have_login_ack s1")
    case False
    then show ?thesis using assms LoginSent rd k
      by (auto simp: handshake_step_def hs_inv_def Let_def starts_with_conv split: if_splits)
  next
    case True
    then obtain c bs where c: "consume_frames (recv_buf s1) = Some (c, bs)"
      using assms(2) LoginSent rd by (auto simp: handshake_step_def Let_def split: option.splits)
    obtain r3 s3 io3 where w: "send_frame kMagicCtrlClient (bytes_of_string (build_setup_json ?cid (client_ver cfg)))
        (s1\<lparr>recv_buf := drop c (recv_buf s1)\<rparr>) io1 = (r3, s3, io3)" by (metis prod_cases3)
    from send_frame_state [OF w] True c w rd k seq LoginSent assms(2) show ?thesis
      by (auto simp: handshake_step_def hs_inv_def setup_frame_def Let_def starts_with_append_take split: if_splits)
  qed
next
  case SetupSent
  then have "setup_loop 32 s io = Some (r, s', io')" using assms(2) by (simp add: handshake_step_def)
  from setup_loop_keeps [OF this] SetupSent assms(1) show ?thesis
    by (auto simp: hs_inv_def starts_with_conv)
qed (use assms in \<open>auto simp: handshake_step_def\<close>)

lemma hs_reach_inv: "hs_reach cfg seed s io \<Longrightarrow> hs_inv cfg seed s io"
proof (induction rule: hs_reach.induct)
  case (hs_start io)
  then show ?case by (simp add: hs_inv_def new_session_def)
next
  case (hs_next s io r s' io')
  then show ?case by (blast intro: hs_inv_step)
qed

text \<open>Calling the step until it stops asking to be called again, as its callers do.\<close>

fun hs_drive :: "nat \<Rightarrow> tunnel_config \<Rightarrow> session \<Rightarrow> ssl_io \<Rightarrow> (int \<times> session \<times> ssl_io) option" where
  "hs_drive 0 cfg s io = Some (1, s, io)"
| "hs_drive (Suc n) cfg s io =
     (case handshake_step cfg s io of
        None \<Rightarrow> None
      | Some (r, s', io') \<Rightarrow> if r = 1 then hs_drive n cfg s' io' else Some (r, s', io'))"

lemma try_read_data:
  "rds io = RData bs # rs \<Longrightarrow> bs \<noteq> [] \<Longrightarrow> length bs \<le> 65536 \<Longrightarrow>
   try_read_frames s io = (0, s\<lparr>recv_buf := recv_buf s @ bs, rx_total := rx_total s + length bs\<rparr>, io\<lparr>rds := rs\<rparr>)"
  by (simp add: try_read_frames_def read_some_def)

lemma send_frame_ok:
  "wrs io = [] \<Longrightarrow> send_frame mag p s io =
   (0, s\<lparr>seq_no := seq_no s + 1\<rparr>, io\<lparr>sent := sent io @ frame (mag, seq_no s, p)\<rparr>)"
  by (simp add: send_frame_def ssl_write_all_def frame_def Let_def)

lemma consume_one: "sized f \<Longrightarrow> consume_frames (frame f) = Some (length (frame f), [frame_body f])"
  using consume_all_frames [of "[f]" "[]"] by (simp add: partial_frame_def parse_frame_header_def)

lemma frame_nonempty [simp]: "frame f \<noteq> []"
  using length_frame [of f] by auto

lemma have_login_ack_frame:
  assumes "recv_buf s = frame (kMagicLoginServer, q, b)" "sized (kMagicLoginServer, q, b)"
  shows "have_login_ack s"
proof -
  have b: "length b < 2 ^ 32 - 16" using assms(2) by (simp add: sized_def frame_body_def)
  then show ?thesis using assms(1) frame_len_word [OF b]
    by (simp add: have_login_ack_def frame_def parse_built_header)
qed

text \<open>The bytes a connection has still to deliver.\<close>

fun rd_data :: "read_result \<Rightarrow> bytes" where
  "rd_data (RData bs) = bs"
| "rd_data _ = []"

definition rx_bytes :: "ssl_io \<Rightarrow> bytes" where
  "rx_bytes io = concat (map rd_data (rds io))"

lemma try_read_bytes:
  "try_read_frames s io = (r, s', io') \<Longrightarrow> \<exists>d. recv_buf s' = recv_buf s @ d \<and> rx_bytes io = d @ rx_bytes io'"
  by (auto simp: try_read_frames_def read_some_def rx_bytes_def Let_def
      split: list.splits read_result.splits if_splits)

lemma try_read_failed:
  "try_read_frames s io = (r, s', io') \<Longrightarrow> r < 0 \<Longrightarrow> recv_buf s' = recv_buf s \<and> rx_bytes io' = rx_bytes io"
  by (auto simp: try_read_frames_def read_some_def rx_bytes_def Let_def
      split: list.splits read_result.splits if_splits)

lemma take_pending_consume:
  assumes "consume_frames buf = Some (n, bodies)"
  shows "take_pending_wire_json buf = Some (concat (map body_messages bodies), drop n buf)"
proof -
  have "take_pending_wire_json (drop n buf) = Some ([], drop n buf)"
    using frames.dec_rest [OF assms] by (simp add: take_pending_wire_json.simps [of "drop n buf"])
  moreover have "n = 0 \<Longrightarrow> bodies = []" using frames.dec_rest [OF assms] assms by simp
  ultimately show ?thesis using assms
    by (simp add: take_pending_wire_json.simps [of buf])
qed

lemma take_pending_append:
  assumes "take_pending_wire_json a = Some (ms, r)" "well_framed (a @ b)"
  shows "take_pending_wire_json (a @ b) =
     map_option (\<lambda>(ms', r'). (ms @ ms', r')) (take_pending_wire_json (r @ b))" "well_framed (r @ b)"
proof -
  obtain n bs where n: "consume_frames a = Some (n, bs)"
    using frames.dec_defined frames.ok_prefix [OF assms(2)] by blast
  then have ms: "ms = concat (map body_messages bs)" "r = drop n a"
    using take_pending_consume [OF n] assms(1) by simp_all
  show w: "well_framed (r @ b)" using frames.ok_rest [OF assms(2) n] ms(2) by simp
  then obtain m cs where m: "consume_frames (r @ b) = Some (m, cs)" using frames.dec_defined by blast
  have ab: "consume_frames (a @ b) = Some (n + m, bs @ cs)"
    using frames.dec_append [OF n, of b] m ms(2) by simp
  have "drop (n + m) (a @ b) = drop m (r @ b)"
    using frames.dec_bound [OF n] ms(2) by (simp add: add.commute)
  then show "take_pending_wire_json (a @ b) =
     map_option (\<lambda>(ms', r'). (ms @ ms', r')) (take_pending_wire_json (r @ b))"
    using take_pending_consume [OF ab] take_pending_consume [OF m] ms(1) by simp
qed

lemma rx_passes_sent:
  "rx_passes go_on n s io = (s', io') \<Longrightarrow> sent io' = sent io \<and> seq_no s' = seq_no s"
proof (induction n arbitrary: s io)
  case (Suc n)
  obtain r1 s1 io1 where "try_read_frames s io = (r1, s1, io1)" by (metis prod_cases3)
  then show ?case using try_read_sent [of s io r1 s1 io1] Suc
    by (auto simp: rx_passes.simps [of go_on "Suc n"] split: if_splits)
qed (simp add: rx_passes.simps)

definition accept_all :: wire_callback where
  "accept_all = (\<lambda>hist m. True)"

lemma deliver_accept_all: "deliver accept_all hist ms = (hist @ ms, True)"
  by (induction ms arbitrary: hist) (simp_all add: accept_all_def)

lemma dispatch_accept_all:
  "dispatch accept_all hist s =
   map_option (\<lambda>(ms, r). (True, hist @ ms, s\<lparr>recv_buf := r\<rparr>)) (take_pending_wire_json (recv_buf s))"
  by (simp add: dispatch_def deliver_accept_all split: option.split)

lemma poll_pass_cases:
  assumes "poll_passes (Suc n) rdb accept_all hist s io = Some (r, hist', s', io')"
    and "try_read_frames s io = (rr, s1, io1)"
    and "take_pending_wire_json (recv_buf s1) = Some (ms, b)"
  shows "rr < 0 \<and> hist' = hist \<and> s' = s1 \<and> io' = io1 \<or>
    hist' = hist @ ms \<and> s' = s1\<lparr>recv_buf := b\<rparr> \<and> io' = io1 \<or>
    poll_passes n (tl rdb) accept_all (hist @ ms) (s1\<lparr>recv_buf := b\<rparr>) io1 = Some (r, hist', s', io')"
  using assms by (auto simp: poll_passes.simps [of "Suc n"] dispatch_accept_all split: if_splits)

lemma poll_passes_conserves:
  assumes "well_framed (recv_buf s @ rx_bytes io)"
    and "poll_passes n rdb accept_all hist s io = Some (r, hist', s', io')"
    and "take_pending_wire_json (recv_buf s) = Some ([], recv_buf s)"
  shows "\<exists>d ms. rx_bytes io = d @ rx_bytes io' \<and> hist' = hist @ ms \<and>
    take_pending_wire_json (recv_buf s @ d) = Some (ms, recv_buf s')"
  using assms
proof (induction n arbitrary: rdb hist s io)
  case 0
  then show ?case by (simp add: poll_passes.simps)
next
  case (Suc n)
  obtain rr s1 io1 where rd: "try_read_frames s io = (rr, s1, io1)" by (metis prod_cases3)
  obtain d where d: "recv_buf s1 = recv_buf s @ d" "rx_bytes io = d @ rx_bytes io1"
    using try_read_bytes [OF rd] by blast
  have wf: "well_framed (recv_buf s1 @ rx_bytes io1)" using Suc.prems(1) d by simp
  obtain ms b where tp: "take_pending_wire_json (recv_buf s1) = Some (ms, b)"
    using take_pending_consume frames.dec_defined frames.ok_prefix [OF wf] by blast
  let ?s2 = "s1\<lparr>recv_buf := b\<rparr>"
  note ta = take_pending_append [OF tp, of "rx_bytes io1"]
  have b0: "take_pending_wire_json b = Some ([], b)"
    using take_pending_append [OF tp, of "[]"] frames.ok_prefix [OF wf] tp
    by (cases "take_pending_wire_json b") auto
  consider "rr < 0" "hist' = hist" "s' = s1" "io' = io1"
    | "hist' = hist @ ms" "s' = ?s2" "io' = io1"
    | "poll_passes n (tl rdb) accept_all (hist @ ms) ?s2 io1 = Some (r, hist', s', io')"
    using poll_pass_cases [OF Suc.prems(2) rd tp] by blast
  then show ?case
  proof cases
    case 1
    then show ?thesis using try_read_failed [OF rd] Suc.prems(3)
      by (intro exI [of _ "[]"]) simp
  next
    case 2
    then show ?thesis using d tp by auto
  next
    case 3
    have "well_framed (recv_buf ?s2 @ rx_bytes io1)" using ta(2) wf by simp
    from Suc.IH [OF this 3] b0 obtain d' ms' where
      d': "rx_bytes io1 = d' @ rx_bytes io'" "hist' = (hist @ ms) @ ms'"
        "take_pending_wire_json (b @ d') = Some (ms', recv_buf s')" by auto
    have "well_framed (recv_buf s1 @ d')"
      using wf frames.ok_prefix [of "recv_buf s1 @ d'" "rx_bytes io'"] d'(1) by simp
    then have "take_pending_wire_json (recv_buf s1 @ d') = Some (ms @ ms', recv_buf s')"
      using take_pending_append(1) [OF tp] d'(3) by simp
    then show ?thesis using d d' by (intro exI [of _ "d @ d'"] exI [of _ "ms @ ms'"]) simp
  qed
qed

section \<open>Properties\<close>

text \<open>
  C8. In every state the handshake reaches, the bytes sent are determined by the phase: the
  login frame, then the setup frame, each exactly once and in this order, with consecutive
  sequence numbers; a failed handshake has sent a prefix of the two.
\<close>

theorem handshake_sends_login_then_setup: "hs_reach cfg seed s io \<Longrightarrow> hs_inv cfg seed s io"
  by (rule hs_reach_inv)

definition demo_cfg :: tunnel_config where
  "demo_cfg = \<lparr>username = ''bblp'', access_code = ''12345678'', client_id = ''obn'', client_ver = ''1''\<rparr>"

theorem handshake_sends_login_then_setup_witness:
  "\<exists>s. hs_phase s = LoginSent \<and> hs_inv demo_cfg 5 s \<lparr>rds = [], wrs = [], sent = login_frame demo_cfg 5\<rparr>"
proof -
  let ?io = "\<lparr>rds = [], wrs = [], sent = []\<rparr>"
  let ?s = "new_session 5 \<lparr>seq_no := 6, hs_phase := LoginSent\<rparr>"
  have "hs_reach demo_cfg 5 (new_session 5) ?io" by (rule hs_start) simp
  moreover have "handshake_step demo_cfg (new_session 5) ?io = Some (1, ?s, ?io\<lparr>sent := login_frame demo_cfg 5\<rparr>)"
    by code_simp
  ultimately have "hs_reach demo_cfg 5 ?s (?io\<lparr>sent := login_frame demo_cfg 5\<rparr>)" by (rule hs_next)
  from handshake_sends_login_then_setup [OF this] show ?thesis
    by (intro exI [of _ ?s]) simp
qed

text \<open>
  Against a printer that answers the login frame with a login acknowledgement and the
  setup frame with a setup acknowledgement, on a connection that takes all writes, three
  calls complete the handshake: the session is ready and nothing is left in its buffer.
\<close>

lemma handshake_completes:
  assumes "wrs io = []" "rds io = [RData (frame (kMagicLoginServer, q1, b1)), RData (frame (m2, q2, ack))] @ rs"
    and "length b1 \<le> 65520" "length ack \<le> 65520" "ack \<noteq> []" "is_setup_ack ack"
  shows "\<exists>s' io'. hs_drive 3 cfg (new_session seed) io = Some (0, s', io') \<and>
    hs_phase s' = Ready \<and> recv_buf s' = [] \<and> rds io' = rs \<and> wrs io' = []"
proof -
  let ?f1 = "(kMagicLoginServer, q1, b1)" and ?f2 = "(m2, q2, ack)"
  have sz: "sized ?f1" "sized ?f2" using assms(3,4) by (simp_all add: sized_def frame_body_def)
  have len: "length (frame ?f1) \<le> 65536" "length (frame ?f2) \<le> 65536"
    using assms(3,4) by (simp_all add: length_frame frame_body_def)
  have "consume_frames [] = Some (0, [])" by (simp add: consume_frames.simps parse_frame_header_def)
  then have loop: "setup_loop (Suc (Suc n)) s io3 =
      Some (0, s\<lparr>recv_buf := [], rx_total := rx_total s + length (frame ?f2), hs_phase := Ready\<rparr>, io3\<lparr>rds := rs\<rparr>)"
    if "recv_buf s = []" "rds io3 = RData (frame ?f2) # rs" for s io3 n
    using that try_read_data [of io3 "frame ?f2" rs] len(2) consume_one [OF sz(2)] assms(5,6)
    by (simp add: frame_body_def)
  have step3: "setup_loop 32 s io3 =
      Some (0, s\<lparr>recv_buf := [], rx_total := rx_total s + length (frame ?f2), hs_phase := Ready\<rparr>, io3\<lparr>rds := rs\<rparr>)"
    if "recv_buf s = []" "rds io3 = RData (frame ?f2) # rs" for s io3
    using loop [OF that, of 30] by simp
  show ?thesis
    unfolding numeral_3_eq_3
    using assms(1,2) len(1) consume_one [OF sz(1)] have_login_ack_frame [OF _ sz(1)]
    by (simp add: handshake_step_def new_session_def send_frame_ok try_read_data step3 frame_body_def Let_def)
qed

text \<open>
  C10. Polling for incoming messages loses, duplicates and reorders nothing: with a callback
  that accepts every message, the messages delivered are exactly those of the bytes received,
  and the bytes of an unfinished frame stay in the buffer for the next call.
\<close>

theorem poll_conserves_messages:
  assumes "well_framed (recv_buf s @ rx_bytes io)"
    and "poll_incoming_wire readable accept_all [] s io = Some (r, hist, s', io')"
  shows "\<exists>d. rx_bytes io = d @ rx_bytes io' \<and>
    take_pending_wire_json (recv_buf s @ d) = Some (hist, recv_buf s')"
proof -
  obtain ms b where tp: "take_pending_wire_json (recv_buf s) = Some (ms, b)"
    using take_pending_consume frames.dec_defined frames.ok_prefix [OF assms(1)] by blast
  have p: "poll_passes 64 readable accept_all ms (s\<lparr>recv_buf := b\<rparr>) io = Some (r, hist, s', io')"
    using assms(2) tp by (simp add: poll_incoming_wire_def dispatch_accept_all)
  have wf: "well_framed (recv_buf (s\<lparr>recv_buf := b\<rparr>) @ rx_bytes io)"
    using take_pending_append(2) [OF tp assms(1)] by simp
  have b0: "take_pending_wire_json b = Some ([], b)"
    using take_pending_append [OF tp, of "[]"] frames.ok_prefix [OF assms(1)] tp
    by (cases "take_pending_wire_json b") auto
  from poll_passes_conserves [OF wf p] b0 obtain d ms' where
    d: "rx_bytes io = d @ rx_bytes io'" "hist = ms @ ms'"
      "take_pending_wire_json (b @ d) = Some (ms', recv_buf s')" by auto
  have "well_framed (recv_buf s @ d)"
    using assms(1) frames.ok_prefix [of "recv_buf s @ d" "rx_bytes io'"] d(1) by simp
  then show ?thesis using take_pending_append(1) [OF tp] d by auto
qed

theorem poll_conserves_messages_witness:
  "\<exists>d. rx_bytes \<lparr>rds = [RData (frame (kMagicCtrlClient, 1, [0x7B, 0x7D]) @ [9])], wrs = [], sent = []\<rparr> = d \<and>
    take_pending_wire_json d = Some ([''{}''], [9])"
proof -
  let ?d = "frame (kMagicCtrlClient, 1, [0x7B, 0x7D]) @ [9]"
  let ?io = "\<lparr>rds = [RData ?d], wrs = [], sent = []\<rparr>"
  have "poll_incoming_wire [] accept_all [] (new_session 1) ?io =
      Some (0, [''{}''], new_session 1\<lparr>recv_buf := [9], rx_total := 19\<rparr>, ?io\<lparr>rds := []\<rparr>)"
    by code_simp
  moreover have "well_framed (recv_buf (new_session 1) @ rx_bytes ?io)" by code_simp
  ultimately show ?thesis
    using poll_conserves_messages [of "new_session 1" ?io "[]"] by (fastforce simp: new_session_def rx_bytes_def)
qed

text \<open>
  Sending a request with a binary part: a stream that is too short fails before anything
  is sent and leaves the session as it was; otherwise one frame goes out, with the session's
  sequence number, and a write that fails has sent a prefix of it.
\<close>

lemma stream_sends_one_frame:
  assumes "send_abi_json_with_binary_stream js dat n cb poll hist s io = Some (r, hist', s', io')"
  defines "f \<equiv> (kMagicCtrlClient, seq_no s, bytes_of_string (wrap_ctrl_abi js)
      @ (if 0 < n then bytes_of_string separator @ take n dat else []))"
  shows "if length dat < n then r = - 1 \<and> s' = s \<and> io' = io
    else starts_with (sent io') (sent io @ frame f) \<and> seq_no s' = seq_no s + 1 \<and>
      (r = 0 \<longrightarrow> sent io' = sent io @ frame f)"
proof -
  obtain r1 s1 io1 where w: "send_frame (fst f) (frame_body f) s io = (r1, s1, io1)" by (metis prod_cases3)
  have seq: "fst (snd f) = seq_no s" "f = (fst f, seq_no s, frame_body f)" by (simp_all add: f_def frame_body_def)
  have c: "length dat < n \<and> r = - 1 \<and> s' = s \<and> io' = io \<or>
      \<not> length dat < n \<and> sent io' = sent io1 \<and> seq_no s' = seq_no s1 \<and> (r1 \<noteq> 0 \<longrightarrow> r \<noteq> 0)"
    using assms(1) w unfolding f_def
    by (auto simp: send_abi_json_with_binary_stream_def frame_body_def Let_def dispatch_def
        split: if_splits option.splits prod.splits dest!: rx_passes_sent)
  have "\<exists>k. sent io1 = sent io @ take k (frame f)" "r1 = 0 \<Longrightarrow> sent io1 = sent io @ frame f" "seq_no s1 = seq_no s + 1"
    using send_frame_state [OF w] seq(2) by simp_all
  then show ?thesis using c starts_with_append_take by (auto simp: starts_with_conv)
qed

text \<open>
  C11. Receiving a payload takes every complete frame out of the buffer and returns the first
  body: the bodies of the frames that arrived with it are gone.
\<close>

theorem recv_payload_drops_frames:
  assumes "recv_buf s = concat (map frame (f # fs)) @ t" "\<forall>g \<in> set (f # fs). sized g" "partial_frame t"
  shows "recv_payload s io = Some (0, frame_body f, s\<lparr>recv_buf := t\<rparr>, io)"
  using assms(1) consume_all_frames [OF assms(2,3)]
  by (simp add: recv_payload_def recv_payload_until.simps [of "[]" s] Let_def)

theorem recv_payload_drops_frames_witness:
  "recv_payload (new_session 1\<lparr>recv_buf := frame (1, 1, [10]) @ frame (1, 2, [20])\<rparr>) \<lparr>rds = [], wrs = [], sent = []\<rparr>
   = Some (0, [10], new_session 1\<lparr>recv_buf := []\<rparr>, \<lparr>rds = [], wrs = [], sent = []\<rparr>)"
  using recv_payload_drops_frames [of "new_session 1\<lparr>recv_buf := frame (1, 1, [10]) @ frame (1, 2, [20])\<rparr>"
      "(1, 1, [10])" "[(1, 2, [20])]" "[]"]
  by (simp add: sized_def frame_body_def partial_frame_def parse_frame_header_def)

end
