(* ===== verification/Tunnel_Upload.thy ===== *)
theory Tunnel_Upload
  imports Tunnel_Session
begin

text \<open>
  Model of the file transfers of \<open>src/tunnel_upload.cpp\<close> over a tunnel session: waiting for a
  reply, chunked upload, download, listings and members of archives, and the \<open>Connection\<close> that
  owns the session. A connection that waits polls the socket; the answers of the polls are a
  script, past whose end the descriptor is gone. The local file, MD5, the dialling of TLS and
  random digits are arguments. Socket timeouts, mutexes and log lines are left out. \<open>None\<close> is
  undefined behaviour of \<open>consume_frames\<close>, as in the session.
\<close>

section \<open>Waiting for replies\<close>

record wire =
  w_session :: session
  w_io :: ssl_io
  w_polls :: "int list"
  w_err :: string

text \<open>\<open>w_err\<close> is what \<open>describe_ssl_io_error\<close> tells of the connection.\<close>

definition wait_ssl_readable :: "wire \<Rightarrow> int \<times> wire" where
  "wait_ssl_readable w = (case w_polls w of [] \<Rightarrow> (- 1, w) | p # ps \<Rightarrow> (p, w\<lparr>w_polls := ps\<rparr>))"

definition wire_recv :: "wire \<Rightarrow> (int \<times> bytes \<times> wire) option" where
  "wire_recv w =
     (case recv_payload (w_session w) (w_io w) of
        None \<Rightarrow> None
      | Some (rc, payload, s, io) \<Rightarrow> Some (rc, payload, w\<lparr>w_session := s, w_io := io\<rparr>))"

definition wire_send :: "string \<Rightarrow> wire \<Rightarrow> int \<times> wire" where
  "wire_send abi w =
     (let (r, s, io) = send_abi_json abi (w_session w) (w_io w) in (r, w\<lparr>w_session := s, w_io := io\<rparr>))"

definition wire_drain :: "wire \<Rightarrow> (string list \<times> wire) option" where
  "wire_drain w =
     map_option (\<lambda>(msgs, s). (msgs, w\<lparr>w_session := s\<rparr>)) (drain_pending_wire_json (w_session w))"

text \<open>The inner loop of every receiver: a payload, or \<open>None\<close> on an error.\<close>

function recv_blocking :: "wire \<Rightarrow> (bytes option \<times> wire) option" where
  "recv_blocking w =
     (case wire_recv w of
        None \<Rightarrow> None
      | Some (rc, payload, w1) \<Rightarrow>
          if rc = 0 then Some (Some payload, w1)
          else if rc < 0 then Some (None, w1)
          else if fst (wait_ssl_readable w1) < 0 then Some (None, snd (wait_ssl_readable w1))
          else recv_blocking (snd (wait_ssl_readable w1)))"
  by pat_completeness auto
termination
  by (relation "measure (length \<circ> w_polls)")
    (auto simp: wait_ssl_readable_def wire_recv_def split: list.splits option.splits)

declare recv_blocking.simps [simp del]

definition split_reply :: "bytes \<Rightarrow> string \<times> bytes" where
  "split_reply payload =
     (case split_json_prefix payload of Some (json, bin) \<Rightarrow> (json, bin) | None \<Rightarrow> (string_of_bytes payload, []))"

definition recv_json_payload :: "wire \<Rightarrow> (string option \<times> wire) option" where
  "recv_json_payload w =
     map_option (\<lambda>(p, w1). (map_option (fst \<circ> split_reply) p, w1)) (recv_blocking w)"

definition try_accept :: "int \<Rightarrow> u32 \<Rightarrow> string \<Rightarrow> bool" where
  "try_accept want_cmdtype want_seq json \<longleftrightarrow>
     parse_wire_cmdtype json = want_cmdtype \<and>
     (want_seq = 0 \<or> word_of_int (parse_wire_sequence json) = want_seq)"

fun recv_skipping :: "int \<Rightarrow> u32 \<Rightarrow> nat \<Rightarrow> wire \<Rightarrow> (string option \<times> wire) option" where
  "recv_skipping cmd sq 0 w = Some (None, w)"
| "recv_skipping cmd sq (Suc n) w =
     (case recv_json_payload w of
        None \<Rightarrow> None
      | Some (None, w1) \<Rightarrow> Some (None, w1)
      | Some (Some json, w1) \<Rightarrow>
          if try_accept cmd sq json then Some (Some json, w1) else recv_skipping cmd sq n w1)"

text \<open>The reply that is waited for may be buffered; what is buffered beside it is dropped.\<close>

definition recv_wire_json :: "int \<Rightarrow> u32 \<Rightarrow> wire \<Rightarrow> (string option \<times> wire) option" where
  "recv_wire_json cmd sq w =
     (case wire_drain w of
        None \<Rightarrow> None
      | Some (pending, w1) \<Rightarrow>
          (case find (try_accept cmd sq) pending of
             Some json \<Rightarrow> Some (Some json, w1)
           | None \<Rightarrow> recv_skipping cmd sq 32 w1))"

definition drain_stale_wire_json :: "wire \<Rightarrow> wire option" where
  "drain_stale_wire_json w = map_option snd (wire_drain w)"

section \<open>Every payload shortens what is left to read\<close>

text \<open>The bytes of the buffer and of the reads to come.\<close>

definition unread :: "session \<Rightarrow> ssl_io \<Rightarrow> nat" where
  "unread s io = length (recv_buf s) + sum_list (map read_size (rds io))"

lemma try_read_unread: "try_read_frames s io = (rc, s', io') \<Longrightarrow> unread s' io' \<le> unread s io"
  by (auto simp: try_read_frames_def read_some_def Let_def unread_def
      split: list.splits read_result.splits if_splits)

lemma consumed_body: "consume_frames b = Some (n, body # bs) \<Longrightarrow> 0 < n \<and> n \<le> length b"
proof -
  assume a: "consume_frames b = Some (n, body # bs)"
  then have "n \<noteq> 0"
    by (subst (asm) consume_frames.simps) (auto simp: Let_def split: option.splits if_splits)
  then show ?thesis using consume_frames_le [OF a] by simp
qed

lemma recv_payload_unread:
  "recv_payload_until late s io = Some (rc, p, s', io') \<Longrightarrow>
   unread s' io' \<le> unread s io \<and> (rc = 0 \<longrightarrow> unread s' io' < unread s io)"
proof (induction late s io rule: recv_payload_until.induct)
  case (1 late s io)
  from "1.prems" obtain n bodies where c: "consume_frames (recv_buf s) = Some (n, bodies)"
    by (cases "consume_frames (recv_buf s)") (auto simp: recv_payload_until.simps [of late s io])
  let ?s1 = "s\<lparr>recv_buf := drop n (recv_buf s)\<rparr>"
  obtain r s2 io2 where t: "try_read_frames ?s1 io = (r, s2, io2)" by (cases "try_read_frames ?s1 io")
  have le: "unread ?s1 io \<le> unread s io" "unread s2 io2 \<le> unread ?s1 io"
    using try_read_unread [OF t] by (simp_all add: unread_def)
  show ?case
  proof (cases bodies)
    case Nil
    have IH: "unread s' io' \<le> unread s2 io2 \<and> (rc = 0 \<longrightarrow> unread s' io' < unread s2 io2)"
      if "\<not> (late \<noteq> [] \<and> hd late)" "\<not> r < 0" "\<not> 0 < r"
      using "1.IH" [OF c refl refl refl t [symmetric] refl Nil that] "1.prems" that c t Nil
      by (simp add: recv_payload_until.simps [of late s io])
    show ?thesis
      using "1.prems" IH le Nil c t
      by (auto simp: recv_payload_until.simps [of late s io] split: if_splits)
  next
    case (Cons body bs)
    have "unread ?s1 io < unread s io" using consumed_body [of "recv_buf s" n body bs] c Cons by (auto simp: unread_def)
    then show ?thesis using "1.prems" c Cons t by (auto simp: recv_payload_until.simps [of late s io])
  qed
qed

lemma wire_recv_unread:
  "wire_recv w = Some (rc, p, w') \<Longrightarrow>
   unread (w_session w') (w_io w') \<le> unread (w_session w) (w_io w) \<and>
   (rc = 0 \<longrightarrow> unread (w_session w') (w_io w') < unread (w_session w) (w_io w))"
  by (auto simp: wire_recv_def recv_payload_def split: option.splits dest: recv_payload_unread)

lemma wait_unread [simp]:
  "w_session (snd (wait_ssl_readable w)) = w_session w" "w_io (snd (wait_ssl_readable w)) = w_io w"
  by (simp_all add: wait_ssl_readable_def split: list.splits)

lemma recv_blocking_unread:
  "recv_blocking w = Some (Some p, w') \<Longrightarrow>
   unread (w_session w') (w_io w') < unread (w_session w) (w_io w)"
proof (induction w rule: recv_blocking.induct)
  case (1 w)
  from "1.prems" obtain rc q w1 where r: "wire_recv w = Some (rc, q, w1)"
    by (cases "wire_recv w") (auto simp: recv_blocking.simps [of w])
  show ?case
    using "1.prems" "1.IH" [OF r refl refl] wire_recv_unread [OF r] r
    by (auto simp: recv_blocking.simps [of w] split: if_splits)
qed

section \<open>Members of archives and listings\<close>

text \<open>\<open>ModelFileEntry\<close>, \<open>ListInfoOutcome\<close> and \<open>SubFileOutcome\<close>.\<close>

record file_entry =
  fe_name :: string
  fe_path :: string
  fe_time :: int

record list_outcome =
  lo_ok :: bool
  lo_files :: "file_entry list"
  lo_result :: int
  lo_error :: string

record sub_outcome =
  so_ok :: bool
  so_data :: bytes
  so_result :: int
  so_error :: string
  so_timed_out :: bool

definition no_sub :: sub_outcome where
  "no_sub = \<lparr>so_ok = False, so_data = [], so_result = 0, so_error = [], so_timed_out = False\<rparr>"

definition wire_chunk_is_image :: "bytes \<Rightarrow> bool" where
  "wire_chunk_is_image chunk \<longleftrightarrow>
     starts_with [0x89, 0x50, 0x4E, 0x47, 0x0D, 0x0A, 0x1A, 0x0A] chunk \<or> starts_with [0xFF, 0xD8] chunk"

definition sub_file_reply_rank :: "string \<Rightarrow> string list \<Rightarrow> nat" where
  "sub_file_reply_rank json paths =
     (case parse json of
        None \<Rightarrow> length paths
      | Some jroot \<Rightarrow>
          (case find_char (as_string (find_path jroot ''reply.path'')) paths of None \<Rightarrow> length paths | Some i \<Rightarrow> i))"

definition is_reply_to :: "int \<Rightarrow> u32 \<Rightarrow> string \<Rightarrow> bool" where
  "is_reply_to cmd sq json \<longleftrightarrow> parse_wire_cmdtype json = cmd \<and> word_of_int (parse_wire_sequence json) = sq"

text \<open>A reply with an image: it is kept when it is the first or of an earlier path.\<close>

definition keep_image :: "string list \<Rightarrow> string \<Rightarrow> bytes \<Rightarrow> sub_outcome \<times> nat \<Rightarrow> sub_outcome \<times> nat" where
  "keep_image paths json chunk st =
     (let rank = sub_file_reply_rank json paths
      in if chunk \<noteq> [] \<and> wire_chunk_is_image chunk \<and> (so_data (fst st) = [] \<or> rank < snd st)
         then ((fst st)\<lparr>so_data := chunk\<rparr>, rank) else st)"

function sub_file_loop :: "u32 \<Rightarrow> string list \<Rightarrow> sub_outcome \<times> nat \<Rightarrow> wire \<Rightarrow> (sub_outcome \<times> wire) option" where
  "sub_file_loop sq paths st w =
     (case recv_blocking w of
        None \<Rightarrow> None
      | Some (None, w1) \<Rightarrow> Some ((fst st)\<lparr>so_error := w_err w1\<rparr>, w1)
      | Some (Some payload, w1) \<Rightarrow>
          (let (json, chunk) = split_reply payload;
               st1 = keep_image paths json chunk st;
               result = parse_wire_result json;
               out = (fst st1)\<lparr>so_result := result\<rparr>
           in if \<not> is_reply_to kCmdSubFile sq json then sub_file_loop sq paths st w1
              else if result = 1 then sub_file_loop sq paths (out, snd st1) w1
              else if result = 0
              then Some (if so_data out \<noteq> [] then out\<lparr>so_ok := True\<rparr> else out\<lparr>so_error := ''sub_file empty payload''\<rparr>, w1)
              else if so_data out \<noteq> [] then Some (out\<lparr>so_ok := True\<rparr>, w1)
              else Some (out\<lparr>so_error := ''sub_file failed wire result='' @ dec_int result\<rparr>, w1)))"
  by pat_completeness auto
termination
  by (relation "measure (\<lambda>(sq, paths, st, w). unread (w_session w) (w_io w))") (auto dest: recv_blocking_unread)

declare sub_file_loop.simps [simp del]

definition run_sub_file :: "u32 \<Rightarrow> string list \<Rightarrow> string \<Rightarrow> wire \<Rightarrow> (sub_outcome \<times> wire) option" where
  "run_sub_file sq paths storage w =
     (if paths = [] then Some (no_sub\<lparr>so_error := ''missing sub_file paths''\<rparr>, w)
      else case drain_stale_wire_json w of
             None \<Rightarrow> None
           | Some w1 \<Rightarrow>
               (let (r, w2) = wire_send (build_sub_file_abi sq paths storage) w1
                in if r \<noteq> 0 then Some (no_sub\<lparr>so_error := w_err w2\<rparr>, w2)
                   else sub_file_loop sq paths (no_sub, 0) w2))"

text \<open>
  \<open>run_sub_file_data\<close>: one member, at most \<open>max_bytes\<close> of it. \<open>late\<close> are the answers to
  \<open>now() >= deadline\<close>, one script for each call of \<open>recv_payload_until\<close>; \<open>nonblocking\<close> tells
  whether the socket could be switched. A failed wait, a timeout and an error clear the result
  code.
\<close>

definition fail_sub :: "sub_outcome \<Rightarrow> string \<Rightarrow> sub_outcome" where
  "fail_sub out why = out\<lparr>so_result := 0, so_error := why\<rparr>"

definition recv_until :: "bool list \<Rightarrow> wire \<Rightarrow> (int \<times> bytes \<times> wire) option" where
  "recv_until late w =
     (case recv_payload_until late (w_session w) (w_io w) of
        None \<Rightarrow> None
      | Some (rc, payload, s, io) \<Rightarrow> Some (rc, payload, w\<lparr>w_session := s, w_io := io\<rparr>))"

lemma recv_until_unread:
  "recv_until late w = Some (rc, p, w') \<Longrightarrow>
   unread (w_session w') (w_io w') \<le> unread (w_session w) (w_io w) \<and>
   (rc = 0 \<longrightarrow> unread (w_session w') (w_io w') < unread (w_session w) (w_io w)) \<and> w_polls w' = w_polls w"
  by (auto simp: recv_until_def split: option.splits dest: recv_payload_unread)

function sub_data_loop ::
  "bool list list \<Rightarrow> u32 \<Rightarrow> nat \<Rightarrow> sub_outcome \<Rightarrow> wire \<Rightarrow> (sub_outcome \<times> wire) option" where
  "sub_data_loop late sq max_bytes out w =
     (case recv_until (concat (take 1 late)) w of
        None \<Rightarrow> None
      | Some (rc, payload, w1) \<Rightarrow>
          if rc = 2 then Some (fail_sub (out\<lparr>so_timed_out := True\<rparr>) ''sub_file reply timeout'', w1)
          else if rc < 0 then Some (fail_sub out (w_err w1), w1)
          else if 0 < rc
          then (if fst (wait_ssl_readable w1) < 0 then Some (fail_sub out (w_err w1), snd (wait_ssl_readable w1))
                else sub_data_loop (tl late) sq max_bytes out (snd (wait_ssl_readable w1)))
          else (let (json, chunk) = split_reply payload;
                    out1 = (if length (so_data out) < max_bytes
                            then out\<lparr>so_data := so_data out @ take (max_bytes - length (so_data out)) chunk\<rparr> else out);
                    result = parse_wire_result json
                in if \<not> is_reply_to kCmdSubFile sq json then sub_data_loop (tl late) sq max_bytes out w1
                   else if result = 1 then sub_data_loop (tl late) sq max_bytes out1 w1
                   else if result = 0 then Some (out1\<lparr>so_result := 0, so_ok := True\<rparr>, w1)
                   else Some (out1\<lparr>so_result := result,
                                   so_error := ''sub_file failed wire result='' @ dec_int result\<rparr>, w1)))"
  by pat_completeness auto
termination
  by (relation "measures [\<lambda>(late, sq, m, out, w). unread (w_session w) (w_io w), \<lambda>(late, sq, m, out, w). length (w_polls w)]")
    (auto dest!: recv_until_unread simp: wait_ssl_readable_def split: list.splits)

declare sub_data_loop.simps [simp del]

definition run_sub_file_data ::
  "bool \<Rightarrow> bool list list \<Rightarrow> u32 \<Rightarrow> string \<Rightarrow> string \<Rightarrow> nat \<Rightarrow> wire \<Rightarrow> (sub_outcome \<times> wire) option" where
  "run_sub_file_data nonblocking late sq path storage max_bytes w =
     (case drain_stale_wire_json w of
        None \<Rightarrow> None
      | Some w1 \<Rightarrow>
          (let (r, w2) = wire_send (build_sub_file_abi sq [path] storage) w1
           in if r \<noteq> 0 then Some (no_sub\<lparr>so_error := w_err w2\<rparr>, w2)
              else if \<not> nonblocking then Some (fail_sub no_sub ''socket not switched to non-blocking'', w2)
              else sub_data_loop late sq max_bytes no_sub w2))"

definition list_entries :: "json list \<Rightarrow> file_entry list" where
  "list_entries items =
     filter (\<lambda>e. fe_path e \<noteq> [])
       (map (\<lambda>item. \<lparr>fe_name = as_string (find_path item ''name''), fe_path = as_string (find_path item ''path''),
                    fe_time = as_int 0 (find_path item ''time'')\<rparr>)
         (filter is_object items))"

definition list_failed :: "int \<Rightarrow> string \<Rightarrow> list_outcome" where
  "list_failed result err = \<lparr>lo_ok = False, lo_files = [], lo_result = result, lo_error = err\<rparr>"

definition read_listing :: "string \<Rightarrow> list_outcome" where
  "read_listing json =
     (let result = parse_wire_result json
      in if result \<noteq> 0 then list_failed result (''list_info wire result='' @ dec_int result)
         else case parse_res json of
                POut \<Rightarrow> list_failed 0 ''list_info parse failed''
              | PErr perr \<Rightarrow> list_failed 0 (if perr = [] then ''list_info parse failed'' else perr)
              | POk jroot _ \<Rightarrow>
                  (let lists = find_path jroot ''reply.file_lists''
                   in if \<not> is_array lists then list_failed 0 ''list_info missing file_lists''
                      else \<lparr>lo_ok = True, lo_files = list_entries (as_array lists), lo_result = 0, lo_error = []\<rparr>))"

definition run_list_info :: "u32 \<Rightarrow> string \<Rightarrow> wire \<Rightarrow> (list_outcome \<times> wire) option" where
  "run_list_info sq storage w =
     (case drain_stale_wire_json w of
        None \<Rightarrow> None
      | Some w1 \<Rightarrow>
          (let (r, w2) = wire_send (build_list_info_abi sq ''model'' storage) w1
           in if r \<noteq> 0 then Some (list_failed 0 (w_err w2), w2)
              else case recv_wire_json kCmdListInfo sq w2 of
                     None \<Rightarrow> None
                   | Some (None, w3) \<Rightarrow> Some (list_failed 0 ''list_info reply timeout'', w3)
                   | Some (Some json, w3) \<Rightarrow> Some (read_listing json, w3)))"

section \<open>Download\<close>

text \<open>
  The callbacks: \<open>cancelled\<close> is asked with the number of the frame (download) or the offset
  reached (upload), so that it may answer anything; the values the progress callback is called
  with are part of the result.
\<close>

definition download_progress_pct :: "string \<Rightarrow> int" where
  "download_progress_pct json =
     (case parse json of
        None \<Rightarrow> - 1
      | Some jroot \<Rightarrow>
          (let reply = find_path jroot ''reply'';
               tot = as_number (- 1) (find_path reply ''total'');
               off = as_number 0 (find_path reply ''offset'');
               sz = as_number 0 (find_path reply ''size'')
           in if \<not> is_object reply then - 1
              else if tot \<le> 0 then - 1
              else (case b64_round (off + sz) of
                      None \<Rightarrow> if 0 < off + sz then 100 else 0
                    | Some s \<Rightarrow>
                        (case b64_round (s * 100) of
                           None \<Rightarrow> if 0 < s then 100 else 0
                         | Some p \<Rightarrow>
                             (let pct = (case b64_round (p / tot) of None \<Rightarrow> p / tot | Some r \<Rightarrow> r)
                              in if pct < 0 then 0 else if 100 < pct then 100 else trunc_int pct)))))"

definition reply_has_mem_dl_param :: "string \<Rightarrow> bool" where
  "reply_has_mem_dl_param json \<longleftrightarrow>
     (case parse json of
        None \<Rightarrow> False
      | Some jroot \<Rightarrow>
          (let reply = find_path jroot ''reply''
           in is_object reply \<and> is_number (find_path reply ''mem_dl_param_size'') \<and>
              0 < as_number 0 (find_path reply ''mem_dl_param_size'')))"

record download_outcome =
  do_ok :: bool
  do_data :: bytes
  do_result :: int
  do_error :: string
  do_json :: string
  do_progress :: "int list"

definition no_download :: download_outcome where
  "no_download = \<lparr>do_ok = False, do_data = [], do_result = 0, do_error = [], do_json = [], do_progress = []\<rparr>"

text \<open>One frame of the reply.\<close>

definition download_frame :: "string \<Rightarrow> bytes \<Rightarrow> download_outcome \<Rightarrow> download_outcome" where
  "download_frame json chunk out =
     (let pct = download_progress_pct json
      in out\<lparr>do_result := parse_wire_result json,
             do_data := do_data out @ (if chunk \<noteq> [] \<and> \<not> reply_has_mem_dl_param json then chunk else []),
             do_progress := do_progress out @ (if 0 \<le> pct then [pct] else [])\<rparr>)"

function download_loop ::
  "(nat \<Rightarrow> bool) \<Rightarrow> nat \<Rightarrow> download_outcome \<Rightarrow> wire \<Rightarrow> (download_outcome \<times> wire) option" where
  "download_loop cancelled n out w =
     (if cancelled n then Some (out\<lparr>do_error := ''cancelled''\<rparr>, w)
      else case recv_blocking w of
             None \<Rightarrow> None
           | Some (None, w1) \<Rightarrow> Some (out\<lparr>do_error := w_err w1\<rparr>, w1)
           | Some (Some payload, w1) \<Rightarrow>
               (let (json, chunk) = split_reply payload;
                    out1 = download_frame json chunk out;
                    result = parse_wire_result json;
                    body = parse_wire_reply_json json
                in if result = 1 then download_loop cancelled (Suc n) out1 w1
                   else if result = 0
                   then Some (out1\<lparr>do_ok := True, do_json := (if body = [] then json else body)\<rparr>, w1)
                   else Some (out1\<lparr>do_error := ''download failed wire result='' @ dec_int result\<rparr>, w1)))"
  by pat_completeness auto
termination
  by (relation "measure (\<lambda>(c, n, out, w). unread (w_session w) (w_io w))") (auto dest: recv_blocking_unread)

declare download_loop.simps [simp del]

definition run_download ::
  "(nat \<Rightarrow> bool) \<Rightarrow> u32 \<Rightarrow> string \<Rightarrow> string \<Rightarrow> wire \<Rightarrow> (download_outcome \<times> wire) option" where
  "run_download cancelled sq path target_path w =
     (if path = [] then Some (no_download\<lparr>do_error := ''missing download path''\<rparr>, w)
      else case drain_stale_wire_json w of
             None \<Rightarrow> None
           | Some w1 \<Rightarrow>
               (let (r, w2) = wire_send (build_file_download_abi sq path 0 target_path) w1
                in if r \<noteq> 0 then Some (no_download\<lparr>do_error := w_err w2\<rparr>, w2)
                   else download_loop cancelled 0 no_download w2))"

section \<open>Chunked upload\<close>

text \<open>
  MD5 of OpenSSL: whether a context is set up, whether an update (of the bytes hashed before
  with new ones) succeeds, and the digest.
\<close>

record md5_lib =
  md_init :: bool
  md_update :: "bytes \<Rightarrow> bytes \<Rightarrow> bool"
  md_final :: "bytes \<Rightarrow> bytes option"

definition hex_lower :: "bytes \<Rightarrow> string" where
  "hex_lower digest = concat (map hex2 digest)"

definition md5_finalize_lower :: "md5_lib \<Rightarrow> bytes \<Rightarrow> string" where
  "md5_finalize_lower md hashed = (case md_final md hashed of None \<Rightarrow> [] | Some d \<Rightarrow> hex_lower d)"

text \<open>
  The local file: its size when it was opened, and what reading delivers, which may have become
  shorter or longer since. A read at \<open>pos\<close> gives up to \<open>want\<close> bytes.
\<close>

record local_file =
  lf_size :: nat
  lf_content :: bytes

definition read_at :: "local_file \<Rightarrow> nat \<Rightarrow> nat \<Rightarrow> bytes" where
  "read_at f pos want = take want (drop pos (lf_content f))"

text \<open>Hashing the part the printer has already; \<open>Inr\<close> are the bytes hashed.\<close>

function hash_prefix :: "md5_lib \<Rightarrow> local_file \<Rightarrow> nat \<Rightarrow> nat \<Rightarrow> bytes \<Rightarrow> string + bytes" where
  "hash_prefix md f buffer_size offset hashed =
     (if offset \<le> length hashed then Inr hashed
      else let got = read_at f (length hashed) (min (offset - length hashed) buffer_size)
           in if got = [] then Inl ''read error hashing resume prefix''
              else if \<not> md_update md hashed got then Inl ''md5 update failed''
              else hash_prefix md f buffer_size offset (hashed @ got))"
  by pat_completeness auto
termination
  by (relation "measure (\<lambda>(md, f, b, offset, hashed). offset - length hashed)")
    (auto simp flip: length_greater_0_conv)

declare hash_prefix.simps [simp del]

text \<open>
  The loop over the chunks; the result has the error text, if any. The digest stays empty when
  no chunk was sent.
\<close>

record upload_state =
  us_frag :: u32
  us_hashed :: bytes
  us_pct :: int
  us_progress :: "int list"
  us_digest :: string

definition report_pct :: "nat \<Rightarrow> nat \<Rightarrow> upload_state \<Rightarrow> upload_state" where
  "report_pct offset fsize st =
     (let pct = int (offset * 100 mod 2 ^ 64 div fsize)
      in if pct \<noteq> us_pct st then st\<lparr>us_pct := pct, us_progress := us_progress st @ [pct]\<rparr> else st)"

definition wire_send_chunk :: "string \<Rightarrow> bytes \<Rightarrow> wire \<Rightarrow> (int \<times> wire) option" where
  "wire_send_chunk abi bin w =
     (case send_abi_json_with_binary abi bin False (w_session w) (w_io w) of
        None \<Rightarrow> None
      | Some (r, _, s, io) \<Rightarrow> Some (r, w\<lparr>w_session := s, w_io := io\<rparr>))"

function upload_chunks ::
  "md5_lib \<Rightarrow> (nat \<Rightarrow> bool) \<Rightarrow> u32 \<Rightarrow> local_file \<Rightarrow> nat \<Rightarrow> nat \<Rightarrow> upload_state \<Rightarrow> wire \<Rightarrow>
   (string option \<times> upload_state \<times> wire) option" where
  "upload_chunks md cancelled sq f buffer_size offset st w =
     (if lf_size f \<le> offset then Some (None, st, w)
      else if cancelled offset then Some (Some ''cancelled'', st, w)
      else let got = read_at f offset (min (lf_size f - offset) buffer_size);
               hashed = us_hashed st @ got;
               last_chunk = (lf_size f \<le> offset + length got);
               digest = (if last_chunk then md5_finalize_lower md hashed else [])
           in if got = [] then Some (Some ''read error'', st, w)
              else if \<not> md_update md (us_hashed st) got then Some (Some ''md5 update failed'', st, w)
              else if last_chunk \<and> digest = [] then Some (Some ''md5 finalize failed'', st, w)
              else case wire_send_chunk
                          (build_file_upload_chunk_abi sq (us_frag st) (of_nat offset) (of_nat (length got)) digest) got w of
                     None \<Rightarrow> None
                   | Some (r, w1) \<Rightarrow>
                       if r \<noteq> 0 then Some (Some (w_err w1), st, w1)
                       else upload_chunks md cancelled sq f buffer_size (offset + length got)
                              (report_pct (offset + length got) (lf_size f)
                                 (st\<lparr>us_frag := us_frag st + 1, us_hashed := hashed,
                                     us_digest := (if last_chunk then digest else us_digest st)\<rparr>)) w1)"
  by pat_completeness auto
termination
  by (relation "measure (\<lambda>(md, c, sq, f, b, offset, st, w). lf_size f - offset)")
    (auto simp flip: length_greater_0_conv)

declare upload_chunks.simps [simp del]

text \<open>The final reply: progress replies (result 1) are passed over, at most 32 in all.\<close>

fun final_result :: "nat \<Rightarrow> u32 \<Rightarrow> int \<Rightarrow> wire \<Rightarrow> (int option \<times> wire) option" where
  "final_result 0 sq rc w = Some (Some rc, w)"
| "final_result (Suc n) sq rc w =
     (case recv_wire_json kCmdFileUpload sq w of
        None \<Rightarrow> None
      | Some (None, w1) \<Rightarrow> Some (None, w1)
      | Some (Some json, w1) \<Rightarrow>
          (let result = parse_wire_result json
           in if result = 1 then final_result n sq 1 w1 else Some (Some result, w1)))"

record upload_request =
  ur_storage :: string
  ur_name :: string
  ur_local_path :: string

record upload_outcome =
  uo_ok :: bool
  uo_bytes :: nat
  uo_md5 :: string
  uo_result :: int
  uo_error :: string
  uo_json :: string
  uo_progress :: "int list"

definition no_upload :: upload_outcome where
  "no_upload = \<lparr>uo_ok = False, uo_bytes = 0, uo_md5 = [], uo_result = 0, uo_error = [], uo_json = [], uo_progress = []\<rparr>"

definition upload_failed :: "string \<Rightarrow> upload_outcome" where
  "upload_failed err = no_upload\<lparr>uo_error := err\<rparr>"

definition upload_done :: "local_file \<Rightarrow> upload_state \<Rightarrow> int \<Rightarrow> upload_outcome" where
  "upload_done f st rc =
     (let out = no_upload\<lparr>uo_bytes := lf_size f, uo_md5 := us_digest st, uo_result := rc, uo_progress := us_progress st\<rparr>
      in if rc = 0 \<or> rc = 19 then out\<lparr>uo_ok := True, uo_progress := us_progress st @ [100]\<rparr>
         else out\<lparr>uo_error := ''upload failed wire result='' @ dec_int rc\<rparr>)"

text \<open>What follows an accepted init reply.\<close>

definition upload_body ::
  "md5_lib \<Rightarrow> (nat \<Rightarrow> bool) \<Rightarrow> u32 \<Rightarrow> local_file \<Rightarrow> u32 \<Rightarrow> u64 \<Rightarrow> wire \<Rightarrow> (upload_outcome \<times> wire) option" where
  "upload_body md cancelled sq f chunk_size_kb offset w =
     (let buffer_size = unat chunk_size_kb * 1024
      in if \<not> md_init md then Some (upload_failed ''md5 init failed'', w)
         else case hash_prefix md f buffer_size (unat offset) [] of
                Inl err \<Rightarrow> Some (upload_failed err, w)
              | Inr hashed \<Rightarrow>
                  (case upload_chunks md cancelled sq f buffer_size (unat offset)
                          \<lparr>us_frag = 0, us_hashed = hashed, us_pct = - 1, us_progress = [], us_digest = []\<rparr> w of
                     None \<Rightarrow> None
                   | Some (Some err, st, w1) \<Rightarrow> Some ((upload_failed err)\<lparr>uo_progress := us_progress st\<rparr>, w1)
                   | Some (None, st, w1) \<Rightarrow>
                       (case final_result 32 sq (- 1) w1 of
                          None \<Rightarrow> None
                        | Some (None, w2) \<Rightarrow> Some ((upload_failed (w_err w2))\<lparr>uo_progress := us_progress st\<rparr>, w2)
                        | Some (Some rc, w2) \<Rightarrow> Some (upload_done f st rc, w2))))"

definition run_chunked_upload ::
  "md5_lib \<Rightarrow> (nat \<Rightarrow> bool) \<Rightarrow> (string \<Rightarrow> local_file option) \<Rightarrow> u32 \<Rightarrow> upload_request \<Rightarrow> wire \<Rightarrow>
   (upload_outcome \<times> wire) option" where
  "run_chunked_upload md cancelled open_file sq req w =
     (if ur_storage req = [] \<or> ur_name req = [] \<or> ur_local_path req = []
      then Some (upload_failed ''missing upload fields'', w)
      else case open_file (ur_local_path req) of
             None \<Rightarrow> Some (upload_failed ''cannot open local file'', w)
           | Some f \<Rightarrow>
               (case drain_stale_wire_json w of
                  None \<Rightarrow> None
                | Some w1 \<Rightarrow>
                    (let (r, w2) = wire_send (build_file_upload_init_abi sq (ur_storage req) (ur_name req) (of_nat (lf_size f))) w1
                     in if r \<noteq> 0 then Some (upload_failed (w_err w2), w2)
                        else case recv_wire_json kCmdFileUpload sq w2 of
                               None \<Rightarrow> None
                             | Some (None, w3) \<Rightarrow> Some (upload_failed (w_err w3), w3)
                             | Some (Some json, w3) \<Rightarrow>
                                 (case parse_upload_init_reply json of
                                    (rc, None) \<Rightarrow> Some ((upload_failed ''bad upload init reply'')\<lparr>uo_result := rc\<rparr>, w3)
                                  | (rc, Some (kb, offset)) \<Rightarrow> upload_body md cancelled sq f kb offset w3))))"

section \<open>Connections\<close>

record connect_params =
  cp_dev_ip :: string
  cp_dev_id :: string
  cp_port :: int
  cp_username :: string
  cp_password :: string
  cp_client_id :: string
  cp_client_ver :: string

definition connect_params_from_print :: "string \<Rightarrow> string \<Rightarrow> string \<Rightarrow> connect_params" where
  "connect_params_from_print dev_ip dev_id password =
     \<lparr>cp_dev_ip = dev_ip, cp_dev_id = dev_id, cp_port = 6000, cp_username = ''bblp'', cp_password = password,
      cp_client_id = [], cp_client_ver = []\<rparr>"

text \<open>\<open>random_uuid\<close>: the numbers below 16 that the generator draws, in order.\<close>

fun fill_uuid :: "nat list \<Rightarrow> string \<Rightarrow> string" where
  "fill_uuid ds [] = []"
| "fill_uuid ds (c # cs) =
     (if c = CHR ''x'' then hex_lower_digit (hd ds) # fill_uuid (tl ds) cs
      else if c = CHR ''y'' then hex_lower_digit (hd ds mod 4 + 8) # fill_uuid (tl ds) cs
      else c # fill_uuid ds cs)"

definition random_uuid :: "nat list \<Rightarrow> string" where
  "random_uuid ds = fill_uuid ds ''xxxxxxxx-xxxx-4xxx-yxxx-xxxxxxxxxxxx''"

text \<open>\<open>version\<close> is the version string the build defines.\<close>

definition session_cfg :: "string \<Rightarrow> nat list \<Rightarrow> connect_params \<Rightarrow> tunnel_config" where
  "session_cfg version ds p =
     \<lparr>username = cp_username p, access_code = cp_password p,
      client_id = (if cp_client_id p = [] then random_uuid ds else cp_client_id p),
      client_ver = (if cp_client_ver p \<noteq> [] then cp_client_ver p else version)\<rparr>"

text \<open>
  The serial number the TLS certificate is checked against; \<open>registry\<close> maps known addresses. A
  number found there is returned as a pointer into an object that no longer exists.
\<close>

datatype tls_serial = No_serial | Serial string | Dangling_serial

definition tls_serial_for :: "(string \<Rightarrow> string option) \<Rightarrow> connect_params \<Rightarrow> tls_serial" where
  "tls_serial_for registry p =
     (if cp_dev_id p \<noteq> [] then Serial (cp_dev_id p)
      else case registry (cp_dev_ip p) of Some s \<Rightarrow> Dangling_serial | None \<Rightarrow> No_serial)"

record connection =
  cn_wire :: "wire option"
  cn_seq :: u32
  cn_params :: connect_params

definition new_connection :: "connect_params \<Rightarrow> connection" where
  "new_connection p = \<lparr>cn_wire = None, cn_seq = 1, cn_params = p\<rparr>"

definition disconnect :: "connection \<Rightarrow> connection" where
  "disconnect cn = cn\<lparr>cn_wire := None\<rparr>"

fun handshake_loop :: "nat \<Rightarrow> tunnel_config \<Rightarrow> session \<Rightarrow> ssl_io \<Rightarrow> (bool \<times> session \<times> ssl_io) option" where
  "handshake_loop 0 cfg s io = Some (False, s, io)"
| "handshake_loop (Suc n) cfg s io =
     (case handshake_step cfg s io of
        None \<Rightarrow> None
      | Some (hs, s1, io1) \<Rightarrow>
          if hs = 0 then Some (True, s1, io1)
          else if hs < 0 then Some (False, s1, io1)
          else handshake_loop n cfg s1 io1)"

text \<open>
  What the world contributes to a connect: the dialling (a connection with the polls and the
  error text to come, or an error text), the seed of the frame numbers and the random digits.
\<close>

record dial_env =
  de_dial :: "string \<Rightarrow> int \<Rightarrow> tls_serial \<Rightarrow> string + ssl_io \<times> int list \<times> string"
  de_registry :: "string \<Rightarrow> string option"
  de_seed :: u32
  de_digits :: "nat list"
  de_version :: string

definition connection_connect :: "dial_env \<Rightarrow> connect_params \<Rightarrow> connection \<Rightarrow> (string option \<times> connection) option" where
  "connection_connect e p cn =
     (let cn1 = (disconnect cn)\<lparr>cn_params := p\<rparr>
      in case de_dial e (cp_dev_ip p) (cp_port p) (tls_serial_for (de_registry e) p) of
           Inl err \<Rightarrow> Some (Some (if err = [] then ''TLS dial failed'' else err), cn1)
         | Inr (io, polls, errtext) \<Rightarrow>
             (case handshake_loop 64 (session_cfg (de_version e) (de_digits e) p) (new_session (de_seed e)) io of
                None \<Rightarrow> None
              | Some (ok, s, io1) \<Rightarrow>
                  if ok then Some (None, cn1\<lparr>cn_wire := Some \<lparr>w_session = s, w_io = io1, w_polls = polls, w_err = errtext\<rparr>\<rparr>)
                  else Some (Some ''BambuTunnelLocal handshake failed'', cn1)))"

text \<open>\<open>next_wire_seq\<close>, and a request under the next number.\<close>

definition next_wire_seq :: "connection \<Rightarrow> u32 \<times> connection" where
  "next_wire_seq cn = (cn_seq cn, cn\<lparr>cn_seq := cn_seq cn + 1\<rparr>)"

definition with_wire :: "'a \<Rightarrow> (u32 \<Rightarrow> wire \<Rightarrow> ('a \<times> wire) option) \<Rightarrow> connection \<Rightarrow> ('a \<times> connection) option" where
  "with_wire not_connected f cn =
     (case cn_wire cn of
        None \<Rightarrow> Some (not_connected, cn)
      | Some w \<Rightarrow>
          (let (sq, cn1) = next_wire_seq cn
           in map_option (\<lambda>(r, w1). (r, cn1\<lparr>cn_wire := Some w1\<rparr>)) (f sq w)))"

definition connection_upload ::
  "md5_lib \<Rightarrow> (nat \<Rightarrow> bool) \<Rightarrow> (string \<Rightarrow> local_file option) \<Rightarrow> upload_request \<Rightarrow> connection \<Rightarrow>
   (upload_outcome \<times> connection) option" where
  "connection_upload md cancelled open_file req =
     with_wire (upload_failed ''not connected'') (\<lambda>sq. run_chunked_upload md cancelled open_file sq req)"

definition connection_download ::
  "(nat \<Rightarrow> bool) \<Rightarrow> string \<Rightarrow> string \<Rightarrow> connection \<Rightarrow> (download_outcome \<times> connection) option" where
  "connection_download cancelled path target =
     with_wire (no_download\<lparr>do_error := ''not connected''\<rparr>) (\<lambda>sq. run_download cancelled sq path target)"

definition run_media_ability :: "u32 \<Rightarrow> wire \<Rightarrow> (upload_outcome \<times> wire) option" where
  "run_media_ability sq w =
     (let (r, w1) = wire_send (build_media_ability_abi sq) w
      in if r \<noteq> 0 then Some (upload_failed (w_err w1), w1)
         else case recv_json_payload w1 of
                None \<Rightarrow> None
              | Some (None, w2) \<Rightarrow> Some (upload_failed (w_err w2), w2)
              | Some (Some json, w2) \<Rightarrow>
                  (let body = parse_ability_reply_to_ft_json json
                   in Some (if body = [] then upload_failed ''bad ability reply''
                            else no_upload\<lparr>uo_ok := True, uo_json := body\<rparr>, w2)))"

definition query_media_ability :: "connection \<Rightarrow> (upload_outcome \<times> connection) option" where
  "query_media_ability = with_wire (upload_failed ''not connected'') run_media_ability"

text \<open>\<open>upload_file\<close> with its result code; the connection is closed in the end.\<close>

definition BAMBU_NETWORK_ERR_CANCELED :: int where
  "BAMBU_NETWORK_ERR_CANCELED = - 18"

definition upload_file ::
  "dial_env \<Rightarrow> md5_lib \<Rightarrow> (nat \<Rightarrow> bool) \<Rightarrow> (string \<Rightarrow> local_file option) \<Rightarrow> connect_params \<Rightarrow> upload_request \<Rightarrow> int \<Rightarrow>
   (int \<times> upload_outcome) option" where
  "upload_file e md cancelled open_file p req err_code =
     (case connection_connect e p (new_connection p) of
        None \<Rightarrow> None
      | Some (Some err, cn) \<Rightarrow> Some (err_code, upload_failed err)
      | Some (None, cn) \<Rightarrow>
          (case connection_upload md cancelled open_file req cn of
             None \<Rightarrow> None
           | Some (result, cn1) \<Rightarrow>
               Some (if uo_ok result then 0
                     else if uo_error result = ''cancelled'' then BAMBU_NETWORK_ERR_CANCELED
                     else err_code, result)))"

section \<open>Receiving sends nothing\<close>

definition wire_sent :: "wire \<Rightarrow> bytes" where
  "wire_sent w = sent (w_io w)"

lemma recv_payload_sent: "recv_payload_until late s io = Some (rc, p, s', io') \<Longrightarrow> sent io' = sent io"
proof (induction late s io rule: recv_payload_until.induct)
  case (1 late s io)
  from "1.prems" obtain n bodies where c: "consume_frames (recv_buf s) = Some (n, bodies)"
    by (cases "consume_frames (recv_buf s)") (auto simp: recv_payload_until.simps [of late s io])
  let ?s1 = "s\<lparr>recv_buf := drop n (recv_buf s)\<rparr>"
  obtain r s2 io2 where t: "try_read_frames ?s1 io = (r, s2, io2)" by (cases "try_read_frames ?s1 io")
  have keep: "sent io2 = sent io" using try_read_sent [OF t] by simp
  show ?case
  proof (cases bodies)
    case Nil
    have "sent io' = sent io2" if "\<not> (late \<noteq> [] \<and> hd late)" "\<not> r < 0" "\<not> 0 < r"
      using "1.IH" [OF c refl refl refl t [symmetric] refl Nil that] "1.prems" that c t Nil
      by (simp add: recv_payload_until.simps [of late s io])
    then show ?thesis using "1.prems" keep Nil c t
      by (auto simp: recv_payload_until.simps [of late s io] split: if_splits)
  next
    case (Cons body bs)
    then show ?thesis using "1.prems" c t by (auto simp: recv_payload_until.simps [of late s io])
  qed
qed

lemma recv_blocking_sent: "recv_blocking w = Some (p, w') \<Longrightarrow> wire_sent w' = wire_sent w"
proof (induction w rule: recv_blocking.induct)
  case (1 w)
  from "1.prems" obtain rc q w1 where r: "wire_recv w = Some (rc, q, w1)"
    by (cases "wire_recv w") (auto simp: recv_blocking.simps [of w])
  have "wire_sent w1 = wire_sent w"
    using r by (auto simp: wire_recv_def recv_payload_def wire_sent_def split: option.splits dest: recv_payload_sent)
  then show ?case
    using "1.prems" "1.IH" [OF r refl refl] r
    by (auto simp: recv_blocking.simps [of w] wire_sent_def split: if_splits)
qed

lemma recv_skipping_sent: "recv_skipping cmd sq n w = Some (j, w') \<Longrightarrow> wire_sent w' = wire_sent w"
  by (induction cmd sq n w rule: recv_skipping.induct)
    (auto simp: recv_json_payload_def split: option.splits if_splits dest: recv_blocking_sent)

lemma wire_drain_sent: "wire_drain w = Some (ms, w') \<Longrightarrow> wire_sent w' = wire_sent w"
  by (auto simp: wire_drain_def wire_sent_def)

lemma recv_wire_json_sent: "recv_wire_json cmd sq w = Some (j, w') \<Longrightarrow> wire_sent w' = wire_sent w"
  by (auto simp: recv_wire_json_def split: option.splits dest!: wire_drain_sent recv_skipping_sent)

lemma final_result_sent: "final_result n sq rc w = Some (r, w') \<Longrightarrow> wire_sent w' = wire_sent w"
  by (induction n sq rc w rule: final_result.induct)
    (auto simp: Let_def split: option.splits if_splits dest: recv_wire_json_sent)

lemma wire_send_sent:
  "wire_send abi w = (0, w') \<Longrightarrow>
   wire_sent w' = wire_sent w @ frame (kMagicCtrlClient, seq_no (w_session w), bytes_of_string (wrap_ctrl_abi abi))"
  by (auto simp: wire_send_def send_abi_json_def wire_sent_def dest: send_frame_state(4) split: prod.splits)

lemma wire_send_chunk_sent:
  assumes "wire_send_chunk abi bin w = Some (0, w')" "bin \<noteq> []"
  shows "wire_sent w' = wire_sent w @ frame (kMagicCtrlClient, seq_no (w_session w),
    bytes_of_string (wrap_ctrl_abi_with_binary abi bin))"
  using assms
  by (auto simp: wire_send_chunk_def send_abi_json_with_binary_def send_abi_json_with_binary_stream_def Let_def
      wrap_ctrl_abi_with_binary_def wire_sent_def split: prod.splits if_splits dest!: send_frame_state(4))

section \<open>What is received came from the peer\<close>

text \<open>
  The bytes still to come, buffered or not, and the bodies of the frames they hold. An operation
  that receives takes bodies from the front; what it returns is one of those it took.
\<close>

definition incoming :: "wire \<Rightarrow> bytes" where
  "incoming w = recv_buf (w_session w) @ rx_bytes (w_io w)"

definition bodies_in :: "bytes \<Rightarrow> bytes list" where
  "bodies_in b = (case consume_frames b of None \<Rightarrow> [] | Some (n, bs) \<Rightarrow> bs)"

definition takes :: "bytes list \<Rightarrow> bytes \<Rightarrow> bytes \<Rightarrow> bool" where
  "takes pre a b \<longleftrightarrow> well_framed b \<and> bodies_in a = pre @ bodies_in b"

lemma takes_refl: "well_framed a \<Longrightarrow> takes [] a a"
  by (simp add: takes_def)

lemma takes_trans: "takes p a b \<Longrightarrow> takes q b c \<Longrightarrow> takes (p @ q) a c"
  by (simp add: takes_def)

lemma takes_well_framed: "takes p a b \<Longrightarrow> well_framed b"
  by (simp add: takes_def)

lemma takes_consumed:
  assumes "well_framed (a @ b)" "consume_frames a = Some (n, bs)"
  shows "takes bs (a @ b) (drop n a @ b)"
proof -
  have wf: "well_framed (drop n a @ b)" using frames.ok_rest [OF assms] .
  then obtain m cs where "consume_frames (drop n a @ b) = Some (m, cs)" using frames.dec_defined by blast
  then show ?thesis using frames.dec_append [OF assms(2), of b] wf by (simp add: takes_def bodies_in_def)
qed

lemma recv_payload_takes:
  "recv_payload_until late s io = Some (rc, p, s', io') \<Longrightarrow> well_framed (recv_buf s @ rx_bytes io) \<Longrightarrow>
   \<exists>pre. takes pre (recv_buf s @ rx_bytes io) (recv_buf s' @ rx_bytes io') \<and> (rc = 0 \<longrightarrow> p \<in> set pre)"
proof (induction late s io rule: recv_payload_until.induct)
  case (1 late s io)
  from "1.prems" obtain n bodies where c: "consume_frames (recv_buf s) = Some (n, bodies)"
    by (cases "consume_frames (recv_buf s)") (auto simp: recv_payload_until.simps [of late s io])
  let ?s1 = "s\<lparr>recv_buf := drop n (recv_buf s)\<rparr>"
  obtain r s2 io2 where t: "try_read_frames ?s1 io = (r, s2, io2)" by (cases "try_read_frames ?s1 io")
  have here: "takes bodies (recv_buf s @ rx_bytes io) (recv_buf ?s1 @ rx_bytes io)"
    using takes_consumed [OF "1.prems"(2) c] by simp
  have same: "recv_buf s2 @ rx_bytes io2 = recv_buf ?s1 @ rx_bytes io" using try_read_bytes [OF t] by auto
  show ?case
  proof (cases bodies)
    case Nil
    have "\<exists>pre. takes pre (recv_buf s2 @ rx_bytes io2) (recv_buf s' @ rx_bytes io') \<and> (rc = 0 \<longrightarrow> p \<in> set pre)"
      if "\<not> (late \<noteq> [] \<and> hd late)" "\<not> r < 0" "\<not> 0 < r"
      using "1.IH" [OF c refl refl refl t [symmetric] refl Nil that] "1.prems" that c t Nil same takes_well_framed [OF here]
      by (simp add: recv_payload_until.simps [of late s io])
    then have "(late \<noteq> [] \<and> hd late \<or> r < 0 \<or> 0 < r) \<and> rc \<noteq> 0 \<and> recv_buf s' @ rx_bytes io' = recv_buf ?s1 @ rx_bytes io \<or>
        (\<exists>pre. takes pre (recv_buf ?s1 @ rx_bytes io) (recv_buf s' @ rx_bytes io') \<and> (rc = 0 \<longrightarrow> p \<in> set pre))"
      using "1.prems"(1) Nil c t same by (auto simp: recv_payload_until.simps [of late s io] split: if_splits)
    then show ?thesis
    proof
      assume "(late \<noteq> [] \<and> hd late \<or> r < 0 \<or> 0 < r) \<and> rc \<noteq> 0 \<and> recv_buf s' @ rx_bytes io' = recv_buf ?s1 @ rx_bytes io"
      then show ?thesis using here by (intro exI [of _ bodies]) simp
    next
      assume "\<exists>pre. takes pre (recv_buf ?s1 @ rx_bytes io) (recv_buf s' @ rx_bytes io') \<and> (rc = 0 \<longrightarrow> p \<in> set pre)"
      then show ?thesis using takes_trans [OF here] Nil by auto
    qed
  next
    case (Cons body bs)
    then have "rc = 0 \<and> p = body \<and> s' = ?s1 \<and> io' = io"
      using "1.prems"(1) c t by (auto simp: recv_payload_until.simps [of late s io])
    then show ?thesis using here Cons by (intro exI [of _ bodies]) simp
  qed
qed

lemma wire_recv_takes:
  "wire_recv w = Some (rc, p, w') \<Longrightarrow> well_framed (incoming w) \<Longrightarrow>
   \<exists>pre. takes pre (incoming w) (incoming w') \<and> (rc = 0 \<longrightarrow> p \<in> set pre)"
  by (auto simp: wire_recv_def recv_payload_def incoming_def split: option.splits dest: recv_payload_takes)

lemma recv_blocking_takes:
  "recv_blocking w = Some (q, w') \<Longrightarrow> well_framed (incoming w) \<Longrightarrow>
   \<exists>pre. takes pre (incoming w) (incoming w') \<and> (\<forall>p. q = Some p \<longrightarrow> p \<in> set pre)"
proof (induction w rule: recv_blocking.induct)
  case (1 w)
  from "1.prems" obtain rc q1 w1 where r: "wire_recv w = Some (rc, q1, w1)"
    by (cases "wire_recv w") (auto simp: recv_blocking.simps [of w])
  obtain pre where pre: "takes pre (incoming w) (incoming w1)" "rc = 0 \<longrightarrow> q1 \<in> set pre"
    using wire_recv_takes [OF r "1.prems"(2)] by blast
  have wait: "incoming (snd (wait_ssl_readable w1)) = incoming w1" by (simp add: incoming_def)
  consider "rc = 0" "q = Some q1" "w' = w1" | "q = None" "incoming w' = incoming w1"
    | "rc \<noteq> 0" "\<not> rc < 0" "\<not> fst (wait_ssl_readable w1) < 0" "recv_blocking (snd (wait_ssl_readable w1)) = Some (q, w')"
    using "1.prems"(1) r wait by (auto simp: recv_blocking.simps [of w] split: if_splits)
  then show ?case
  proof cases
    case 1
    then show ?thesis using pre by auto
  next
    case 2
    then show ?thesis using pre(1) by auto
  next
    case 3
    obtain pre2 where "takes pre2 (incoming w1) (incoming w')" "\<forall>p. q = Some p \<longrightarrow> p \<in> set pre2"
      using "1.IH" [OF r refl refl 3(1-4)] takes_well_framed [OF pre(1)] wait by auto
    then show ?thesis using takes_trans [OF pre(1)] by (intro exI [of _ "pre @ pre2"]) auto
  qed
qed

text \<open>A reply that is accepted is the JSON part of a body that was taken.\<close>

definition reply_in :: "int \<Rightarrow> u32 \<Rightarrow> bytes list \<Rightarrow> string \<Rightarrow> bool" where
  "reply_in cmd sq bodies json \<longleftrightarrow> try_accept cmd sq json \<and> (\<exists>b \<in> set bodies. json = fst (split_reply b))"

lemma reply_in_append: "reply_in cmd sq p json \<or> reply_in cmd sq q json \<Longrightarrow> reply_in cmd sq (p @ q) json"
  by (auto simp: reply_in_def)

lemma recv_skipping_takes:
  "recv_skipping cmd sq n w = Some (q, w') \<Longrightarrow> well_framed (incoming w) \<Longrightarrow>
   \<exists>pre. takes pre (incoming w) (incoming w') \<and> (\<forall>json. q = Some json \<longrightarrow> reply_in cmd sq pre json)"
proof (induction n arbitrary: w)
  case 0
  then show ?case using takes_refl by (intro exI [of _ "[]"]) simp
next
  case (Suc n)
  obtain p w1 where p: "recv_blocking w = Some (p, w1)"
    using Suc.prems(1) by (cases "recv_blocking w") (auto simp: recv_json_payload_def)
  obtain pre where pre: "takes pre (incoming w) (incoming w1)" "\<forall>x. p = Some x \<longrightarrow> x \<in> set pre"
    using recv_blocking_takes [OF p Suc.prems(2)] by blast
  show ?case
  proof (cases p)
    case None
    then have "q = None" "w' = w1" using Suc.prems(1) p by (auto simp: recv_json_payload_def)
    then show ?thesis using pre(1) by auto
  next
    case (Some x)
    let ?j = "fst (split_reply x)"
    have x: "x \<in> set pre" using pre(2) Some by simp
    show ?thesis
    proof (cases "try_accept cmd sq ?j")
      case True
      then have "q = Some ?j" "w' = w1" using Suc.prems(1) p Some by (auto simp: recv_json_payload_def)
      then show ?thesis using pre(1) True x by (intro exI [of _ pre]) (auto simp: reply_in_def)
    next
      case False
      then have "recv_skipping cmd sq n w1 = Some (q, w')" using Suc.prems(1) p Some by (simp add: recv_json_payload_def)
      then obtain pre2 where "takes pre2 (incoming w1) (incoming w')" "\<forall>json. q = Some json \<longrightarrow> reply_in cmd sq pre2 json"
        using Suc.IH takes_well_framed [OF pre(1)] by blast
      then show ?thesis using takes_trans [OF pre(1)] reply_in_append by (intro exI [of _ "pre @ pre2"]) blast
    qed
  qed
qed

lemma body_message: "m \<in> set (body_messages b) \<Longrightarrow> m = fst (split_reply b)"
  by (auto simp: body_messages_def split_reply_def split: option.splits if_splits)

lemma wire_drain_takes:
  assumes "wire_drain w = Some (msgs, w')" "well_framed (incoming w)"
  shows "\<exists>n bs. consume_frames (recv_buf (w_session w)) = Some (n, bs) \<and> takes bs (incoming w) (incoming w') \<and>
    (\<forall>m \<in> set msgs. \<exists>b \<in> set bs. m = fst (split_reply b))"
proof -
  have "well_framed (recv_buf (w_session w))" using frames.ok_prefix assms(2) unfolding incoming_def by blast
  then obtain n bs where n: "consume_frames (recv_buf (w_session w)) = Some (n, bs)" using frames.dec_defined by blast
  have "msgs = concat (map body_messages bs)" "incoming w' = drop n (recv_buf (w_session w)) @ rx_bytes (w_io w)"
    using assms(1) take_pending_consume [OF n] by (auto simp: wire_drain_def drain_pending_wire_json_def incoming_def)
  then show ?thesis
    using n takes_consumed [OF assms(2) [unfolded incoming_def] n] body_message by (fastforce simp: incoming_def)
qed

lemma recv_wire_json_takes:
  assumes "recv_wire_json cmd sq w = Some (q, w')" "well_framed (incoming w)"
  shows "\<exists>pre. takes pre (incoming w) (incoming w') \<and> (\<forall>json. q = Some json \<longrightarrow> reply_in cmd sq pre json)"
proof -
  obtain pending w1 where d: "wire_drain w = Some (pending, w1)"
    using assms(1) by (cases "wire_drain w") (auto simp: recv_wire_json_def)
  obtain bs where bs: "takes bs (incoming w) (incoming w1)" "\<forall>m \<in> set pending. \<exists>b \<in> set bs. m = fst (split_reply b)"
    using wire_drain_takes [OF d assms(2)] by blast
  show ?thesis
  proof (cases "find (try_accept cmd sq) pending")
    case (Some json)
    then have "q = Some json" "w' = w1" using assms(1) d by (auto simp: recv_wire_json_def)
    moreover have "try_accept cmd sq json" "json \<in> set pending" using Some by (auto simp: find_Some_iff)
    ultimately show ?thesis using bs by (intro exI [of _ bs]) (auto simp: reply_in_def)
  next
    case None
    then have sk: "recv_skipping cmd sq 32 w1 = Some (q, w')" using assms(1) d by (simp add: recv_wire_json_def)
    obtain pre where "takes pre (incoming w1) (incoming w')" "\<forall>json. q = Some json \<longrightarrow> reply_in cmd sq pre json"
      using recv_skipping_takes [OF sk takes_well_framed [OF bs(1)]] by blast
    then show ?thesis using takes_trans [OF bs(1)] reply_in_append by (intro exI [of _ "bs @ pre"]) blast
  qed
qed

text \<open>A final result other than the one the loop starts with is what an accepted reply says.\<close>

lemma final_result_takes:
  "final_result n sq rc w = Some (Some r, w') \<Longrightarrow> well_framed (incoming w) \<Longrightarrow> r \<noteq> rc \<Longrightarrow> r \<noteq> 1 \<Longrightarrow>
   \<exists>pre json. takes pre (incoming w) (incoming w') \<and> reply_in kCmdFileUpload sq pre json \<and> parse_wire_result json = r"
proof (induction n arbitrary: rc w)
  case (Suc n)
  obtain json w1 where j: "recv_wire_json kCmdFileUpload sq w = Some (Some json, w1)"
    using Suc.prems(1) by (auto split: option.splits)
  obtain pre where pre: "takes pre (incoming w) (incoming w1)" "reply_in kCmdFileUpload sq pre json"
    using recv_wire_json_takes [OF j Suc.prems(2)] by blast
  show ?case
  proof (cases "parse_wire_result json = 1")
    case True
    then have "final_result n sq 1 w1 = Some (Some r, w')" using Suc.prems(1) j by simp
    then obtain pre2 json2 where "takes pre2 (incoming w1) (incoming w')" "reply_in kCmdFileUpload sq pre2 json2" "parse_wire_result json2 = r"
      using Suc.IH takes_well_framed [OF pre(1)] Suc.prems(4) by blast
    then show ?thesis using takes_trans [OF pre(1)] reply_in_append by blast
  next
    case False
    then have "parse_wire_result json = r" "w' = w1" using Suc.prems(1) j by auto
    then show ?thesis using pre by blast
  qed
qed simp

lemma send_frame_incoming:
  "send_frame mag p s io = (r, s', io') \<Longrightarrow> recv_buf s' @ rx_bytes io' = recv_buf s @ rx_bytes io"
  using send_frame_state(1,2) [of mag p s io r s' io'] by (simp add: rx_bytes_def)

lemma wire_send_incoming: "wire_send abi w = (r, w') \<Longrightarrow> incoming w' = incoming w"
  by (auto simp: wire_send_def send_abi_json_def incoming_def split: prod.splits dest: send_frame_incoming)

lemma wire_send_chunk_incoming: "wire_send_chunk abi bin w = Some (r, w') \<Longrightarrow> incoming w' = incoming w"
  by (auto simp: wire_send_chunk_def send_abi_json_with_binary_def send_abi_json_with_binary_stream_def send_abi_json_def Let_def
      incoming_def split: prod.splits if_splits dest: send_frame_incoming)

section \<open>What the printer makes of an upload\<close>

text \<open>
  The other end: it appends the data of a chunk when the chunk is the next one, by its fragment
  number, offset and size, and remembers the digest a chunk carries.
\<close>

definition take_chunk :: "u32 \<Rightarrow> u32 \<Rightarrow> bytes \<Rightarrow> bytes \<Rightarrow> (bytes \<times> string) option" where
  "take_chunk sq frag have body =
     (case split_json_prefix body of
        None \<Rightarrow> None
      | Some (js, bin) \<Rightarrow>
          (case parse js of
             None \<Rightarrow> None
           | Some r \<Rightarrow>
               if as_int 0 (find_path r ''mtype'') = kMtypeCtrlJson \<and> as_int 0 (find_path r ''cmdtype'') = kCmdFileUpload \<and>
                  as_int 0 (find_path r ''sequence'') = uint sq \<and> as_int 0 (find_path r ''frag_id'') = uint frag \<and>
                  as_int 0 (find_path r ''req.offset'') = int (length have) \<and>
                  as_int 0 (find_path r ''req.size'') = int (length bin)
               then Some (have @ bin, as_string (find_path r ''req.file_md5'')) else None))"

fun take_chunks :: "u32 \<Rightarrow> u32 \<Rightarrow> bytes \<Rightarrow> string \<Rightarrow> bytes list \<Rightarrow> (bytes \<times> string) option" where
  "take_chunks sq frag have md5 [] = Some (have, md5)"
| "take_chunks sq frag have md5 (body # bodies) =
     (if md5 \<noteq> [] then None
      else case take_chunk sq frag have body of
             None \<Rightarrow> None
           | Some (have', md5') \<Rightarrow> take_chunks sq (frag + 1) have' md5' bodies)"

lemma taken_chunk:
  assumes "length have \<le> 2 ^ 53" "length bin < 2 ^ 32"
  shows "take_chunk sq frag have (bytes_of_string (wrap_ctrl_abi_with_binary
     (build_file_upload_chunk_abi sq frag (of_nat (length have)) (of_nat (length bin)) md5) bin)) = Some (have @ bin, md5)"
proof -
  let ?off = "of_nat (length have) :: u64" and ?sz = "of_nat (length bin) :: u32"
  have off: "unat ?off = length have" using assms(1) by (simp add: unsigned_of_nat take_bit_nat_eq_self)
  have sz: "uint ?sz = int (length bin)" using assms(2) by (simp add: unsigned_of_nat take_bit_nat_eq_self)
  have "unat ?off \<le> 2 ^ 53" using assms(1) off by simp
  from upload_chunk_on_wire [OF this, of sq frag ?sz md5 bin] obtain js r where c:
      "split_json_prefix (bytes_of_string (wrap_ctrl_abi_with_binary
        (build_file_upload_chunk_abi sq frag ?off ?sz md5) bin)) = Some (js, bin)"
      "parse js = Some r" "as_int 0 (find_path r ''mtype'') = kMtypeCtrlJson" "as_int 0 (find_path r ''cmdtype'') = kCmdFileUpload"
      "as_int 0 (find_path r ''sequence'') = uint sq" "as_int 0 (find_path r ''frag_id'') = uint frag"
      "as_int 0 (find_path r ''req.offset'') = uint ?off" "as_int 0 (find_path r ''req.size'') = uint ?sz"
      "as_string (find_path r ''req.file_md5'') = md5"
    by (elim exE conjE) (rule that)
  have "uint ?off = int (length have)" using off by (simp only: uint_nat)
  then show ?thesis unfolding take_chunk_def c(1) option.case prod.case c(2-) sz by simp
qed

lemma read_at_extends:
  assumes "got = read_at f offset want" "got \<noteq> []"
  shows "take offset (lf_content f) @ got = take (offset + length got) (lf_content f)"
    "length (take offset (lf_content f)) = offset" "length got \<le> want"
proof -
  have "offset < length (lf_content f)" using assms by (cases "offset < length (lf_content f)") (auto simp: read_at_def)
  then show "length (take offset (lf_content f)) = offset" by simp
  show "take offset (lf_content f) @ got = take (offset + length got) (lf_content f)"
    using assms(1) by (simp add: read_at_def take_add min_def)
  show "length got \<le> want" using assms(1) by (simp add: read_at_def)
qed

lemma report_pct_same [simp]:
  "us_frag (report_pct o' n st) = us_frag st" "us_hashed (report_pct o' n st) = us_hashed st"
  "us_digest (report_pct o' n st) = us_digest st"
  by (simp_all add: report_pct_def Let_def)

text \<open>The chunks from an offset on, as the other end takes them.\<close>

lemma upload_chunks_taken:
  "upload_chunks md cancelled sq f buffer_size offset st w = Some (None, st', w') \<Longrightarrow>
   lf_size f = length (lf_content f) \<Longrightarrow> length (lf_content f) \<le> 2 ^ 53 \<Longrightarrow> buffer_size < 2 ^ 32 \<Longrightarrow>
   offset \<le> lf_size f \<Longrightarrow> us_hashed st = take offset (lf_content f) \<Longrightarrow> us_digest st = [] \<Longrightarrow>
   incoming w' = incoming w \<and>
   (\<exists>fs. wire_sent w' = wire_sent w @ concat (map frame fs) \<and> (\<forall>g \<in> set fs. fst g = kMagicCtrlClient) \<and>
     take_chunks sq (us_frag st) (take offset (lf_content f)) [] (map frame_body fs) = Some (lf_content f, us_digest st') \<and>
     us_digest st' = (if offset < lf_size f then md5_finalize_lower md (lf_content f) else []))"
proof (induction md cancelled sq f buffer_size offset st w rule: upload_chunks.induct)
  case (1 md cancelled sq f buffer_size offset st w)
  note step = upload_chunks.simps [of md cancelled sq f buffer_size offset st w]
  let ?c = "lf_content f"
  show ?case
  proof (cases "lf_size f \<le> offset")
    case True
    then have "st' = st" "w' = w" "offset = lf_size f"
      using "1.prems"(1,5) by (auto simp: step)
    then show ?thesis using "1.prems" by (intro conjI exI [of _ "[]"]) simp_all
  next
    case lt: False
    define got where "got = read_at f offset (min (lf_size f - offset) buffer_size)"
    define last_chunk where "last_chunk = (lf_size f \<le> offset + length got)"
    define digest where "digest = (if last_chunk then md5_finalize_lower md (us_hashed st @ got) else [])"
    define abi where "abi = build_file_upload_chunk_abi sq (us_frag st) (of_nat offset) (of_nat (length got)) digest"
    define st1 where "st1 = report_pct (offset + length got) (lf_size f)
      (st\<lparr>us_frag := us_frag st + 1, us_hashed := us_hashed st @ got, us_digest := (if last_chunk then digest else us_digest st)\<rparr>)"
    note defs = got_def last_chunk_def digest_def abi_def st1_def
    note step' = step [unfolded Let_def, folded got_def, folded last_chunk_def, folded digest_def, folded abi_def, folded st1_def]
    have ne: "got \<noteq> []" and up: "md_update md (us_hashed st) got" and dg: "\<not> (last_chunk \<and> digest = [])" and nc: "\<not> cancelled offset"
      using "1.prems"(1) lt by (auto simp: step' split: if_splits)
    obtain w1 where w1: "wire_send_chunk abi got w = Some (0, w1)"
      and rest: "upload_chunks md cancelled sq f buffer_size (offset + length got) st1 w1 = Some (None, st', w')"
      using "1.prems"(1) lt ne up dg nc by (auto simp: step' split: option.splits if_splits)
    note got = read_at_extends [OF got_def ne]
    have le: "offset + length got \<le> lf_size f" using got(3) lt by auto
    have here: "us_hashed st @ got = take (offset + length got) ?c" using "1.prems"(6) got(1) by simp
    define fr where "fr = (kMagicCtrlClient, seq_no (w_session w), bytes_of_string (wrap_ctrl_abi_with_binary abi got))"
    have inc: "incoming w1 = incoming w" by (rule wire_send_chunk_incoming [OF w1])
    have sent: "wire_sent w1 = wire_sent w @ frame fr" using wire_send_chunk_sent [OF w1 ne] by (simp add: fr_def)
    have "take_chunk sq (us_frag st) (take offset ?c) (frame_body fr) = Some (take offset ?c @ got, digest)"
      using taken_chunk [of "take offset ?c" got sq "us_frag st" digest] got(2,3) "1.prems"(2-4) lt
      by (simp add: fr_def abi_def frame_body_def)
    then have tc: "take_chunk sq (us_frag st) (take offset ?c) (frame_body fr) = Some (take (offset + length got) ?c, digest)"
      by (simp only: got(1))
    show ?thesis
    proof (cases last_chunk)
      case True
      then have all: "offset + length got = lf_size f" using le by (simp add: last_chunk_def)
      then have "st' = st1" "w' = w1"
        using rest by (simp_all add: upload_chunks.simps [of md cancelled sq f buffer_size "lf_size f" st1 w1])
      then show ?thesis
        using sent tc True all lt here "1.prems"(2) inc
        by (intro conjI exI [of _ "[fr]"]) (simp_all add: fr_def st1_def digest_def)
    next
      case False
      have "us_digest st1 = []" "us_hashed st1 = take (offset + length got) ?c" "us_frag st1 = us_frag st + 1"
        using False here "1.prems"(7) by (simp_all add: st1_def)
      moreover have "\<not> \<not> md_update md (us_hashed st) got" "\<not> (0 :: int) \<noteq> 0" using up by simp_all
      ultimately obtain fs where fs: "wire_sent w' = wire_sent w1 @ concat (map frame fs)" "\<forall>g \<in> set fs. fst g = kMagicCtrlClient"
          "take_chunks sq (us_frag st + 1) (take (offset + length got) ?c) [] (map frame_body fs) = Some (?c, us_digest st')"
          "us_digest st' = (if offset + length got < lf_size f then md5_finalize_lower md ?c else [])" "incoming w' = incoming w1"
        using "1.IH" [OF lt nc got_def refl last_chunk_def digest_def ne _ dg w1 [unfolded abi_def] refl _ rest [unfolded st1_def]]
          "1.prems"(2-4) le by (auto simp: st1_def)
      have "offset + length got < lf_size f" "digest = []" using False by (simp_all add: last_chunk_def digest_def)
      then show ?thesis
        using fs sent tc lt inc by (intro conjI exI [of _ "fr # fs"]) (simp_all add: fr_def)
    qed
  qed
qed

lemma hash_prefix_content:
  "hash_prefix md f b offset hashed = Inr h \<Longrightarrow> hashed = take (length hashed) (lf_content f) \<Longrightarrow> length hashed \<le> offset \<Longrightarrow>
   h = take offset (lf_content f) \<and> offset \<le> length (lf_content f)"
proof (induction md f b offset hashed rule: hash_prefix.induct)
  case (1 md f b offset hashed)
  note step = hash_prefix.simps [of md f b offset hashed]
  show ?case
  proof (cases "offset \<le> length hashed")
    case True
    have "h = hashed" using "1.prems"(1) True by (simp add: step)
    moreover have "offset = length hashed" using True "1.prems"(3) by simp
    ultimately show ?thesis using "1.prems"(2) by (metis length_take min.cobounded1)
  next
    case False
    define got where "got = read_at f (length hashed) (min (offset - length hashed) b)"
    have ne: "got \<noteq> []" and up: "md_update md hashed got" and rest: "hash_prefix md f b offset (hashed @ got) = Inr h"
      using "1.prems"(1) False by (auto simp: step Let_def got_def split: if_splits)
    note got = read_at_extends [OF got_def ne]
    have "hashed @ got = take (length hashed + length got) (lf_content f)" using got(1) "1.prems"(2) by simp
    then have e: "hashed @ got = take (length (hashed @ got)) (lf_content f)" unfolding length_append .
    have l: "length (hashed @ got) \<le> offset" using got(3) False by auto
    show ?thesis by (rule "1.IH" [OF False got_def ne _ rest e l]) (simp add: up)
  qed
qed

lemma init_reply_chunk:
  assumes "parse_upload_init_reply json = (rc, Some (kb, off))"
  shows "unat kb * 1024 < 2 ^ 32"
  using upload_init_bounds [of json] assms by (simp add: word_le_nat_alt)

section \<open>A peer that answers\<close>

text \<open>
  A frame that arrives in pieces: every read delivers some bytes, and no read reaches into the
  next frame.
\<close>

definition arrives :: "u32 \<times> u32 \<times> bytes \<Rightarrow> bytes list \<Rightarrow> bool" where
  "arrives f ps \<longleftrightarrow> sized f \<and> concat ps = frame f \<and> (\<forall>p \<in> set ps. p \<noteq> [] \<and> length p \<le> 65536)"

lemma partial_take:
  assumes "sized f" "k < length (frame f)"
  shows "partial_frame (take k (frame f))"
proof -
  obtain m q b where f: "f = (m, q, b)" by (cases f) auto
  have b: "length b < 2 ^ 32 - 16" using assms(1) by (simp add: f sized_def frame_body_def)
  then have u: "unat (of_nat (length b) :: u32) = length b" by (simp add: unat_of_nat take_bit_eq_mod)
  show ?thesis
  proof (cases "k < 16")
    case True
    then show ?thesis by (simp add: partial_frame_def parse_frame_header_def f frame_def)
  next
    case False
    then have "take k (frame f) = build_frame_header (of_nat (length b)) m q @ take (k - 16) b"
      by (simp add: f frame_def)
    then show ?thesis using assms(2) b u False
      by (simp add: partial_frame_def parse_built_header) (simp add: f frame_def)
  qed
qed

lemma recv_pieces:
  "recv_buf s @ concat ps = frame f \<Longrightarrow> sized f \<Longrightarrow> rds io = map RData ps @ rs \<Longrightarrow>
   \<forall>p \<in> set ps. p \<noteq> [] \<and> length p \<le> 65536 \<Longrightarrow>
   recv_payload_until [] s io =
     Some (0, frame_body f, s\<lparr>recv_buf := [], rx_total := rx_total s + length (concat ps)\<rparr>, io\<lparr>rds := rs\<rparr>)"
proof (induction ps arbitrary: s io)
  case Nil
  then show ?case
    by (simp add: recv_payload_until.simps [of "[]" s io] consume_one Let_def split: prod.split)
next
  case (Cons p ps)
  have "recv_buf s = take (length (recv_buf s)) (frame f)" "length (recv_buf s) < length (frame f)"
    using Cons.prems(1,4) by (simp_all flip: Cons.prems(1))
  then have "consume_frames (recv_buf s) = Some (0, [])"
    using consume_partial partial_take [OF Cons.prems(2)] by metis
  moreover have "try_read_frames s io = (0, s\<lparr>recv_buf := recv_buf s @ p, rx_total := rx_total s + length p\<rparr>,
      io\<lparr>rds := map RData ps @ rs\<rparr>)"
    using Cons.prems(3,4) by (intro try_read_data) simp_all
  ultimately show ?case
    using Cons.IH [of "s\<lparr>recv_buf := recv_buf s @ p, rx_total := rx_total s + length p\<rparr>" "io\<lparr>rds := map RData ps @ rs\<rparr>"] Cons.prems
    by (simp add: recv_payload_until.simps [of "[]" s io] Let_def)
qed

text \<open>Nothing is buffered, every write succeeds, and the reads to come are known.\<close>

definition idle :: "wire \<Rightarrow> read_result list \<Rightarrow> bool" where
  "idle w rs \<longleftrightarrow> recv_buf (w_session w) = [] \<and> rds (w_io w) = rs \<and> wrs (w_io w) = []"

lemma idle_recv:
  assumes "idle w (map RData ps @ rs)" "arrives f ps"
  shows "\<exists>w'. recv_blocking w = Some (Some (frame_body f), w') \<and> idle w' rs"
proof -
  have "recv_payload_until [] (w_session w) (w_io w) = Some (0, frame_body f,
      (w_session w)\<lparr>recv_buf := [], rx_total := rx_total (w_session w) + length (concat ps)\<rparr>, (w_io w)\<lparr>rds := rs\<rparr>)"
    using assms by (intro recv_pieces) (simp_all add: idle_def arrives_def)
  then show ?thesis using assms(1)
    by (simp add: recv_blocking.simps [of w] wire_recv_def recv_payload_def idle_def)
qed

lemma idle_drain: "idle w rs \<Longrightarrow> \<exists>w'. wire_drain w = Some ([], w') \<and> idle w' rs"
  by (simp add: wire_drain_def drain_pending_wire_json_def idle_def take_pending_wire_json.simps [of "[]"]
      consume_frames.simps [of "[]"] parse_frame_header_def)

lemma idle_drain_stale: "idle w rs \<Longrightarrow> \<exists>w'. drain_stale_wire_json w = Some w' \<and> idle w' rs"
  using idle_drain [of w rs] by (auto simp: drain_stale_wire_json_def)

lemma idle_send: "idle w rs \<Longrightarrow> \<exists>w'. wire_send abi w = (0, w') \<and> idle w' rs"
  by (simp add: wire_send_def send_abi_json_def idle_def send_frame_ok)

lemma idle_send_chunk: "idle w rs \<Longrightarrow> \<exists>w'. wire_send_chunk abi bin w = Some (0, w') \<and> idle w' rs"
  by (simp add: wire_send_chunk_def send_abi_json_with_binary_def send_abi_json_with_binary_stream_def
      send_abi_json_def idle_def send_frame_ok Let_def)

lemma idle_wire_json:
  assumes "idle w (map RData ps @ rs)" "arrives f ps" "try_accept cmd sq (fst (split_reply (frame_body f)))"
  shows "\<exists>w'. recv_wire_json cmd sq w = Some (Some (fst (split_reply (frame_body f))), w') \<and> idle w' rs"
proof -
  from idle_drain [OF assms(1)] obtain w1 where w1: "wire_drain w = Some ([], w1)" "idle w1 (map RData ps @ rs)" by blast
  from idle_recv [OF w1(2) assms(2)] obtain w2 where w2: "recv_blocking w1 = Some (Some (frame_body f), w2)" "idle w2 rs" by blast
  have "recv_skipping cmd sq (Suc n) w1 = Some (Some (fst (split_reply (frame_body f))), w2)" for n
    using assms(3) w2(1) by (simp add: recv_json_payload_def)
  from this [of 31] have "recv_skipping cmd sq 32 w1 = Some (Some (fst (split_reply (frame_body f))), w2)" by simp
  then show ?thesis using w1(1) w2(2) by (simp add: recv_wire_json_def)
qed

text \<open>An MD5 that never fails.\<close>

definition md5_works :: "md5_lib \<Rightarrow> bool" where
  "md5_works md \<longleftrightarrow> md_init md \<and> (\<forall>a b. md_update md a b) \<and> (\<forall>a. \<exists>d. md_final md a = Some d \<and> d \<noteq> [])"

lemma md5_works_digest: "md5_works md \<Longrightarrow> md5_finalize_lower md h \<noteq> []"
  unfolding md5_works_def md5_finalize_lower_def hex_lower_def
  by (elim conjE allE [of _ h] exE) (auto simp: hex2_def neq_Nil_conv)

lemma upload_chunks_complete:
  "md5_works md \<Longrightarrow> \<forall>n. \<not> cancelled n \<Longrightarrow> 0 < buffer_size \<Longrightarrow> lf_size f = length (lf_content f) \<Longrightarrow> idle w rs \<Longrightarrow>
   \<exists>st' w'. upload_chunks md cancelled sq f buffer_size offset st w = Some (None, st', w') \<and> idle w' rs"
proof (induction md cancelled sq f buffer_size offset st w rule: upload_chunks.induct)
  case (1 md cancelled sq f buffer_size offset st w)
  note step = upload_chunks.simps [of md cancelled sq f buffer_size offset st w]
  show ?case
  proof (cases "lf_size f \<le> offset")
    case True
    then show ?thesis using "1.prems"(5) by (simp add: step)
  next
    case lt: False
    define got where "got = read_at f offset (min (lf_size f - offset) buffer_size)"
    define last_chunk where "last_chunk = (lf_size f \<le> offset + length got)"
    define digest where "digest = (if last_chunk then md5_finalize_lower md (us_hashed st @ got) else [])"
    define abi where "abi = build_file_upload_chunk_abi sq (us_frag st) (of_nat offset) (of_nat (length got)) digest"
    note step' = step [unfolded Let_def, folded got_def, folded last_chunk_def, folded digest_def, folded abi_def]
    have ne: "got \<noteq> []" using lt "1.prems"(3,4) by (simp add: got_def read_at_def)
    have up: "\<not> \<not> md_update md (us_hashed st) got" using "1.prems"(1) by (simp add: md5_works_def)
    have dg: "\<not> (last_chunk \<and> digest = [])" using md5_works_digest [OF "1.prems"(1)] by (simp add: digest_def)
    from idle_send_chunk [OF "1.prems"(5), of abi got] obtain w1 where
      w1: "wire_send_chunk abi got w = Some (0, w1)" "idle w1 rs" by blast
    have nc: "\<not> cancelled offset" using "1.prems"(2) by simp
    show ?thesis
      using "1.IH" [OF lt nc got_def refl last_chunk_def digest_def ne up dg w1(1) [unfolded abi_def] refl _ "1.prems"(1-4) w1(2)]
        lt nc ne up dg w1(1) by (simp add: step' del: upload_chunks.simps)
  qed
qed

lemma hash_prefix_complete:
  "\<forall>a b. md_update md a b \<Longrightarrow> 0 < b \<Longrightarrow> offset \<le> length (lf_content f) \<Longrightarrow> \<exists>h. hash_prefix md f b offset hashed = Inr h"
proof (induction md f b offset hashed rule: hash_prefix.induct)
  case (1 md f b offset hashed)
  note step = hash_prefix.simps [of md f b offset hashed]
  show ?case
  proof (cases "offset \<le> length hashed")
    case False
    then have "read_at f (length hashed) (min (offset - length hashed) b) \<noteq> []"
      using "1.prems"(2,3) by (simp add: read_at_def)
    then show ?thesis using "1.IH" [OF False refl] "1.prems" False by (simp add: step Let_def)
  qed (simp add: step)
qed

lemma upload_answered:
  assumes "md5_works md" "\<forall>n. \<not> cancelled n" "ur_storage req \<noteq> []" "ur_name req \<noteq> []" "ur_local_path req \<noteq> []"
    and "open_file (ur_local_path req) = Some f" "lf_size f = length (lf_content f)"
    and "idle w (map RData ps @ map RData qs @ rs)" "arrives g ps" "arrives h qs"
    and "try_accept kCmdFileUpload sq (fst (split_reply (frame_body g)))"
    and "parse_upload_init_reply (fst (split_reply (frame_body g))) = (rc, Some (kb, off))" "unat off \<le> lf_size f"
    and "try_accept kCmdFileUpload sq (fst (split_reply (frame_body h)))"
    and "parse_wire_result (fst (split_reply (frame_body h))) \<in> {0, 19}"
  shows "\<exists>out w'. run_chunked_upload md cancelled open_file sq req w = Some (out, w') \<and> uo_ok out \<and> idle w' rs"
proof -
  let ?abi = "build_file_upload_init_abi sq (ur_storage req) (ur_name req) (of_nat (lf_size f))"
  let ?ji = "fst (split_reply (frame_body g))" and ?jf = "fst (split_reply (frame_body h))"
  from idle_drain_stale [OF assms(8)] obtain w1 where
    w1: "drain_stale_wire_json w = Some w1" "idle w1 (map RData ps @ map RData qs @ rs)" by blast
  from idle_send [OF w1(2), of ?abi] obtain w2 where
    w2: "wire_send ?abi w1 = (0, w2)" "idle w2 (map RData ps @ map RData qs @ rs)" by blast
  from idle_wire_json [OF w2(2) assms(9,11)] obtain w3 where
    w3: "recv_wire_json kCmdFileUpload sq w2 = Some (Some ?ji, w3)" "idle w3 (map RData qs @ rs)" by blast
  have run: "run_chunked_upload md cancelled open_file sq req w = upload_body md cancelled sq f kb off w3"
    using assms(3-6,12) w1(1) w2(1) w3(1) by (simp add: run_chunked_upload_def Let_def)
  have "0 < unat kb" using upload_init_bounds [of ?ji] assms(12) by (simp add: word_less_nat_alt)
  then have b: "0 < unat kb * 1024" by simp
  have "\<forall>a b. md_update md a b" using assms(1) by (simp add: md5_works_def)
  then obtain hashed where hp: "hash_prefix md f (unat kb * 1024) (unat off) [] = Inr hashed"
    using hash_prefix_complete [OF _ b, of md "unat off" f "[]"] assms(7,13) by auto
  let ?st = "\<lparr>us_frag = 0, us_hashed = hashed, us_pct = - 1, us_progress = [], us_digest = []\<rparr>"
  from upload_chunks_complete [OF assms(1,2) b assms(7) w3(2), of sq "unat off" ?st] obtain st' w4 where
    w4: "upload_chunks md cancelled sq f (unat kb * 1024) (unat off) ?st w3 = Some (None, st', w4)" "idle w4 (map RData qs @ rs)"
    by blast
  from idle_wire_json [OF w4(2) assms(10,14)] obtain w5 where
    w5: "recv_wire_json kCmdFileUpload sq w4 = Some (Some ?jf, w5)" "idle w5 rs" by blast
  have "final_result (Suc n) sq (- 1) w4 = Some (Some (parse_wire_result ?jf), w5)" for n
    using w5(1) assms(15) by auto
  from this [of 31] have "final_result 32 sq (- 1) w4 = Some (Some (parse_wire_result ?jf), w5)" by simp
  then have "upload_body md cancelled sq f kb off w3 = Some (upload_done f st' (parse_wire_result ?jf), w5)"
    using assms(1) hp w4(1) by (simp add: upload_body_def md5_works_def Let_def)
  moreover have "uo_ok (upload_done f st' (parse_wire_result ?jf))"
    using assms(15) by (auto simp: upload_done_def Let_def)
  ultimately show ?thesis using run w5(2) by simp
qed

text \<open>The data of one download frame.\<close>

definition frame_data :: "bytes \<Rightarrow> bytes" where
  "frame_data body = (case split_reply body of (json, chunk) \<Rightarrow> if reply_has_mem_dl_param json then [] else chunk)"

lemma download_frame_data:
  "split_reply body = (json, chunk) \<Longrightarrow> do_data (download_frame json chunk out) = do_data out @ frame_data body"
  by (auto simp: download_frame_def frame_data_def Let_def)

lemma download_loop_answered:
  "\<forall>n. \<not> cancelled n \<Longrightarrow> idle w (concat (map (map RData \<circ> snd) (xs @ [x])) @ rs) \<Longrightarrow> \<forall>(g, ps) \<in> set (xs @ [x]). arrives g ps \<Longrightarrow>
   \<forall>g \<in> fst ` set xs. parse_wire_result (fst (split_reply (frame_body g))) = 1 \<Longrightarrow>
   parse_wire_result (fst (split_reply (frame_body (fst x)))) = 0 \<Longrightarrow>
   \<exists>out' w'. download_loop cancelled n out w = Some (out', w') \<and> do_ok out' \<and> idle w' rs \<and>
     do_data out' = do_data out @ concat (map (frame_data \<circ> frame_body \<circ> fst) (xs @ [x]))"
proof (induction xs arbitrary: n out w)
  case Nil
  obtain json chunk where s: "split_reply (frame_body (fst x)) = (json, chunk)" by (cases "split_reply (frame_body (fst x))")
  have "idle w (map RData (snd x) @ rs)" "arrives (fst x) (snd x)" using Nil.prems(2,3) by (auto simp: case_prod_unfold)
  from idle_recv [OF this] obtain w' where "recv_blocking w = Some (Some (frame_body (fst x)), w')" "idle w' rs" by blast
  moreover have "\<not> cancelled n" using Nil.prems(1) by simp
  ultimately show ?case using Nil.prems(5) s download_frame_data [OF s, of out]
    by (simp add: download_loop.simps [of cancelled n out w] Let_def)
next
  case (Cons y xs)
  obtain json chunk where s: "split_reply (frame_body (fst y)) = (json, chunk)" by (cases "split_reply (frame_body (fst y))")
  let ?rest = "concat (map (map RData \<circ> snd) (xs @ [x])) @ rs"
  have "idle w (map RData (snd y) @ ?rest)" using Cons.prems(2) by (simp add: comp_def)
  moreover have "arrives (fst y) (snd y)" using Cons.prems(3) by auto
  ultimately have "\<exists>w'. recv_blocking w = Some (Some (frame_body (fst y)), w') \<and> idle w' ?rest" by (rule idle_recv)
  then obtain w' where w': "recv_blocking w = Some (Some (frame_body (fst y)), w')" "idle w' ?rest" by blast
  have "parse_wire_result json = 1" "\<not> cancelled n" using Cons.prems(1,4) s by simp_all
  then have "download_loop cancelled n out w = download_loop cancelled (Suc n) (download_frame json chunk out) w'"
    using w'(1) s by (simp add: download_loop.simps [of cancelled n out w] Let_def)
  moreover have a: "\<forall>(g, ps) \<in> set (xs @ [x]). arrives g ps" using Cons.prems(3) by simp
  have b: "\<forall>g \<in> fst ` set xs. parse_wire_result (fst (split_reply (frame_body g))) = 1" using Cons.prems(4) by simp
  obtain out' w'' where "download_loop cancelled (Suc n) (download_frame json chunk out) w' = Some (out', w'')"
      "do_ok out'" "idle w'' rs"
      "do_data out' = do_data (download_frame json chunk out) @ concat (map (frame_data \<circ> frame_body \<circ> fst) (xs @ [x]))"
    using Cons.IH [OF Cons.prems(1) w'(2) a b Cons.prems(5), of "Suc n" "download_frame json chunk out"] by blast
  ultimately show ?case using download_frame_data [OF s, of out] by (simp add: comp_def)
qed

lemma download_loop_sent: "download_loop cancelled n out w = Some (out', w') \<Longrightarrow> wire_sent w' = wire_sent w"
proof (induction cancelled n out w rule: download_loop.induct)
  case (1 cancelled n out w)
  show ?case
  proof (cases "recv_blocking w")
    case None
    then show ?thesis using "1.prems" by (simp add: download_loop.simps [of cancelled n out w] split: if_splits)
  next
    case (Some r)
    obtain p w1 where r: "r = (p, w1)" by (cases r)
    have "wire_sent w1 = wire_sent w" using recv_blocking_sent Some r by simp
    then show ?thesis using "1.prems" "1.IH" Some r
      by (auto simp: download_loop.simps [of cancelled n out w] Let_def split: if_splits option.splits prod.splits)
  qed
qed

text \<open>Connecting to a printer that answers the handshake.\<close>

lemma handshake_loop_drive:
  "hs_drive n cfg s io = Some (0, s', io') \<Longrightarrow> handshake_loop (n + k) cfg s io = Some (True, s', io')"
  by (induction n cfg s io rule: hs_drive.induct) (auto split: option.splits if_splits)

lemma connection_answered:
  assumes "de_dial e (cp_dev_ip p) (cp_port p) (tls_serial_for (de_registry e) p) = Inr (io, polls, err)"
    and "wrs io = []" "rds io = [RData (frame (kMagicLoginServer, q1, b1)), RData (frame (m2, q2, ack))] @ rs"
    and "length b1 \<le> 65520" "length ack \<le> 65520" "ack \<noteq> []" "is_setup_ack ack"
  shows "\<exists>w. connection_connect e p cn = Some (None, \<lparr>cn_wire = Some w, cn_seq = cn_seq cn, cn_params = p\<rparr>) \<and> idle w rs"
proof -
  let ?cfg = "session_cfg (de_version e) (de_digits e) p"
  obtain s' io' where d: "hs_drive 3 ?cfg (new_session (de_seed e)) io = Some (0, s', io')" "recv_buf s' = []" "rds io' = rs" "wrs io' = []"
    using handshake_completes [OF assms(2-7), of ?cfg "de_seed e"] by blast
  from handshake_loop_drive [OF d(1), of 61] have "handshake_loop 64 ?cfg (new_session (de_seed e)) io = Some (True, s', io')" by simp
  then show ?thesis using assms(1) d(2-4) by (cases cn) (simp add: connection_connect_def disconnect_def idle_def Let_def)
qed

text \<open>A small transfer: a file of three bytes of which the printer has two.\<close>

text \<open>
  The replies an upload goes by. When the peer's bytes are frames, of which \<open>stale\<close> are buffered
  in full at the start, the init reply and the final reply are the JSON parts of two of the
  other frames, in this order.
\<close>

lemma two_positions:
  assumes "xs = p @ q @ z" "a \<in> set p" "b \<in> set q"
  shows "\<exists>i j. i < j \<and> j < length xs \<and> xs ! i = a \<and> xs ! j = b"
proof -
  obtain i j where "i < length p" "p ! i = a" "j < length q" "q ! j = b" using assms(2,3) by (auto simp: in_set_conv_nth)
  then show ?thesis by (intro exI [of _ i] exI [of _ "length p + j"]) (simp add: assms(1) nth_append)
qed

lemma upload_replies:
  assumes io: "recv_buf (w_session w) = concat (map frame stale) @ part" "part @ rx_bytes (w_io w) = concat (map frame gs) @ t"
      "\<forall>g \<in> set (stale @ gs). sized g" "partial_frame part" "partial_frame t"
    and run: "drain_stale_wire_json w = Some w1" "wire_send abi w1 = (0, w2)" "recv_wire_json kCmdFileUpload sq w2 = Some (Some json, w3)"
      "incoming w4 = incoming w3" "final_result 32 sq (- 1) w4 = Some (Some rc, w')" "rc \<in> {0, 19}"
  shows "\<exists>i j. i < j \<and> j < length gs \<and> json = fst (split_reply (frame_body (gs ! i))) \<and> try_accept kCmdFileUpload sq json \<and>
    (let final = fst (split_reply (frame_body (gs ! j))) in try_accept kCmdFileUpload sq final \<and> parse_wire_result final = rc)"
proof -
  have whole: "incoming w = concat (map frame (stale @ gs)) @ t" using io(1,2) by (simp add: incoming_def)
  then have wf: "well_framed (incoming w)" "bodies_in (incoming w) = map frame_body (stale @ gs)"
    using well_framed_frames [OF io(3,5)] consume_all_frames [OF io(3,5)] by (simp_all add: bodies_in_def)
  have "consume_frames (recv_buf (w_session w)) = Some (length (concat (map frame stale)), map frame_body stale)"
    unfolding io(1) using io(3,4) by (intro consume_all_frames) auto
  moreover obtain msgs where "wire_drain w = Some (msgs, w1)" using run(1) by (auto simp: drain_stale_wire_json_def)
  ultimately have drop: "takes (map frame_body stale) (incoming w) (incoming w1)" using wire_drain_takes wf(1) by fastforce
  then have gs: "bodies_in (incoming w2) = map frame_body gs" "well_framed (incoming w2)"
    using wf(2) wire_send_incoming [OF run(2)] by (simp_all add: takes_def)
  obtain p where p: "takes p (incoming w2) (incoming w3)" "reply_in kCmdFileUpload sq p json"
    using recv_wire_json_takes [OF run(3) gs(2)] by blast
  have "well_framed (incoming w4)" using takes_well_framed [OF p(1)] run(4) by simp
  moreover have "rc \<noteq> - 1" "rc \<noteq> 1" using run(6) by auto
  ultimately obtain q final where q: "takes q (incoming w3) (incoming w')" "reply_in kCmdFileUpload sq q final" "parse_wire_result final = rc"
    using final_result_takes [OF run(5)] run(4) by auto
  obtain a b where ab: "a \<in> set p" "json = fst (split_reply a)" "b \<in> set q" "final = fst (split_reply b)"
    using p(2) q(2) by (auto simp: reply_in_def)
  have "map frame_body gs = p @ q @ bodies_in (incoming w')" using gs(1) p(1) q(1) by (simp add: takes_def)
  from two_positions [OF this ab(1,3)] obtain i j where
    "i < j" "j < length gs" "frame_body (gs ! i) = a" "frame_body (gs ! j) = b" by auto
  then show ?thesis using ab p(2) q(2,3) by (auto simp: reply_in_def Let_def)
qed

definition demo_md5 :: md5_lib where
  "demo_md5 = \<lparr>md_init = True, md_update = (\<lambda>a b. True), md_final = (\<lambda>a. Some [of_nat (length a)])\<rparr>"

definition demo_request :: upload_request where
  "demo_request = \<lparr>ur_storage = ''emmc'', ur_name = ''a.3mf'', ur_local_path = ''a''\<rparr>"

definition demo_file :: local_file where
  "demo_file = \<lparr>lf_size = 3, lf_content = [7, 8, 9]\<rparr>"

definition demo_init :: string where
  "demo_init = [CHR 0x7B] @ escape ''cmdtype'' @ '':5,'' @ escape ''sequence'' @ '':1,'' @ escape ''result'' @ '':1,''
     @ escape ''reply'' @ '':'' @ [CHR 0x7B] @ escape ''chunk_size'' @ '':1,'' @ escape ''offset'' @ '':2'' @ [CHR 0x7D, CHR 0x7D]"

definition demo_final :: string where
  "demo_final = [CHR 0x7B] @ escape ''cmdtype'' @ '':5,'' @ escape ''sequence'' @ '':1,'' @ escape ''result'' @ '':0'' @ [CHR 0x7D]"

definition demo_frame :: "string \<Rightarrow> u32 \<times> u32 \<times> bytes" where
  "demo_frame text = (kMagicCtrlClient, 1, bytes_of_string text)"

definition demo_wire :: "string list \<Rightarrow> wire" where
  "demo_wire texts = \<lparr>w_session = new_session 1, w_io = \<lparr>rds = map (\<lambda>t. RData (frame (demo_frame t))) texts, wrs = [], sent = []\<rparr>,
     w_polls = [], w_err = []\<rparr>"

lemma demo_replies:
  "split_reply (bytes_of_string demo_init) = (demo_init, [])" "try_accept kCmdFileUpload 1 demo_init"
  "parse_upload_init_reply demo_init = (1, Some (1, 2))"
  "split_reply (bytes_of_string demo_final) = (demo_final, [])" "try_accept kCmdFileUpload 1 demo_final"
  "parse_wire_result demo_final = 0" "length demo_init < 200" "length demo_final < 200"
  by code_simp+

lemma demo_arrives: "length text < 200 \<Longrightarrow> arrives (demo_frame text) [frame (demo_frame text)]"
  by (simp add: arrives_def sized_def frame_body_def demo_frame_def length_frame)

lemma demo_idle: "idle (demo_wire texts) (map (\<lambda>t. RData (frame (demo_frame t))) texts)"
  by (simp add: idle_def demo_wire_def new_session_def)

lemma demo_works:
  "md5_works demo_md5" "ur_storage demo_request \<noteq> []" "ur_name demo_request \<noteq> []" "ur_local_path demo_request \<noteq> []"
  "lf_size demo_file = length (lf_content demo_file)"
  by (simp_all add: md5_works_def demo_md5_def demo_request_def demo_file_def)

lemma demo_body: "frame_body (demo_frame text) = bytes_of_string text"
  by (simp add: demo_frame_def frame_body_def)

section \<open>Properties\<close>

text \<open>
  C6. A successful upload leaves exactly the file with the printer. After the init request, two
  frames of the printer that were not yet buffered at the start answer this request: the first
  announces a chunk size and the offset up to which the printer has the file, the later one the
  result 0 or 19 that is reported. The frames sent in between carry chunks that, taken in order by
  their fragment numbers, offsets and sizes, continue the first part of the file, up to exactly
  that offset, to the whole file; the last one carries the file's MD5, which is also the one
  reported. The printer's bytes are frames, the file does not change while it is sent, and
  offsets are exact up to \<open>2^53\<close>.
\<close>

theorem upload_rebuilds_file:
  assumes "run_chunked_upload md cancelled open_file sq req w = Some (out, w')" "uo_ok out"
    and "open_file (ur_local_path req) = Some f" "lf_size f = length (lf_content f)" "lf_size f \<le> 2 ^ 53"
    and io: "recv_buf (w_session w) = concat (map frame stale) @ part" "part @ rx_bytes (w_io w) = concat (map frame gs) @ t"
      "\<forall>g \<in> set (stale @ gs). sized g" "partial_frame part" "partial_frame t"
  shows "\<exists>init fs i j rc kb off.
    i < j \<and> j < length gs \<and>
    (let reply = fst (split_reply (frame_body (gs ! i))); final = fst (split_reply (frame_body (gs ! j)))
     in parse_wire_cmdtype reply = 5 \<and> (sq = 0 \<or> word_of_int (parse_wire_sequence reply) = sq) \<and>
        parse_upload_init_reply reply = (rc, Some (kb, off)) \<and>
        parse_wire_cmdtype final = 5 \<and> (sq = 0 \<or> word_of_int (parse_wire_sequence final) = sq) \<and>
        parse_wire_result final = uo_result out) \<and>
    wire_sent w' = wire_sent w @ frame init @ concat (map frame fs) \<and>
    frame_body init = bytes_of_string (wrap_ctrl_abi
      (build_file_upload_init_abi sq (ur_storage req) (ur_name req) (of_nat (lf_size f)))) \<and>
    (\<forall>g \<in> set (init # fs). fst g = kMagicCtrlClient) \<and> unat off \<le> lf_size f \<and>
    take_chunks sq 0 (take (unat off) (lf_content f)) [] (map frame_body fs) = Some (lf_content f, uo_md5 out) \<and>
    uo_bytes out = lf_size f \<and> uo_result out \<in> {0, 19} \<and>
    (unat off < lf_size f \<longrightarrow> uo_md5 out = md5_finalize_lower md (lf_content f))"
proof -
  let ?abi = "build_file_upload_init_abi sq (ur_storage req) (ur_name req) (of_nat (lf_size f))"
  obtain w1 w2 json w3 rc kb off where
      w1: "drain_stale_wire_json w = Some w1" and w2: "wire_send ?abi w1 = (0, w2)"
      and w3: "recv_wire_json kCmdFileUpload sq w2 = Some (Some json, w3)"
      and init: "parse_upload_init_reply json = (rc, Some (kb, off))"
      and body: "upload_body md cancelled sq f kb off w3 = Some (out, w')"
    using assms(1-3)
    by (auto simp: run_chunked_upload_def upload_failed_def no_upload_def Let_def
        split: if_splits option.splits prod.splits)
  obtain hashed st w4 rc' where h: "hash_prefix md f (unat kb * 1024) (unat off) [] = Inr hashed"
      and up: "upload_chunks md cancelled sq f (unat kb * 1024) (unat off)
        \<lparr>us_frag = 0, us_hashed = hashed, us_pct = - 1, us_progress = [], us_digest = []\<rparr> w3 = Some (None, st, w4)"
      and fin: "final_result 32 sq (- 1) w4 = Some (Some rc', w')" and out: "out = upload_done f st rc'"
    using body assms(2)
    by (auto simp: upload_body_def upload_failed_def no_upload_def Let_def
        split: if_splits option.splits prod.splits sum.splits)
  have hs: "hashed = take (unat off) (lf_content f)" "unat off \<le> length (lf_content f)"
    using hash_prefix_content [OF h] by simp_all
  from upload_chunks_taken [OF up assms(4)] obtain fs where fs:
      "wire_sent w4 = wire_sent w3 @ concat (map frame fs)" "\<forall>g \<in> set fs. fst g = kMagicCtrlClient"
      "take_chunks sq 0 (take (unat off) (lf_content f)) [] (map frame_body fs) = Some (lf_content f, us_digest st)"
      "us_digest st = (if unat off < lf_size f then md5_finalize_lower md (lf_content f) else [])" "incoming w4 = incoming w3"
    using assms(4,5) init_reply_chunk [OF init] hs by auto
  have "wire_sent w1 = wire_sent w" using w1 by (auto simp: drain_stale_wire_json_def dest: wire_drain_sent)
  then have sent: "wire_sent w' = wire_sent w @
      frame (kMagicCtrlClient, seq_no (w_session w1), bytes_of_string (wrap_ctrl_abi ?abi)) @ concat (map frame fs)"
    using wire_send_sent [OF w2] recv_wire_json_sent [OF w3] fs(1) final_result_sent [OF fin] by simp
  have o: "uo_md5 out = us_digest st" "uo_bytes out = lf_size f" "uo_result out = rc'" "rc' \<in> {0, 19}"
    using assms(2) by (auto simp: out upload_done_def no_upload_def Let_def split: if_splits)
  obtain i j where ij: "i < j" "j < length gs" "json = fst (split_reply (frame_body (gs ! i)))" "try_accept kCmdFileUpload sq json"
      "let final = fst (split_reply (frame_body (gs ! j))) in try_accept kCmdFileUpload sq final \<and> parse_wire_result final = rc'"
    using upload_replies [OF io w1 w2 w3 fs(5) fin o(4)] by blast
  then have "let reply = fst (split_reply (frame_body (gs ! i))); final = fst (split_reply (frame_body (gs ! j)))
     in parse_wire_cmdtype reply = 5 \<and> (sq = 0 \<or> word_of_int (parse_wire_sequence reply) = sq) \<and>
        parse_upload_init_reply reply = (rc, Some (kb, off)) \<and>
        parse_wire_cmdtype final = 5 \<and> (sq = 0 \<or> word_of_int (parse_wire_sequence final) = sq) \<and>
        parse_wire_result final = uo_result out"
    using init o(3) by (simp add: try_accept_def kCmdFileUpload_def Let_def)
  then show ?thesis
    using sent fs hs assms(4) ij(1,2) o
    by (intro exI [of _ "(kMagicCtrlClient, seq_no (w_session w1), bytes_of_string (wrap_ctrl_abi ?abi))"] exI [of _ fs]
        exI [of _ i] exI [of _ j] exI [of _ rc] exI [of _ kb] exI [of _ off] conjI) (auto simp: frame_body_def)
qed

theorem upload_rebuilds_file_witness:
  "\<exists>out w' fs. run_chunked_upload demo_md5 (\<lambda>n. False) (\<lambda>p. Some demo_file) 1 demo_request (demo_wire [demo_init, demo_final])
     = Some (out, w') \<and> uo_ok out \<and>
     take_chunks 1 0 [7, 8] [] (map frame_body fs) = Some ([7, 8, 9], uo_md5 out)"
proof -
  have "idle (demo_wire [demo_init, demo_final]) (map RData [frame (demo_frame demo_init)] @ map RData [frame (demo_frame demo_final)] @ [])"
    using demo_idle [of "[demo_init, demo_final]"] by simp
  moreover have "unat (2 :: u64) \<le> lf_size demo_file" by (simp add: demo_file_def)
  ultimately obtain out w' where r: "run_chunked_upload demo_md5 (\<lambda>n. False) (\<lambda>p. Some demo_file) 1 demo_request
      (demo_wire [demo_init, demo_final]) = Some (out, w')" "uo_ok out"
    using upload_answered [where cancelled = "\<lambda>n. False" and open_file = "\<lambda>p. Some demo_file" and req = demo_request
        and g = "demo_frame demo_init" and h = "demo_frame demo_final" and rs = "[]" and sq = 1
        and ps = "[frame (demo_frame demo_init)]" and qs = "[frame (demo_frame demo_final)]" and w = "demo_wire [demo_init, demo_final]",
        OF demo_works(1) _ demo_works(2-4) refl demo_works(5)] demo_arrives demo_replies
    by (auto simp: demo_body)
  let ?gs = "[demo_frame demo_init, demo_frame demo_final]"
  have small: "lf_size demo_file \<le> 2 ^ 53" by (simp add: demo_file_def)
  have io: "recv_buf (w_session (demo_wire [demo_init, demo_final])) = concat (map frame []) @ []"
    "[] @ rx_bytes (w_io (demo_wire [demo_init, demo_final])) = concat (map frame ?gs) @ []"
    by (simp_all add: demo_wire_def new_session_def rx_bytes_def)
  have fr: "\<forall>g \<in> set ([] @ ?gs). sized g" "partial_frame []"
    using demo_arrives [OF demo_replies(7)] demo_arrives [OF demo_replies(8)] by (simp_all add: arrives_def partial_frame_def parse_frame_header_def)
  obtain i j fs rc kb off where u: "i < j" "j < length ?gs"
    "parse_upload_init_reply (fst (split_reply (frame_body (?gs ! i)))) = (rc, Some (kb, off))"
    "take_chunks 1 0 (take (unat (off :: u64)) (lf_content demo_file)) [] (map frame_body fs) = Some (lf_content demo_file, uo_md5 out)"
    using upload_rebuilds_file [OF r refl demo_works(5) small io fr fr(2)] by (auto simp: Let_def)
  then have "i = 0" by simp
  then have "off = 2" using u(3) demo_replies(1,3) by (simp add: demo_body)
  then show ?thesis using r u(4) by (intro exI [of _ out] exI [of _ w'] exI [of _ fs]) (simp add: demo_file_def)
qed

text \<open>
  C9. Against a printer that answers, \<open>upload_file\<close> succeeds from the first byte to the last: the
  handshake completes, the init request is answered with a chunk size and an offset within the
  file, all chunks go out, and the final reply ends the transfer with code 0. The answers may
  arrive in any pieces.
\<close>

theorem upload_file_succeeds:
  assumes "md5_works md" "\<forall>n. \<not> cancelled n" "ur_storage req \<noteq> []" "ur_name req \<noteq> []" "ur_local_path req \<noteq> []"
    and "open_file (ur_local_path req) = Some f" "lf_size f = length (lf_content f)"
    and "de_dial e (cp_dev_ip p) (cp_port p) (tls_serial_for (de_registry e) p) = Inr (io, polls, err)"
    and "wrs io = []"
      "rds io = [RData (frame (kMagicLoginServer, q1, b1)), RData (frame (m2, q2, ack))] @ map RData ps @ map RData qs"
    and "length b1 \<le> 65520" "length ack \<le> 65520" "ack \<noteq> []" "is_setup_ack ack"
    and "arrives g ps" "arrives h qs"
    and "try_accept kCmdFileUpload 1 (fst (split_reply (frame_body g)))"
    and "parse_upload_init_reply (fst (split_reply (frame_body g))) = (rc, Some (kb, off))" "unat off \<le> lf_size f"
    and "try_accept kCmdFileUpload 1 (fst (split_reply (frame_body h)))"
    and "parse_wire_result (fst (split_reply (frame_body h))) \<in> {0, 19}"
  shows "\<exists>out. upload_file e md cancelled open_file p req err_code = Some (0, out) \<and> uo_ok out"
proof -
  from connection_answered [OF assms(8-14), of "new_connection p"] obtain w where
    w: "connection_connect e p (new_connection p) = Some (None, \<lparr>cn_wire = Some w, cn_seq = 1, cn_params = p\<rparr>)"
      "idle w (map RData ps @ map RData qs @ [])"
    by (auto simp: new_connection_def)
  from upload_answered [where cancelled = cancelled and open_file = open_file and ps = ps and qs = qs and rs = "[]",
      OF assms(1-7) w(2) assms(15-21)] obtain out w' where
    "run_chunked_upload md cancelled open_file 1 req w = Some (out, w')" "uo_ok out" by blast
  then show ?thesis using w(1)
    by (simp add: upload_file_def connection_upload_def with_wire_def next_wire_seq_def)
qed

definition demo_dial :: "ssl_io \<Rightarrow> dial_env" where
  "demo_dial io = \<lparr>de_dial = (\<lambda>ip port serial. Inr (io, [], [])), de_registry = (\<lambda>ip. None), de_seed = 7, de_digits = replicate 31 0,
     de_version = ''02.07.00.55''\<rparr>"

definition demo_ack :: bytes where
  "demo_ack = bytes_of_string ([CHR 0x7B] @ escape ''mtype'' @ '':12291,'' @ escape ''result'' @ '':0'' @ [CHR 0x7D])"

definition demo_io :: ssl_io where
  "demo_io = \<lparr>rds = [RData (frame (kMagicLoginServer, 1, [])), RData (frame (1, 2, demo_ack)),
     RData (frame (demo_frame demo_init)), RData (frame (demo_frame demo_final))], wrs = [], sent = []\<rparr>"

lemma demo_ack: "length demo_ack \<le> 65520" "demo_ack \<noteq> []" "is_setup_ack demo_ack"
  by code_simp+

theorem upload_file_succeeds_witness:
  "\<exists>out. upload_file (demo_dial demo_io) demo_md5 (\<lambda>n. False) (\<lambda>p. Some demo_file)
     (connect_params_from_print ''10.0.0.2'' ''01P00A'' ''12345678'') demo_request (- 1) = Some (0, out) \<and> uo_ok out"
proof (rule upload_file_succeeds [where io = demo_io and polls = "[]" and err = "[]" and ack = demo_ack and f = demo_file
    and g = "demo_frame demo_init" and h = "demo_frame demo_final" and ps = "[frame (demo_frame demo_init)]"
    and qs = "[frame (demo_frame demo_final)]" and ?b1.0 = "[]" and rc = 1 and kb = 1 and off = 2, OF demo_works(1)])
  show "arrives (demo_frame demo_init) [frame (demo_frame demo_init)]" "arrives (demo_frame demo_final) [frame (demo_frame demo_final)]"
    using demo_arrives demo_replies(7,8) by blast+
qed (use demo_works demo_replies demo_ack in \<open>simp_all add: demo_body demo_dial_def demo_io_def demo_file_def\<close>)

text \<open>
  C7. A download gives exactly the bytes the printer sent: when the frames of the reply, the
  last with result 0 and the others with result 1, arrive one after the other, in any pieces, the
  outcome is the data of the frames in order, without those that hold the parameters of a memory
  download, and the only bytes sent are those of the request.
\<close>

theorem download_assembles:
  assumes "\<forall>n. \<not> cancelled n" "path \<noteq> []"
    and "idle w (concat (map (map RData \<circ> snd) (xs @ [x])) @ rs)" "\<forall>(g, ps) \<in> set (xs @ [x]). arrives g ps"
    and "\<forall>g \<in> fst ` set xs. parse_wire_result (fst (split_reply (frame_body g))) = 1"
    and "parse_wire_result (fst (split_reply (frame_body (fst x)))) = 0"
  shows "\<exists>out w'. run_download cancelled sq path target w = Some (out, w') \<and> do_ok out \<and> idle w' rs \<and>
    do_data out = concat (map (frame_data \<circ> frame_body \<circ> fst) (xs @ [x])) \<and>
    (\<exists>n. wire_sent w' = wire_sent w @ frame (kMagicCtrlClient, n, bytes_of_string (wrap_ctrl_abi (build_file_download_abi sq path 0 target))))"
proof -
  let ?in = "concat (map (map RData \<circ> snd) (xs @ [x])) @ rs"
  from idle_drain_stale [OF assms(3)] obtain w1 where w1: "drain_stale_wire_json w = Some w1" "idle w1 ?in" by blast
  from idle_send [OF w1(2), of "build_file_download_abi sq path 0 target"] obtain w2 where
    w2: "wire_send (build_file_download_abi sq path 0 target) w1 = (0, w2)" "idle w2 ?in" by blast
  from download_loop_answered [OF assms(1) w2(2) assms(4-6), of 0 no_download] obtain out w' where
    r: "download_loop cancelled 0 no_download w2 = Some (out, w')" "do_ok out" "idle w' rs"
      "do_data out = concat (map (frame_data \<circ> frame_body \<circ> fst) (xs @ [x]))"
    by (auto simp: no_download_def)
  have "wire_sent w1 = wire_sent w" using w1(1) by (auto simp: drain_stale_wire_json_def dest: wire_drain_sent)
  then have "wire_sent w' = wire_sent w @ frame (kMagicCtrlClient, seq_no (w_session w1),
      bytes_of_string (wrap_ctrl_abi (build_file_download_abi sq path 0 target)))"
    using download_loop_sent [OF r(1)] wire_send_sent [OF w2(1)] by simp
  moreover have "run_download cancelled sq path target w = Some (out, w')"
    using assms(2) w1(1) w2(1) r(1) by (simp add: run_download_def)
  ultimately show ?thesis using r(2-4) by blast
qed

theorem download_assembles_witness:
  "\<exists>out w'. run_download (\<lambda>n. False) 1 ''mem:/26'' [] (demo_wire [demo_init, demo_final]) = Some (out, w') \<and> do_ok out"
proof -
  have "idle (demo_wire [demo_init, demo_final])
      (concat (map (map RData \<circ> snd) ([(demo_frame demo_init, [frame (demo_frame demo_init)])] @ [(demo_frame demo_final, [frame (demo_frame demo_final)])])) @ [])"
    using demo_idle [of "[demo_init, demo_final]"] by simp
  moreover have "parse_wire_result demo_init = 1" by code_simp
  ultimately show ?thesis
    using download_assembles [where cancelled = "\<lambda>n. False" and path = "''mem:/26''" and w = "demo_wire [demo_init, demo_final]" and rs = "[]"
        and xs = "[(demo_frame demo_init, [frame (demo_frame demo_init)])]" and x = "(demo_frame demo_final, [frame (demo_frame demo_final)])"
        and sq = 1 and target = "[]"] demo_arrives demo_replies
    by (auto simp: demo_body)
qed

end
