(* ===== verification/Model_Metadata.thy ===== *)
theory Model_Metadata
  imports Obn_Prelude
begin

text \<open>
  Model of \<open>src/model_metadata.cpp\<close>: the reader of the metadata elements of a project's
  \<open>3dmodel.model\<close> and of the plate list of its \<open>slice_info.config\<close>. A position in a text is
  the text that is left from there; an \<open>unsigned long\<close> has 64 bits. Reading the archive member
  from a local file (\<open>makerworld_design_id\<close>) is an argument.
\<close>

section \<open>Numbers as strtoul and strtol read them\<close>

text \<open>
  Leading white space, a sign, for base 16 an optional \<open>0x\<close> before a digit, then the longest run
  of digits: the sign, the magnitude and the rest, \<open>None\<close> without a digit. A C string ends at
  the first NUL.
\<close>

definition c_str :: "string \<Rightarrow> string" where
  "c_str s = takeWhile (\<lambda>c. c \<noteq> CHR 0x00) s"

definition digit_in :: "nat \<Rightarrow> char \<Rightarrow> bool" where
  "digit_in base c \<longleftrightarrow> (case hex_val c of None \<Rightarrow> False | Some d \<Rightarrow> d < base)"

definition digits_val :: "nat \<Rightarrow> string \<Rightarrow> nat" where
  "digits_val base s = foldl (\<lambda>a c. base * a + (case hex_val c of None \<Rightarrow> 0 | Some d \<Rightarrow> d)) 0 s"

definition strto :: "nat \<Rightarrow> string \<Rightarrow> (bool \<times> nat \<times> string) option" where
  "strto base s =
     (let s1 = dropWhile is_space s;
          neg = (s1 \<noteq> [] \<and> hd s1 = CHR ''-'');
          s2 = (if s1 \<noteq> [] \<and> (hd s1 = CHR ''-'' \<or> hd s1 = CHR ''+'') then tl s1 else s1);
          s3 = (if base = 16 \<and> (starts_with ''0x'' s2 \<or> starts_with ''0X'' s2) \<and> drop 2 s2 \<noteq> [] \<and> digit_in 16 (s2 ! 2)
                then drop 2 s2 else s2);
          ds = takeWhile (digit_in base) s3
      in if ds = [] then None else Some (neg, digits_val base ds, dropWhile (digit_in base) s3))"

definition strtoul :: "nat \<Rightarrow> string \<Rightarrow> nat \<times> string" where
  "strtoul base s =
     (case strto base s of
        None \<Rightarrow> (0, s)
      | Some (neg, v, rest) \<Rightarrow>
          (if 2 ^ 64 \<le> v then 2 ^ 64 - 1 else if neg then (2 ^ 64 - v) mod 2 ^ 64 else v, rest))"

definition strtol :: "string \<Rightarrow> int \<times> string" where
  "strtol s =
     (case strto 10 s of
        None \<Rightarrow> (0, s)
      | Some (neg, v, rest) \<Rightarrow> (clamp_s64 (if neg then - int v else int v), rest))"

section \<open>Text and attributes\<close>

definition append_utf8 :: "nat \<Rightarrow> string" where
  "append_utf8 cp =
     (if cp < 0x80 then [char_of cp]
      else if cp < 0x800 then [char_of (0xC0 + cp div 64), char_of (0x80 + cp mod 64)]
      else if cp < 0x10000 then [char_of (0xE0 + cp div 4096), char_of (0x80 + cp div 64 mod 64), char_of (0x80 + cp mod 64)]
      else [char_of (0xF0 + cp div 262144), char_of (0x80 + cp div 4096 mod 64), char_of (0x80 + cp div 64 mod 64),
            char_of (0x80 + cp mod 64)])"

definition decode_char_ref :: "string \<Rightarrow> string option" where
  "decode_char_ref ent =
     (let hex = (ent ! 1 = CHR ''x'' \<or> ent ! 1 = CHR ''X'');
          digits = c_str (drop (if hex then 2 else 1) ent);
          (cp, rest) = strtoul (if hex then 16 else 10) digits
      in if digits \<noteq> [] \<and> rest = [] \<and> cp \<noteq> 0 \<and> cp \<le> 0x10FFFF \<and> (cp < 0xD800 \<or> 0xDFFF < cp)
         then Some (append_utf8 cp) else None)"

definition decode_entity :: "string \<Rightarrow> string option" where
  "decode_entity ent =
     (if ent = ''amp'' then Some ''&''
      else if ent = ''lt'' then Some ''<''
      else if ent = ''gt'' then Some ''>''
      else if ent = ''quot'' then Some [CHR 0x22]
      else if ent = ''apos'' then Some [CHR 0x27]
      else if 1 < length ent \<and> hd ent = CHR ''#'' then decode_char_ref ent
      else None)"

function decode_xml_text :: "string \<Rightarrow> string" where
  "decode_xml_text [] = []"
| "decode_xml_text (c # cs) =
     (case (if c = CHR ''&'' then find_char (CHR '';'') cs else None) of
        None \<Rightarrow> c # decode_xml_text cs
      | Some k \<Rightarrow>
          if 12 < k + 1 then c # decode_xml_text cs
          else (case decode_entity (take k cs) of
                  Some s \<Rightarrow> s
                | None \<Rightarrow> c # take (k + 1) cs) @ decode_xml_text (drop (k + 1) cs))"
  by pat_completeness auto
termination by (relation "measure length") auto

definition is_xml_space :: "char \<Rightarrow> bool" where
  "is_xml_space c \<longleftrightarrow> c = CHR '' '' \<or> c = CHR 0x09 \<or> c = CHR 0x0D \<or> c = CHR 0x0A"

definition in_key :: "char \<Rightarrow> bool" where
  "in_key c \<longleftrightarrow> \<not> is_xml_space c \<and> c \<noteq> CHR ''=''"

lemma find_char_nonempty: "find_char c s = Some i \<Longrightarrow> 0 < length s"
  by (cases s) auto

function xml_attribute :: "string \<Rightarrow> string \<Rightarrow> string option" where
  "xml_attribute attrs nm =
     (if attrs = [] then None
      else let a1 = dropWhile is_xml_space attrs;
               key = takeWhile in_key a1;
               a3 = dropWhile is_xml_space (dropWhile in_key a1)
           in if a3 = [] \<or> hd a3 \<noteq> CHR ''=''
              then xml_attribute (if length a3 = length a1 then drop 1 a3 else a3) nm
              else let a4 = dropWhile is_xml_space (tl a3)
                   in if a4 = [] \<or> hd a4 \<noteq> CHR 0x22 \<and> hd a4 \<noteq> CHR 0x27 then None
                      else case find_char (hd a4) (tl a4) of
                             None \<Rightarrow> None
                           | Some v \<Rightarrow>
                               if key = nm then Some (take v (tl a4)) else xml_attribute (drop (v + 1) (tl a4)) nm)"
  by pat_completeness auto
termination
proof (relation "measure (length \<circ> fst)", goal_cases)
  case (2 attrs nm a1 key a3)
  have "length a3 \<le> length a1" "length a1 \<le> length attrs"
    unfolding 2 by (auto intro: order_trans [OF length_dropWhile_le] length_dropWhile_le)
  then show ?case using 2(1) by (cases attrs) auto
next
  case (3 attrs nm a1 key a3 a4 v)
  have "length a3 \<le> length attrs"
    unfolding 3 by (auto intro: order_trans [OF length_dropWhile_le] order_trans [OF length_dropWhile_le] length_dropWhile_le)
  moreover have "length a4 \<le> length (tl a3)" unfolding 3 by (rule length_dropWhile_le)
  moreover have "a3 \<noteq> []" using 3(5) by auto
  ultimately show ?case by (cases a3) auto
qed simp

declare xml_attribute.simps [simp del]

text \<open>The index of the \<open>>\<close> that ends a tag; \<open>q\<close> is the quote that is open.\<close>

fun xml_tag_end :: "char option \<Rightarrow> string \<Rightarrow> nat option" where
  "xml_tag_end q [] = None"
| "xml_tag_end q (c # cs) =
     (case q of
        Some x \<Rightarrow> map_option Suc (xml_tag_end (if c = x then None else q) cs)
      | None \<Rightarrow>
          if c = CHR 0x22 \<or> c = CHR 0x27 then map_option Suc (xml_tag_end (Some c) cs)
          else if c = CHR ''>'' then Some 0
          else map_option Suc (xml_tag_end None cs))"

text \<open>The text of an element up to its closing tag; empty when it has none.\<close>

definition cdata_open :: string where "cdata_open = ''<![CDATA[''"

function xml_element_text :: "string \<Rightarrow> string \<Rightarrow> string \<Rightarrow> string" where
  "xml_element_text out xml close_tag =
     (case find_char (CHR ''<'') xml of
        None \<Rightarrow> []
      | Some lt \<Rightarrow>
          (let out1 = out @ decode_xml_text (take lt xml); r = drop lt xml
           in if starts_with cdata_open r
              then (case str_find '']]>'' (drop 9 r) of
                      None \<Rightarrow> []
                    | Some e \<Rightarrow> xml_element_text (out1 @ take e (drop 9 r)) (drop (e + 3) (drop 9 r)) close_tag)
              else if starts_with ''<!--'' r
              then (case str_find ''-->'' (drop 4 r) of
                      None \<Rightarrow> []
                    | Some e \<Rightarrow> xml_element_text out1 (drop (e + 3) (drop 4 r)) close_tag)
              else if starts_with close_tag r then out1
              else []))"
  by pat_completeness auto
termination
  by (relation "measure (\<lambda>(out, xml, t). length xml)") (auto dest!: find_char_nonempty)

declare xml_element_text.simps [simp del]

section \<open>Metadata and plates\<close>

text \<open>What a construct that is skipped starts and ends with.\<close>

definition skipped :: "string \<Rightarrow> (nat \<times> string) option" where
  "skipped r =
     (if starts_with ''<!--'' r then Some (4, ''-->'')
      else if starts_with cdata_open r then Some (9, '']]>'')
      else if starts_with ''<?'' r then Some (2, ''?>'')
      else None)"

text \<open>Whether a metadata tag starts here, and not one whose name only begins so.\<close>

definition at_metadata :: "string \<Rightarrow> bool" where
  "at_metadata r \<longleftrightarrow>
     starts_with ''<metadata'' r \<and>
     (drop 9 r = [] \<or> is_xml_space (r ! 9) \<or> r ! 9 = CHR ''>'' \<or> r ! 9 = CHR ''/'')"

definition pop_slash :: "string \<Rightarrow> string" where
  "pop_slash attrs = (if attrs \<noteq> [] \<and> last attrs = CHR ''/'' then butlast attrs else attrs)"

function metadata_value :: "string \<Rightarrow> string \<Rightarrow> string" where
  "metadata_value xml nm =
     (case find_char (CHR ''<'') xml of
        None \<Rightarrow> []
      | Some p \<Rightarrow>
          (let r = drop p xml
           in case skipped r of
                Some (skip_from, skip_to) \<Rightarrow>
                  (case str_find skip_to (drop skip_from r) of
                     None \<Rightarrow> []
                   | Some e \<Rightarrow> metadata_value (drop (e + length skip_to) (drop skip_from r)) nm)
              | None \<Rightarrow>
                  if \<not> at_metadata r then metadata_value (drop 1 r) nm
                  else (case xml_tag_end None (drop 9 r) of
                          None \<Rightarrow> []
                        | Some te \<Rightarrow>
                            (let attrs = take te (drop 9 r); rest = drop (te + 1) (drop 9 r)
                             in if xml_attribute (pop_slash attrs) ''name'' \<noteq> Some nm then metadata_value rest nm
                                else if attrs \<noteq> [] \<and> last attrs = CHR ''/'' then []
                                else xml_element_text [] rest ''</metadata''))))"
  by pat_completeness auto
termination
  by (relation "measure (\<lambda>(xml, nm). length xml)")
    (auto dest!: find_char_nonempty simp: skipped_def split: if_splits)

declare metadata_value.simps [simp del]

text \<open>
  The number of the first index entry of a plate; \<open>lim\<close> is where the plate ends. A tag that
  reaches past it ends the search.
\<close>

definition plate_number :: "string \<Rightarrow> int list" where
  "plate_number v =
     (let (n, rest) = strtol (c_str v) in if v \<noteq> [] \<and> rest = [] \<and> 0 < n \<and> n < 1000 then [n] else [])"

function plate_index :: "nat \<Rightarrow> string \<Rightarrow> int list" where
  "plate_index lim s =
     (case str_find ''<metadata'' s of
        None \<Rightarrow> []
      | Some k \<Rightarrow>
          if lim \<le> k then []
          else (case xml_tag_end None (drop (k + 9) s) of
                  None \<Rightarrow> []
                | Some te \<Rightarrow>
                    (let attrs = pop_slash (take te (drop (k + 9) s))
                     in if lim < k + 9 + te then []
                        else if xml_attribute attrs ''key'' \<noteq> Some ''index''
                        then plate_index (lim - (k + 9 + te + 1)) (drop (k + 9 + te + 1) s)
                        else (case xml_attribute attrs ''value'' of None \<Rightarrow> [] | Some v \<Rightarrow> plate_number v))))"
  by pat_completeness auto
termination
  by (relation "measure (\<lambda>(lim, s). lim)") auto

declare plate_index.simps [simp del]

function sliced_plates :: "string \<Rightarrow> int list" where
  "sliced_plates xml =
     (case str_find ''<plate'' xml of
        None \<Rightarrow> []
      | Some p \<Rightarrow>
          (let r = drop (p + 6) xml;
               e = (case str_find ''</plate>'' r of None \<Rightarrow> length r | Some e \<Rightarrow> e)
           in if r = [] \<or> hd r \<noteq> CHR ''>'' \<and> \<not> is_xml_space (hd r) then sliced_plates r
              else plate_index e r @ sliced_plates (drop e r)))"
  by pat_completeness auto
termination
  by (relation "measure length") (auto dest!: str_find_Some)

declare sliced_plates.simps [simp del]

definition kModelMember :: string where "kModelMember = ''3D/3dmodel.model''"
definition kSliceInfoMember :: string where "kSliceInfoMember = ''Metadata/slice_info.config''"

text \<open>\<open>read_entry\<close> reads a member of a local archive, up to the given number of bytes.\<close>

definition kMaxModelBytes :: nat where "kMaxModelBytes = 4 * 1024 * 1024"

definition makerworld_design_id ::
  "(string \<Rightarrow> string \<Rightarrow> nat \<Rightarrow> string + bytes) \<Rightarrow> string \<Rightarrow> string + string" where
  "makerworld_design_id read_entry path_3mf =
     (case read_entry path_3mf kModelMember kMaxModelBytes of
        Inl err \<Rightarrow> Inl err
      | Inr data \<Rightarrow> Inr (metadata_value (string_of_bytes data) ''DesignModelId''))"

section \<open>Reading back what was written\<close>

text \<open>The five characters a writer has to escape.\<close>

definition xml_escape_char :: "char \<Rightarrow> string" where
  "xml_escape_char c =
     (if c = CHR ''&'' then ''&amp;''
      else if c = CHR ''<'' then ''&lt;''
      else if c = CHR ''>'' then ''&gt;''
      else if c = CHR 0x22 then ''&quot;''
      else if c = CHR 0x27 then ''&apos;''
      else [c])"

definition xml_escape :: "string \<Rightarrow> string" where
  "xml_escape s = concat (map xml_escape_char s)"

lemma xml_escape_no_lt: "CHR ''<'' \<notin> set (xml_escape s)"
  by (auto simp: xml_escape_def xml_escape_char_def split: if_splits)

lemma decode_escaped_char: "decode_xml_text (xml_escape_char c @ s) = c # decode_xml_text s"
  by (auto simp: xml_escape_char_def decode_entity_def)

lemma decode_escaped: "decode_xml_text (xml_escape s) = s"
proof (induction s)
  case (Cons c s)
  then show ?case using decode_escaped_char [of c "xml_escape s"] by (simp add: xml_escape_def)
qed (simp add: xml_escape_def)

text \<open>
  A document as a writer composes it: character data (escaped), CDATA sections, comments,
  instructions such as the prolog, tags of other elements and declarations, and metadata elements.
  An attribute has a key, the quote it is written with and its text; a metadata element without a
  body is an empty-element tag.
\<close>

datatype piece = Chars string | Cdata string | Comment string

type_synonym attribute = "string \<times> char \<times> string"

datatype xml_item = Piece piece | Instruction string | Tag string | Meta "attribute list" "piece list option"

fun piece_text :: "piece \<Rightarrow> string" where
  "piece_text (Chars s) = xml_escape s"
| "piece_text (Cdata d) = ''<![CDATA['' @ d @ '']]>''"
| "piece_text (Comment c) = ''<!--'' @ c @ ''-->''"

fun piece_value :: "piece \<Rightarrow> string" where
  "piece_value (Chars s) = s"
| "piece_value (Cdata d) = d"
| "piece_value (Comment c) = []"

fun attribute_text :: "attribute \<Rightarrow> string" where
  "attribute_text (k, q, v) = '' '' @ k @ ''='' @ [q] @ v @ [q]"

definition attributes_text :: "attribute list \<Rightarrow> string" where
  "attributes_text as = concat (map attribute_text as)"

definition attribute_named :: "attribute list \<Rightarrow> string \<Rightarrow> string option" where
  "attribute_named as = map_of (map (\<lambda>(k, q, v). (k, v)) as)"

fun item_text :: "xml_item \<Rightarrow> string" where
  "item_text (Piece p) = piece_text p"
| "item_text (Instruction s) = ''<?'' @ s @ ''?>''"
| "item_text (Tag s) = ''<'' @ s @ ''>''"
| "item_text (Meta as None) = ''<metadata'' @ attributes_text as @ ''/>''"
| "item_text (Meta as (Some ps)) = ''<metadata'' @ attributes_text as @ ''>'' @ concat (map piece_text ps) @ ''</metadata>''"

definition xml_document :: "xml_item list \<Rightarrow> string" where
  "xml_document xs = concat (map item_text xs)"

text \<open>What such a document says: the content of the first metadata element of the name.\<close>

fun metadata_of :: "xml_item list \<Rightarrow> string \<Rightarrow> string" where
  "metadata_of [] nm = []"
| "metadata_of (Meta as body # xs) nm =
     (if attribute_named as ''name'' = Some nm
      then (case body of None \<Rightarrow> [] | Some ps \<Rightarrow> concat (map piece_value ps))
      else metadata_of xs nm)"
| "metadata_of (x # xs) nm = metadata_of xs nm"

text \<open>
  Well-formed documents: no construct holds its own end mark, an attribute not the quote around
  it, and a tag is not a metadata tag, comment, section or instruction.
\<close>

fun piece_ok :: "piece \<Rightarrow> bool" where
  "piece_ok (Chars s) \<longleftrightarrow> True"
| "piece_ok (Cdata d) \<longleftrightarrow> str_find '']]>'' d = None"
| "piece_ok (Comment c) \<longleftrightarrow> str_find ''-->'' c = None"

fun attribute_ok :: "attribute \<Rightarrow> bool" where
  "attribute_ok (k, q, v) \<longleftrightarrow>
     k \<noteq> [] \<and> set k \<inter> {CHR '' '', CHR 0x09, CHR 0x0A, CHR 0x0D, CHR ''='', CHR ''>'', CHR 0x22, CHR 0x27} = {} \<and>
     q \<in> {CHR 0x22, CHR 0x27} \<and> q \<notin> set v"

definition tag_ok :: "string \<Rightarrow> bool" where
  "tag_ok s \<longleftrightarrow>
     CHR ''<'' \<notin> set s \<and> \<not> starts_with ''!--'' s \<and> \<not> starts_with ''![CDATA['' s \<and> \<not> starts_with ''?'' s \<and>
     takeWhile (\<lambda>c. c \<notin> {CHR '' '', CHR 0x09, CHR 0x0A, CHR 0x0D, CHR ''/'', CHR ''>''}) s \<noteq> ''metadata''"

fun item_ok :: "xml_item \<Rightarrow> bool" where
  "item_ok (Piece p) \<longleftrightarrow> piece_ok p"
| "item_ok (Instruction s) \<longleftrightarrow> str_find ''?>'' s = None"
| "item_ok (Tag s) \<longleftrightarrow> tag_ok s"
| "item_ok (Meta as body) \<longleftrightarrow> list_all attribute_ok as \<and> (case body of None \<Rightarrow> True | Some ps \<Rightarrow> list_all piece_ok ps)"

definition metadata_element :: "string \<Rightarrow> string \<Rightarrow> string" where
  "metadata_element k v = item_text (Meta [(''name'', CHR 0x22, k)] (Some [Chars v]))"

text \<open>The end marks are found where they were written.\<close>

lemma mark_found:
  assumes "e \<in> {'']]>'', ''-->'', ''?>''}" "str_find e x = None"
  shows "str_find e (x @ e @ s) = Some (length x)"
  using assms(2)
proof (induction x)
  case Nil
  then show ?case using assms(1) by auto
next
  case (Cons c x)
  have n: "\<not> starts_with e (c # x)" "str_find e x = None" using Cons.prems by (simp_all split: if_splits)
  have "\<not> starts_with e (c # x @ e @ s)"
    using assms(1) n(1) by (cases x; cases "tl x") auto
  then show ?case using Cons.IH [OF n(2)] by simp
qed

lemma find_lt [simp]: "find_char (CHR ''<'') (xml_escape t @ CHR ''<'' # s) = Some (length (xml_escape t))"
  by (rule find_char_append [OF xml_escape_no_lt])

lemma xml_escape_append: "xml_escape (s @ t) = xml_escape s @ xml_escape t"
  by (simp add: xml_escape_def)

lemma xml_escape_Nil [simp]: "xml_escape [] = []"
  by (simp add: xml_escape_def)

text \<open>The text of an element is the values of its pieces.\<close>

lemma element_text_closed:
  "xml_element_text out (xml_escape t @ ''</metadata>'' @ s) ''</metadata'' = out @ t"
  by (subst xml_element_text.simps) (simp add: Let_def cdata_open_def decode_escaped)

lemma element_text_cdata:
  assumes "str_find '']]>'' d = None"
  shows "xml_element_text out (xml_escape t @ (''<![CDATA['' @ d @ '']]>'') @ s) close_tag = xml_element_text (out @ t @ d) s close_tag"
  using mark_found [of "'']]>''" d s] assms
  by (subst xml_element_text.simps) (simp add: Let_def cdata_open_def decode_escaped)

lemma element_text_comment:
  assumes "str_find ''-->'' c = None"
  shows "xml_element_text out (xml_escape t @ (''<!--'' @ c @ ''-->'') @ s) close_tag = xml_element_text (out @ t) s close_tag"
  using mark_found [of "''-->''" c s] assms
  by (subst xml_element_text.simps) (simp add: Let_def cdata_open_def decode_escaped)

lemma element_text_pieces:
  "list_all piece_ok ps \<Longrightarrow>
   xml_element_text out (xml_escape t @ concat (map piece_text ps) @ ''</metadata>'' @ s) ''</metadata'' =
   out @ t @ concat (map piece_value ps)"
proof (induction ps arbitrary: out t)
  case Nil
  show ?case using element_text_closed [of out t s] by simp
next
  case (Cons p ps)
  let ?s = "concat (map piece_text ps) @ ''</metadata>'' @ s"
  have ok: "piece_ok p" "list_all piece_ok ps" using Cons.prems by simp_all
  show ?case
  proof (cases p)
    case (Chars u)
    then show ?thesis using Cons.IH [OF ok(2), of out "t @ u"] by (simp add: xml_escape_append)
  next
    case (Cdata d)
    then have "str_find '']]>'' d = None" using ok(1) by simp
    from element_text_cdata [OF this, of out t ?s] show ?thesis
      using Cons.IH [OF ok(2), of "out @ t @ d" "[]"] Cdata by simp
  next
    case (Comment c)
    then have "str_find ''-->'' c = None" using ok(1) by simp
    from element_text_comment [OF this, of out t ?s] show ?thesis
      using Cons.IH [OF ok(2), of "out @ t" "[]"] Comment by simp
  qed
qed

text \<open>Attributes: where their tag ends, and their texts.\<close>

lemma xml_tag_end_quoted:
  "x \<notin> set k \<Longrightarrow> xml_tag_end (Some x) (k @ x # s) = map_option (\<lambda>n. length k + 1 + n) (xml_tag_end None s)"
  by (induction k) (auto simp: option.map_comp comp_def intro!: option.map_cong)

lemma xml_tag_end_plain:
  "set k \<inter> {CHR ''>'', CHR 0x22, CHR 0x27} = {} \<Longrightarrow> xml_tag_end None (k @ s) = map_option (\<lambda>n. length k + n) (xml_tag_end None s)"
  by (induction k) (auto simp: option.map_comp comp_def option.map_ident_strong intro!: option.map_cong)

lemma attribute_tag_end:
  assumes "attribute_ok a"
  shows "xml_tag_end None (attribute_text a @ s) = map_option (\<lambda>n. length (attribute_text a) + n) (xml_tag_end None s)"
proof -
  obtain k q v where a: "a = (k, q, v)" by (cases a)
  let ?k = "'' '' @ k @ ''=''"
  have k: "set ?k \<inter> {CHR ''>'', CHR 0x22, CHR 0x27} = {}" and q: "q \<in> {CHR 0x22, CHR 0x27}" "q \<notin> set v"
    using assms by (auto simp: a)
  have "xml_tag_end None (q # v @ q # s) = map_option Suc (xml_tag_end (Some q) (v @ q # s))" using q(1) by auto
  also have "\<dots> = map_option (\<lambda>n. length v + 2 + n) (xml_tag_end None s)"
    using xml_tag_end_quoted [OF q(2)] by (simp add: option.map_comp comp_def)
  finally show ?thesis
    using xml_tag_end_plain [OF k, of "q # v @ q # s"] by (simp add: a option.map_comp comp_def add.assoc del: xml_tag_end.simps)
qed

lemma attributes_tag_end:
  "list_all attribute_ok as \<Longrightarrow>
   xml_tag_end None (attributes_text as @ s) = map_option (\<lambda>n. length (attributes_text as) + n) (xml_tag_end None s)"
proof (induction as)
  case (Cons a as)
  then have "xml_tag_end None (attributes_text as @ s) = map_option (\<lambda>n. length (attributes_text as) + n) (xml_tag_end None s)"
    by simp
  then show ?case
    using attribute_tag_end [of a "attributes_text as @ s"] Cons.prems
    by (simp add: attributes_text_def option.map_comp comp_def add.assoc)
qed (simp add: attributes_text_def option.map_ident_strong)

lemma attribute_step:
  assumes "attribute_ok (k, q, v)"
  shows "xml_attribute (attribute_text (k, q, v) @ s) nm = (if k = nm then Some v else xml_attribute s nm)"
proof -
  have k: "k \<noteq> []" "\<forall>c \<in> set k. in_key c" and q: "q \<in> {CHR 0x22, CHR 0x27}" "q \<notin> set v"
    using assms by (auto simp: in_key_def is_xml_space_def)
  let ?r = "CHR ''='' # q # v @ q # s"
  have a1: "dropWhile is_xml_space (attribute_text (k, q, v) @ s) = k @ ?r"
    using k by (cases k) (auto simp: is_xml_space_def in_key_def)
  have key: "takeWhile in_key (k @ ?r) = k" "dropWhile in_key (k @ ?r) = ?r"
    using k(2) by (simp_all add: takeWhile_append2 dropWhile_append2 in_key_def)
  have sp: "dropWhile is_xml_space ?r = ?r" "dropWhile is_xml_space (q # v @ q # s) = q # v @ q # s"
    using q(1) by (auto simp: is_xml_space_def)
  have f: "find_char q (v @ q # s) = Some (length v)" using q(2) by simp
  have ne: "attribute_text (k, q, v) @ s \<noteq> []" by simp
  have nsp: "\<not> is_xml_space q" using q(1) by (auto simp: is_xml_space_def)
  have quote: "(q \<noteq> CHR 0x22 \<and> q \<noteq> CHR 0x27) = False" using q(1) by blast
  show ?thesis
    unfolding xml_attribute.simps [of "attribute_text (k, q, v) @ s"] if_not_P [OF ne] Let_def a1 key sp
    using nsp by (simp add: f quote)
qed

lemma attributes_found:
  "list_all attribute_ok as \<Longrightarrow> xml_attribute (attributes_text as) nm = attribute_named as nm"
proof (induction as)
  case (Cons a as)
  obtain k q v where a: "a = (k, q, v)" by (cases a)
  then show ?case using Cons attribute_step [of k q v "attributes_text as" nm] by (simp add: attributes_text_def attribute_named_def)
qed (simp add: attributes_text_def attribute_named_def xml_attribute.simps)

text \<open>What the search passes over.\<close>

lemma metadata_skips_text:
  assumes "CHR ''<'' \<notin> set t"
  shows "metadata_value (t @ s) nm = metadata_value s nm"
proof -
  have "find_char (CHR ''<'') (t @ s) = map_option ((+) (length t)) (find_char (CHR ''<'') s)"
    using assms by (induction t) (auto simp: option.map_comp comp_def option.map_ident_strong intro!: option.map_cong)
  then show ?thesis
    by (cases "find_char (CHR ''<'') s") (simp_all add: metadata_value.simps [of "t @ s"] metadata_value.simps [of s]
        del: find_char_None)
qed

lemma metadata_skips_tag:
  assumes "tag_ok t"
  shows "metadata_value (''<'' @ t @ ''>'' @ s) nm = metadata_value s nm"
proof -
  let ?r = "''<'' @ t @ ''>'' @ s"
  have t: "CHR ''<'' \<notin> set (t @ ''>'')" "\<not> starts_with ''!--'' t" "\<not> starts_with ''![CDATA['' t" "\<not> starts_with ''?'' t"
    using assms by (simp_all add: tag_ok_def)
  have pre: "starts_with p (t @ CHR ''>'' # s) \<Longrightarrow> starts_with p t" if "CHR ''>'' \<notin> set p" for p
    using that by (induction p t rule: starts_with.induct) auto
  have "skipped ?r = None"
    using t(2-4) pre [of "''!--''"] pre [of "''![CDATA[''"] pre [of "''?''"] by (auto simp: skipped_def cdata_open_def)
  moreover have "\<not> at_metadata ?r"
  proof
    assume m: "at_metadata ?r"
    then have "starts_with ''metadata'' (t @ CHR ''>'' # s)" by (simp add: at_metadata_def)
    then obtain u where u: "t = ''metadata'' @ u" using pre [of "''metadata''"] by (auto simp: starts_with_conv)
    have "(u @ ''>'' @ s) ! 0 \<in> {CHR '' '', CHR 0x09, CHR 0x0A, CHR 0x0D, CHR ''/'', CHR ''>''}"
      using m unfolding at_metadata_def u by (auto simp: is_xml_space_def)
    then have "takeWhile (\<lambda>c. c \<notin> {CHR '' '', CHR 0x09, CHR 0x0A, CHR 0x0D, CHR ''/'', CHR ''>''}) t = ''metadata''"
      unfolding u by (cases u) auto
    then show False using assms by (simp add: tag_ok_def)
  qed
  ultimately have "metadata_value ?r nm = metadata_value ((t @ ''>'') @ s) nm"
    by (subst metadata_value.simps) (simp add: Let_def)
  then show ?thesis by (simp only: metadata_skips_text [OF t(1)])
qed

lemma metadata_skips_marked:
  assumes "(b, e) \<in> {(''<!--'', ''-->''), (''<![CDATA['', '']]>''), (''<?'', ''?>'')}" "str_find e x = None"
  shows "metadata_value (b @ x @ e @ s) nm = metadata_value s nm"
proof -
  have f: "str_find e (x @ e @ s) = Some (length x)" using assms by (intro mark_found) auto
  have "skipped (b @ x @ e @ s) = Some (length b, e)" "find_char (CHR ''<'') (b @ x @ e @ s) = Some 0"
    using assms(1) by (auto simp: skipped_def cdata_open_def)
  then show ?thesis using f by (subst metadata_value.simps) (simp add: Let_def)
qed

lemma metadata_skips_piece: "piece_ok p \<Longrightarrow> metadata_value (piece_text p @ s) nm = metadata_value s nm"
  using metadata_skips_text [OF xml_escape_no_lt] metadata_skips_marked [of "''<!--''" "''-->''"]
    metadata_skips_marked [of "''<![CDATA[''" "'']]>''"]
  by (cases p) simp_all

lemma metadata_skips_pieces:
  "list_all piece_ok ps \<Longrightarrow> metadata_value (concat (map piece_text ps) @ s) nm = metadata_value s nm"
  by (induction ps) (simp_all add: metadata_skips_piece)

lemma attributes_ends:
  assumes "list_all attribute_ok as"
  shows "attributes_text as = [] \<or> hd (attributes_text as) = CHR '' '' \<and> last (attributes_text as) \<noteq> CHR ''/''"
proof -
  have first: "hd (attribute_text a @ s) = CHR '' ''" "attribute_text a \<noteq> []" for a s by (cases a; simp)+
  have final: "attribute_ok a \<Longrightarrow> last (attribute_text a) \<noteq> CHR ''/''" for a by (cases a) auto
  show ?thesis
  proof (cases as rule: rev_cases)
    case (snoc bs b)
    have "last (attributes_text as) \<noteq> CHR ''/''" using final [of b] assms first(2) [of b] snoc by (simp add: attributes_text_def)
    moreover have "as \<noteq> []" using snoc by simp
    then obtain a xs where "as = a # xs" by (meson list.exhaust)
    then have "hd (attributes_text as) = CHR '' ''" using first(1) by (simp add: attributes_text_def)
    ultimately show ?thesis by blast
  qed (simp add: attributes_text_def)
qed

text \<open>The search at a metadata element.\<close>

lemma metadata_at_element:
  assumes ok: "list_all attribute_ok as" and e: "e = ''>'' \<or> e = ''/>''"
  shows "metadata_value (''<metadata'' @ attributes_text as @ e @ s) nm =
    (if attribute_named as ''name'' \<noteq> Some nm then metadata_value s nm
     else if e = ''/>'' then [] else xml_element_text [] s ''</metadata'')"
proof -
  let ?as = "attributes_text as" and ?sl = "butlast e"
  let ?r = "''<metadata'' @ ?as @ e @ s"
  have ends: "?as = [] \<or> hd ?as = CHR '' '' \<and> last ?as \<noteq> CHR ''/''" using ok by (rule attributes_ends)
  have f: "find_char (CHR ''<'') ?r = Some 0" "skipped ?r = None" by (simp_all add: skipped_def cdata_open_def)
  have at: "at_metadata ?r"
    using e ends by (cases ?as) (auto simp: at_metadata_def is_xml_space_def)
  have d: "drop 9 ?r = (?as @ ?sl) @ CHR ''>'' # s" using e by auto
  have te: "xml_tag_end None (drop 9 ?r) = Some (length (?as @ ?sl))"
    using attributes_tag_end [OF ok, of "?sl @ CHR ''>'' # s"] e by (auto simp: d)
  have sl: "pop_slash (?as @ ?sl) = ?as" "(?as @ ?sl \<noteq> [] \<and> last (?as @ ?sl) = CHR ''/'') \<longleftrightarrow> e = ''/>''"
    using e ends by (elim disjE; simp add: pop_slash_def)+
  have cut: "take (length (?as @ ?sl)) (drop 9 ?r) = ?as @ ?sl" "drop (length (?as @ ?sl) + 1) (drop 9 ?r) = s"
    unfolding d by simp_all
  show ?thesis
    unfolding metadata_value.simps [of ?r nm] f option.case Let_def drop_0 te cut sl attributes_found [OF ok]
    using at by simp
qed

text \<open>
  Looking up a name in a document gives the content of the first metadata element of that name,
  whatever else the document holds, and nothing when there is none.
\<close>

lemma metadata_lookup:
  "list_all item_ok xs \<Longrightarrow> metadata_value (xml_document xs) nm = metadata_of xs nm"
proof (induction xs)
  case Nil
  show ?case by (simp add: xml_document_def metadata_value.simps)
next
  case (Cons x xs)
  let ?s = "xml_document xs"
  have ih: "metadata_value ?s nm = metadata_of xs nm" and ok: "item_ok x" using Cons by simp_all
  have d: "xml_document (x # xs) = item_text x @ ?s" by (simp add: xml_document_def)
  show ?case
  proof (cases x)
    case (Piece p)
    then show ?thesis unfolding d using metadata_skips_piece [of p ?s nm] ih ok by simp
  next
    case (Instruction i)
    then show ?thesis unfolding d using metadata_skips_marked [of "''<?''" "''?>''" i ?s nm] ih ok by simp
  next
    case (Tag t)
    then show ?thesis unfolding d using metadata_skips_tag [of t ?s nm] ih ok by simp
  next
    case (Meta as body)
    have as: "list_all attribute_ok as" using ok Meta by simp
    show ?thesis
    proof (cases body)
      case None
      then show ?thesis unfolding d using metadata_at_element [OF as, of "''/>''" ?s nm] ih Meta by simp
    next
      case (Some ps)
      have ps: "list_all piece_ok ps" using ok Meta Some by simp
      have close: "metadata_value (''</metadata>'' @ ?s) nm = metadata_value ?s nm"
        using metadata_skips_tag [of "''/metadata''" ?s nm] by (simp add: tag_ok_def)
      have "xml_element_text [] (concat (map piece_text ps) @ ''</metadata>'' @ ?s) ''</metadata'' = concat (map piece_value ps)"
        using element_text_pieces [OF ps, of "[]" "[]" ?s] by simp
      then show ?thesis unfolding d
        using metadata_at_element [OF as, of "''>''" "concat (map piece_text ps) @ ''</metadata>'' @ ?s" nm]
          metadata_skips_pieces [OF ps, of "''</metadata>'' @ ?s" nm] close ih Meta Some by simp
    qed
  qed
qed

end
