(* ===== verification/Title_Match.thy ===== *)
theory Title_Match
  imports Tunnel_Upload Model_Metadata
begin

text \<open>
  Model of how \<open>src/tunnel_upload.cpp\<close> finds the picture of the model a printer prints: the
  listings of its storages, the match by file name, and the fallback that opens the newest sliced
  files and compares their 3MF titles and plates, with its budget and the cache of titles that
  all fetches share. Other fetches may change the cache whenever this one does not hold its lock;
  what they do to it is an argument (\<open>env\<close>).
\<close>

section \<open>Candidates\<close>

type_synonym candidate = "file_entry \<times> string"

definition name_matches_model :: "string \<Rightarrow> string \<Rightarrow> bool" where
  "name_matches_model listing_name model_name \<longleftrightarrow>
     listing_name = model_name \<or>
     \<not> ends_with model_name ''.3mf'' \<and>
     (listing_name = model_name @ ''.gcode.3mf'' \<or> listing_name = model_name @ ''.3mf'')"

definition entry_named_after_model :: "string \<Rightarrow> file_entry \<Rightarrow> bool" where
  "entry_named_after_model model_name f \<longleftrightarrow>
     name_matches_model (fe_name f) model_name \<or>
     name_matches_model
       (case rfind_first (\<lambda>c. c = CHR ''/'') (fe_path f) of None \<Rightarrow> fe_path f | Some i \<Rightarrow> drop (i + 1) (fe_path f)) model_name"

text \<open>A path that was seen before does not count again.\<close>

fun first_by_path :: "string list \<Rightarrow> candidate list \<Rightarrow> candidate list" where
  "first_by_path seen [] = []"
| "first_by_path seen (c # cs) =
     (if fe_path (fst c) \<in> set seen then first_by_path seen cs
      else c # first_by_path (fe_path (fst c) # seen) cs)"

definition merged_candidates :: "(file_entry \<Rightarrow> bool) \<Rightarrow> (string \<times> list_outcome) list \<Rightarrow> candidate list" where
  "merged_candidates keep listings =
     sort_key (\<lambda>c. - fe_time (fst c))
       (first_by_path []
         (concat (map (\<lambda>(storage, l). map (\<lambda>f. (f, storage)) (filter keep (lo_files l))) listings)))"

definition model_list_storages :: "string list" where
  "model_list_storages = [[], ''internal'', ''emmc'']"

definition sub_file_storage_labels :: "string \<Rightarrow> string list" where
  "sub_file_storage_labels list_storage =
     (if list_storage = [] then [''udisk'', []]
      else if list_storage = ''internal'' then [''internal'', ''emmc'']
      else if list_storage = ''emmc'' then [''emmc'', ''internal'']
      else [list_storage])"

definition append_storage_failure :: "string \<Rightarrow> string \<Rightarrow> string \<Rightarrow> string" where
  "append_storage_failure out storage err =
     out @ (if out = [] then [] else ''; '') @ [CHR 0x27] @ storage @ [CHR 0x27] @ '': '' @ err"

definition plate_image_sub_paths :: "string \<Rightarrow> int \<Rightarrow> string list" where
  "plate_image_sub_paths path plate_idx =
     (let n = dec_int (if plate_idx < 1 then 1 else plate_idx)
      in [path @ ''#Metadata/plate_'' @ n @ ''.png'', path @ ''#Metadata/plate_no_light_'' @ n @ ''.png''])"

section \<open>Budget and cache\<close>

definition kTitleCandidateSuffix :: string where "kTitleCandidateSuffix = ''.gcode.3mf''"
definition kMaxTitleCandidates :: nat where "kMaxTitleCandidates = 64"
definition kMaxTitleReadsPerFetch :: int where "kMaxTitleReadsPerFetch = int kMaxTitleCandidates + 16"
definition kMaxTitleBytesPerFetch :: nat where "kMaxTitleBytesPerFetch = 4 * 1024 * 1024"
definition kMaxModelXmlBytes :: nat where "kMaxModelXmlBytes = 256 * 1024"
definition kMaxTitlePrinters :: nat where "kMaxTitlePrinters = 64"

definition title_refusal_is_final :: "int \<Rightarrow> bool" where
  "title_refusal_is_final result \<longleftrightarrow> result \<notin> {- 1, 3, 4, 5, 6, 17, 20, 25}"

definition is_title_candidate :: "file_entry \<Rightarrow> bool" where
  "is_title_candidate f \<longleftrightarrow> ends_with (fe_name f) kTitleCandidateSuffix \<or> ends_with (fe_path f) kTitleCandidateSuffix"

record member_read =
  mr_answered :: bool
  mr_data :: string
  mr_timed_out :: bool
  mr_bytes :: nat

definition no_read :: member_read where
  "no_read = \<lparr>mr_answered = False, mr_data = [], mr_timed_out = False, mr_bytes = 0\<rparr>"

record title_budget =
  tb_reads :: int
  tb_bytes :: nat

definition full_budget :: title_budget where
  "full_budget = \<lparr>tb_reads = kMaxTitleReadsPerFetch, tb_bytes = kMaxTitleBytesPerFetch\<rparr>"

definition exhausted :: "title_budget \<Rightarrow> bool" where
  "exhausted b \<longleftrightarrow> tb_reads b \<le> 0 \<or> tb_bytes b = 0"

definition charge :: "nat \<Rightarrow> title_budget \<Rightarrow> title_budget" where
  "charge n b = \<lparr>tb_reads = tb_reads b - 1, tb_bytes = tb_bytes b - min n (tb_bytes b)\<rparr>"

record title_info =
  ti_title :: string
  ti_plates_known :: bool
  ti_plates :: "int list"

definition untitled :: title_info where
  "untitled = \<lparr>ti_title = [], ti_plates_known = False, ti_plates = []\<rparr>"

record title_cache =
  tc_files :: "string \<Rightarrow> title_info option"
  tc_timed_out :: "string list"

definition empty_cache :: title_cache where
  "empty_cache = \<lparr>tc_files = Map.empty, tc_timed_out = []\<rparr>"

text \<open>\<open>g_titles\<close>: the caches of the printers.\<close>

type_synonym titles = "(string \<times> title_cache) list"

definition cache_of :: "string \<Rightarrow> titles \<Rightarrow> title_cache" where
  "cache_of printer t = (case map_of t printer of None \<Rightarrow> empty_cache | Some c \<Rightarrow> c)"

definition put_cache :: "string \<Rightarrow> title_cache \<Rightarrow> titles \<Rightarrow> titles" where
  "put_cache printer c t = map_assign printer c t"

definition key_of :: "file_entry \<Rightarrow> string" where
  "key_of f = fe_path f @ [CHR 0x01] @ dec_int (fe_time f)"

text \<open>What is not a current candidate is dropped; too many printers start the cache over.\<close>

definition prune_titles :: "string \<Rightarrow> candidate list \<Rightarrow> titles \<Rightarrow> titles" where
  "prune_titles printer order t =
     (let t1 = (if kMaxTitlePrinters \<le> length t \<and> map_of t printer = None then [] else t);
          cached = cache_of printer t1;
          keys = map (key_of \<circ> fst) order
      in put_cache printer
           \<lparr>tc_files = (\<lambda>k. if k \<in> set keys then tc_files cached k else None),
            tc_timed_out = filter (\<lambda>k. k \<in> set keys) (tc_timed_out cached)\<rparr> t1)"

definition cache_title :: "string \<Rightarrow> string \<Rightarrow> title_info \<Rightarrow> titles \<Rightarrow> titles" where
  "cache_title printer key info t =
     (let c = cache_of printer t in put_cache printer (c\<lparr>tc_files := (tc_files c)(key \<mapsto> info)\<rparr>) t)"

text \<open>A second timeout caches the file as untitled; a title another fetch has read meanwhile stays.\<close>

definition note_timeout :: "string \<Rightarrow> string \<Rightarrow> titles \<Rightarrow> string \<times> titles" where
  "note_timeout printer key t =
     (let c = cache_of printer t
      in if tc_files c key \<noteq> None then (''no complete reply in time'', put_cache printer c t)
         else if key \<notin> set (tc_timed_out c)
         then (''no complete reply in time'', put_cache printer (c\<lparr>tc_timed_out := key # tc_timed_out c\<rparr>) t)
         else (''no complete reply twice, treated as untitled'',
               put_cache printer (c\<lparr>tc_timed_out := removeAll key (tc_timed_out c), tc_files := (tc_files c)(key \<mapsto> untitled)\<rparr>) t))"

section \<open>The match by title\<close>

text \<open>
  Reading a member and fetching a picture change a state of their own (the connection). The
  fetcher gets and returns the text of the failures.
\<close>

type_synonym 'w member_reader = "string \<Rightarrow> string \<Rightarrow> string \<Rightarrow> 'w \<Rightarrow> (member_read \<times> 'w) option"
type_synonym 'w tile_fetcher = "file_entry \<Rightarrow> string \<Rightarrow> string \<Rightarrow> 'w \<Rightarrow> ((bool \<times> string) \<times> 'w) option"

record title_run =
  tr_titles :: titles
  tr_budget :: title_budget
  tr_checked :: nat
  tr_tile_failed :: bool
  tr_failures :: string

datatype title_step = Ts_info title_info | Ts_budget | Ts_error string

datatype title_result = Title_hit file_entry | Title_none string

definition need_title ::
  "'w member_reader \<Rightarrow> (string \<Rightarrow> nat \<Rightarrow> titles \<Rightarrow> titles) \<Rightarrow> string \<Rightarrow> candidate \<Rightarrow> title_run \<Rightarrow> 'w \<Rightarrow> (title_step \<times> title_run \<times> 'w) option" where
  "need_title rm env printer c st w =
     (let f = fst c; key = key_of f;
          t = env key 0 (tr_titles st); t0 = put_cache printer (cache_of printer t) t;
          st0 = st\<lparr>tr_titles := t0\<rparr>
      in case tc_files (cache_of printer t0) key of
           Some info \<Rightarrow> Some (Ts_info info, st0, w)
         | None \<Rightarrow>
             if exhausted (tr_budget st) then Some (Ts_budget, st0, w)
             else case rm (fe_path f) (snd c) kModelMember w of
                    None \<Rightarrow> None
                  | Some (r, w1) \<Rightarrow>
                      (let t1 = env key 1 t0; st1 = st\<lparr>tr_budget := charge (mr_bytes r) (tr_budget st)\<rparr>;
                           (why, t2) = (if mr_timed_out r then note_timeout printer key t1 else (''read failed'', t1));
                           info = \<lparr>ti_title = metadata_value (mr_data r) ''Title'', ti_plates_known = False, ti_plates = []\<rparr>
                       in if \<not> mr_answered r
                          then Some (Ts_error (''3MF title read failed ('' @ fe_path f @ '': '' @ why @ '')''), st1\<lparr>tr_titles := t2\<rparr>, w1)
                          else Some (Ts_info info, st1\<lparr>tr_titles := cache_title printer key info t1\<rparr>, w1)))"

definition need_plates ::
  "'w member_reader \<Rightarrow> (string \<Rightarrow> nat \<Rightarrow> titles \<Rightarrow> titles) \<Rightarrow> string \<Rightarrow> candidate \<Rightarrow> title_info \<Rightarrow> title_run \<Rightarrow> 'w \<Rightarrow>
   (title_step \<times> title_run \<times> 'w) option" where
  "need_plates rm env printer c info st w =
     (let f = fst c; key = key_of f
      in if ti_plates_known info then Some (Ts_info info, st, w)
         else if exhausted (tr_budget st) then Some (Ts_budget, st, w)
         else case rm (fe_path f) (snd c) kSliceInfoMember w of
                None \<Rightarrow> None
              | Some (r, w1) \<Rightarrow>
                  (let st1 = st\<lparr>tr_budget := charge (mr_bytes r) (tr_budget st)\<rparr>;
                       info1 = info\<lparr>ti_plates := sliced_plates (mr_data r), ti_plates_known := True\<rparr>
                   in if \<not> mr_answered r
                      then Some (Ts_error (''3MF slice info read failed ('' @ fe_path f @ '')''), st1, w1)
                      else Some (Ts_info info1, st1\<lparr>tr_titles := cache_title printer key info1 (env key 2 (tr_titles st1))\<rparr>, w1)))"

text \<open>The end of the walk without a hit: \<open>n\<close> files were to be walked.\<close>

definition title_error :: "nat \<Rightarrow> bool \<Rightarrow> title_run \<Rightarrow> string" where
  "title_error n out_of_budget st =
     (if tr_tile_failed st then ''SUB_FILE thumbnail failed ('' @ tr_failures st @ '')''
      else if out_of_budget
      then ''3MF title pass out of budget ('' @ dec_digits (n - tr_checked st) @ '' of '' @ dec_digits n @ '' files unchecked)''
      else [])"

fun title_loop ::
  "'w member_reader \<Rightarrow> 'w tile_fetcher \<Rightarrow> (string \<Rightarrow> nat \<Rightarrow> titles \<Rightarrow> titles) \<Rightarrow> string \<Rightarrow> string \<Rightarrow> int \<Rightarrow> nat \<Rightarrow>
   candidate list \<Rightarrow> title_run \<Rightarrow> 'w \<Rightarrow> (title_result \<times> title_run \<times> 'w) option" where
  "title_loop rm ft env printer model_name plate_idx n [] st w = Some (Title_none (title_error n False st), st, w)"
| "title_loop rm ft env printer model_name plate_idx n (c # cs) st w =
     (case need_title rm env printer c st w of
        None \<Rightarrow> None
      | Some (Ts_budget, st1, w1) \<Rightarrow> Some (Title_none (title_error n True st1), st1, w1)
      | Some (Ts_error e, st1, w1) \<Rightarrow> Some (Title_none e, st1, w1)
      | Some (Ts_info info, st1, w1) \<Rightarrow>
          (let st2 = st1\<lparr>tr_checked := tr_checked st1 + 1\<rparr>
           in if ti_title info = [] \<or> ti_title info \<noteq> model_name
              then title_loop rm ft env printer model_name plate_idx n cs st2 w1
              else (case need_plates rm env printer c info st2 w1 of
                      None \<Rightarrow> None
                    | Some (Ts_budget, st3, w2) \<Rightarrow> Some (Title_none (title_error n True st3), st3, w2)
                    | Some (Ts_error e, st3, w2) \<Rightarrow> Some (Title_none e, st3, w2)
                    | Some (Ts_info info1, st3, w2) \<Rightarrow>
                        if plate_idx \<notin> set (ti_plates info1)
                        then title_loop rm ft env printer model_name plate_idx n cs st3 w2
                        else (case ft (fst c) (snd c) (tr_failures st3) w2 of
                                None \<Rightarrow> None
                              | Some ((ok, failures), w3) \<Rightarrow>
                                  (let st4 = st3\<lparr>tr_failures := failures\<rparr>
                                   in if ok then Some (Title_hit (fst c), st4, w3)
                                      else title_loop rm ft env printer model_name plate_idx n cs
                                             (st4\<lparr>tr_tile_failed := True\<rparr>) w3)))))"

definition title_order :: "(string \<times> list_outcome) list \<Rightarrow> candidate list" where
  "title_order listings = take kMaxTitleCandidates (merged_candidates is_title_candidate listings)"

definition match_model_by_title ::
  "'w member_reader \<Rightarrow> 'w tile_fetcher \<Rightarrow> (string \<Rightarrow> nat \<Rightarrow> titles \<Rightarrow> titles) \<Rightarrow> (string \<times> list_outcome) list \<Rightarrow> string \<Rightarrow> string \<Rightarrow> int \<Rightarrow>
   title_budget \<Rightarrow> titles \<Rightarrow> 'w \<Rightarrow> (title_result \<times> title_run \<times> 'w) option" where
  "match_model_by_title rm ft env listings printer model_name plate_idx budget t w =
     (let order = title_order listings
      in title_loop rm ft env printer model_name plate_idx (length order) order
           \<lparr>tr_titles = prune_titles printer order t, tr_budget = budget, tr_checked = 0, tr_tile_failed = False, tr_failures = []\<rparr> w)"

section \<open>Fetching the picture\<close>

record thumbnail =
  mt_ok :: bool
  mt_data :: bytes
  mt_path :: string
  mt_error :: string

definition no_thumbnail :: thumbnail where
  "no_thumbnail = \<lparr>mt_ok = False, mt_data = [], mt_path = [], mt_error = []\<rparr>"

text \<open>A request of a connected connection under the next number; \<open>None\<close> is a null session.\<close>

definition on_wire :: "(u32 \<Rightarrow> wire \<Rightarrow> ('a \<times> wire) option) \<Rightarrow> connection \<Rightarrow> ('a \<times> connection) option" where
  "on_wire f cn = (case cn_wire cn of None \<Rightarrow> None | Some w \<Rightarrow>
     (let (sq, cn1) = next_wire_seq cn in map_option (\<lambda>(r, w1). (r, cn1\<lparr>cn_wire := Some w1\<rparr>)) (f sq w)))"

text \<open>The state of a fetch: the connection and the outcome so far.\<close>

type_synonym fetch = "connection \<times> thumbnail"

fun fetch_labels :: "int \<Rightarrow> file_entry \<Rightarrow> string list \<Rightarrow> string \<Rightarrow> fetch \<Rightarrow> ((bool \<times> string) \<times> fetch) option" where
  "fetch_labels plate_idx hit [] failures (cn, out) = Some ((False, failures), (cn, out))"
| "fetch_labels plate_idx hit (label # labels) failures (cn, out) =
     (case on_wire (\<lambda>sq. run_sub_file sq (plate_image_sub_paths (fe_path hit) plate_idx) label) cn of
        None \<Rightarrow> None
      | Some (sf, cn1) \<Rightarrow>
          if \<not> so_ok sf \<or> so_data sf = [] \<or> \<not> wire_chunk_is_image (so_data sf)
          then fetch_labels plate_idx hit labels (append_storage_failure failures label (so_error sf)) (cn1, out)
          else Some ((True, failures), (cn1, out\<lparr>mt_ok := True, mt_path := fe_path hit, mt_data := so_data sf\<rparr>)))"

definition fetch_tile :: "int \<Rightarrow> fetch tile_fetcher" where
  "fetch_tile plate_idx hit list_storage failures st =
     fetch_labels plate_idx hit (sub_file_storage_labels list_storage) failures st"

text \<open>
  Reading a member under each label of its storage; \<open>late\<close> gives the answers of the clock for the
  request with a number, \<open>nonblocking\<close> tells whether the socket could be switched.
\<close>

fun read_labels ::
  "bool \<Rightarrow> (u32 \<Rightarrow> bool list list) \<Rightarrow> string \<Rightarrow> string list \<Rightarrow> member_read \<Rightarrow> bool \<Rightarrow> nat \<Rightarrow> connection \<Rightarrow> (member_read \<times> connection) option" where
  "read_labels nonblocking late path [] r transient n cn = Some ((if transient then no_read else r)\<lparr>mr_bytes := n\<rparr>, cn)"
| "read_labels nonblocking late path (label # labels) r transient n cn =
     (case on_wire (\<lambda>sq. run_sub_file_data nonblocking (late sq) sq path label kMaxModelXmlBytes) cn of
        None \<Rightarrow> None
      | Some (sf, cn1) \<Rightarrow>
          (let n1 = n + length (so_data sf)
           in if so_ok sf
              then Some (r\<lparr>mr_answered := True, mr_data := string_of_bytes (so_data sf), mr_bytes := n1\<rparr>, cn1)
              else if so_result sf = 0
              then Some (no_read\<lparr>mr_timed_out := so_timed_out sf, mr_bytes := n1\<rparr>, cn1)
              else read_labels nonblocking late path labels (r\<lparr>mr_answered := True\<rparr>)
                     (transient \<or> \<not> title_refusal_is_final (so_result sf)) n1 cn1))"

definition read_member :: "bool \<Rightarrow> (u32 \<Rightarrow> bool list list) \<Rightarrow> fetch member_reader" where
  "read_member nonblocking late path storage member st =
     map_option (\<lambda>(r, cn). (r, (cn, snd st)))
       (read_labels nonblocking late (path @ ''#'' @ member) (sub_file_storage_labels storage) no_read False 0 (fst st))"

fun list_storages ::
  "string list \<Rightarrow> (string \<times> list_outcome) list \<Rightarrow> string \<Rightarrow> connection \<Rightarrow> (((string \<times> list_outcome) list \<times> string) \<times> connection) option" where
  "list_storages [] listings failures cn = Some ((listings, failures), cn)"
| "list_storages (storage # storages) listings failures cn =
     (case on_wire (\<lambda>sq. run_list_info sq storage) cn of
        None \<Rightarrow> None
      | Some (l, cn1) \<Rightarrow>
          if lo_ok l then list_storages storages (listings @ [(storage, l)]) failures cn1
          else list_storages storages listings (append_storage_failure failures storage (lo_error l)) cn1)"

text \<open>The candidates by name: the first whose picture can be read.\<close>

fun fetch_first :: "int \<Rightarrow> candidate list \<Rightarrow> string \<Rightarrow> fetch \<Rightarrow> ((bool \<times> string) \<times> fetch) option" where
  "fetch_first plate_idx [] failures st = Some ((False, failures), st)"
| "fetch_first plate_idx (c # cs) failures st =
     (case fetch_tile plate_idx (fst c) (snd c) failures st of
        None \<Rightarrow> None
      | Some ((ok, failures1), st1) \<Rightarrow>
          if ok then Some ((True, failures1), st1) else fetch_first plate_idx cs failures1 st1)"

definition listing_error :: "(string \<times> list_outcome) list \<Rightarrow> string \<Rightarrow> string" where
  "listing_error listings failures =
     (if listings = [] \<and> failures \<noteq> [] then ''LIST_INFO failed ('' @ failures @ '')''
      else if failures \<noteq> [] then ''model not in LIST_INFO (failed: '' @ failures @ '')''
      else ''model not in LIST_INFO'')"

definition printer_of :: "connect_params \<Rightarrow> string" where
  "printer_of p = (if cp_dev_id p = [] then cp_dev_ip p else cp_dev_id p)"

text \<open>The pass by name, then the one by title; the cache of titles is part of the result.\<close>

definition fetch_listed ::
  "bool \<Rightarrow> (u32 \<Rightarrow> bool list list) \<Rightarrow> (string \<Rightarrow> nat \<Rightarrow> titles \<Rightarrow> titles) \<Rightarrow> string \<Rightarrow> int \<Rightarrow> (string \<times> list_outcome) list \<Rightarrow> string \<Rightarrow>
   titles \<Rightarrow> connection \<Rightarrow> (thumbnail \<times> titles \<times> connection) option" where
  "fetch_listed nonblocking late env model_name plate_idx listings failures t cn =
     (let by_name = merged_candidates (entry_named_after_model model_name) listings
      in if by_name \<noteq> []
         then (case fetch_first plate_idx by_name [] (cn, no_thumbnail) of
                 None \<Rightarrow> None
               | Some ((ok, fails), (cn1, out)) \<Rightarrow>
                   Some (if ok then out else out\<lparr>mt_error := ''SUB_FILE thumbnail failed ('' @ fails @ '')''\<rparr>, t, cn1))
         else if listings = [] then Some (no_thumbnail\<lparr>mt_error := listing_error listings failures\<rparr>, t, cn)
         else (case match_model_by_title (read_member nonblocking late) (fetch_tile plate_idx) env listings (printer_of (cn_params cn))
                      model_name plate_idx full_budget t (cn, no_thumbnail) of
                 None \<Rightarrow> None
               | Some (Title_hit f, st, (cn1, out)) \<Rightarrow> Some (out, tr_titles st, cn1)
               | Some (Title_none err, st, (cn1, out)) \<Rightarrow>
                   Some (out\<lparr>mt_error := (if err \<noteq> [] then err else listing_error listings failures)\<rparr>, tr_titles st, cn1)))"

definition fetch_model_tile_thumbnail ::
  "bool \<Rightarrow> (u32 \<Rightarrow> bool list list) \<Rightarrow> (string \<Rightarrow> nat \<Rightarrow> titles \<Rightarrow> titles) \<Rightarrow> string \<Rightarrow> int \<Rightarrow> titles \<Rightarrow> connection \<Rightarrow>
   (thumbnail \<times> titles \<times> connection) option" where
  "fetch_model_tile_thumbnail nonblocking late env model_name plate_idx t cn =
     (if cn_wire cn = None then Some (no_thumbnail\<lparr>mt_error := ''not connected''\<rparr>, t, cn)
      else if model_name = [] then Some (no_thumbnail\<lparr>mt_error := ''missing model name''\<rparr>, t, cn)
      else case list_storages model_list_storages [] [] cn of
             None \<Rightarrow> None
           | Some ((listings, failures), cn1) \<Rightarrow>
               fetch_listed nonblocking late env model_name (if plate_idx < 1 then 1 else plate_idx) listings failures t cn1)"

section \<open>Candidates are the newest, each path once\<close>








section \<open>The cache tells the truth\<close>




















section \<open>Properties\<close>












end
