(* ===== verification/H264_Avcc.thy ===== *)
theory H264_Avcc
  imports Json_Lite
begin

text \<open>
  Model of \<open>stubs/h264_avcc.cpp\<close>, the conversion of H.264 access units for the player: the scan
  for start codes, the length-prefixed form, the parameter sets, and the reader of the picture
  size and frame rate from a sequence parameter set. A scan works on the bytes that are left, and
  gives positions relative to them. A signed overflow, which C++ leaves undefined, is \<open>None\<close>;
  \<open>double\<close>s are the binary64 values of \<open>Json_Lite\<close>.
\<close>

section \<open>Start codes and NAL units\<close>

text \<open>The position and the length (3 or 4) of the next start code.\<close>

fun find_start_code :: "bytes \<Rightarrow> (nat \<times> nat) option" where
  "find_start_code (a # b # c # r) =
     (if a = 0 \<and> b = 0 \<and> c = 1 then Some (0, 3)
      else if a = 0 \<and> b = 0 \<and> c = 0 \<and> r \<noteq> [] \<and> hd r = 1 then Some (0, 4)
      else map_option (map_prod Suc id) (find_start_code (b # c # r)))"
| "find_start_code d = None"

lemma find_start_code_bounds:
  "find_start_code d = Some (i, n) \<Longrightarrow> 3 \<le> n \<and> n \<le> 4 \<and> i + n \<le> length d"
proof (induction d arbitrary: i rule: find_start_code.induct)
  case (1 a b c r)
  then show ?case by (cases r) (auto split: if_splits)
qed auto

text \<open>The units between start codes, in order; \<open>d\<close> is what follows a start code.\<close>

function nals_after :: "bytes \<Rightarrow> bytes list" where
  "nals_after d =
     (case find_start_code d of
        None \<Rightarrow> (if d = [] then [] else [d])
      | Some (i, n) \<Rightarrow> (if i = 0 then [] else [take i d]) @ nals_after (drop (i + n) d))"
  by pat_completeness auto
termination
  by (relation "measure length") (auto dest!: find_start_code_bounds)

declare nals_after.simps [simp del]

definition for_each_nal :: "bytes \<Rightarrow> bytes list" where
  "for_each_nal data =
     (case find_start_code data of None \<Rightarrow> [] | Some (i, n) \<Rightarrow> nals_after (drop (i + n) data))"

definition nal_type :: "bytes \<Rightarrow> byte" where
  "nal_type nal = hd nal AND 0x1f"

section \<open>Conversion\<close>

record avcc_frame =
  af_data :: bytes
  af_idr :: bool

record parameter_sets =
  ps_sps :: bytes
  ps_pps :: bytes

definition append_avcc_nal :: "bytes \<Rightarrow> bytes \<Rightarrow> bytes option" where
  "append_avcc_nal out nal =
     (if length nal > 2 ^ 32 - 1 then None
      else let n = (of_nat (length nal) :: u32)
           in Some (out @ [ucast (drop_bit 24 n), ucast (drop_bit 16 n), ucast (drop_bit 8 n), ucast n] @ nal))"

definition avcc_nal :: "bytes \<Rightarrow> bool \<times> avcc_frame \<Rightarrow> bool \<times> avcc_frame" where
  "avcc_nal nal st =
     (let (ok, out) = st
      in if \<not> ok \<or> nal_type nal = 7 \<or> nal_type nal = 8 \<or> nal_type nal = 9 then st
         else let out1 = out\<lparr>af_idr := af_idr out \<or> nal_type nal = 5\<rparr>
              in case append_avcc_nal (af_data out1) nal of
                   None \<Rightarrow> (False, out1)
                 | Some d \<Rightarrow> (True, out1\<lparr>af_data := d\<rparr>))"

definition annexb_to_avcc :: "bytes \<Rightarrow> bool \<times> avcc_frame" where
  "annexb_to_avcc data =
     (let (ok, out) = fold avcc_nal (for_each_nal data) (True, \<lparr>af_data = [], af_idr = False\<rparr>)
      in if \<not> ok then (False, \<lparr>af_data = [], af_idr = False\<rparr>) else (af_data out \<noteq> [], out))"

definition keep_set :: "bytes \<Rightarrow> parameter_sets \<Rightarrow> parameter_sets" where
  "keep_set nal ps =
     (if nal_type nal = 7 then ps\<lparr>ps_sps := nal\<rparr> else if nal_type nal = 8 then ps\<lparr>ps_pps := nal\<rparr> else ps)"

definition extract_parameter_sets :: "bytes \<Rightarrow> bool \<times> parameter_sets" where
  "extract_parameter_sets data =
     (let ps = fold keep_set (for_each_nal data) \<lparr>ps_sps = [], ps_pps = []\<rparr>
      in (ps_sps ps \<noteq> [] \<and> ps_pps ps \<noteq> [], ps))"

definition contains_idr :: "bytes \<Rightarrow> bool" where
  "contains_idr data = (\<exists>nal \<in> set (for_each_nal data). nal_type nal = 5)"

section \<open>Reading bits\<close>

record rbsp =
  rb_buf :: bytes
  rb_bit :: nat
  rb_ok :: bool

fun strip_emulation :: "bytes \<Rightarrow> bytes" where
  "strip_emulation (a # b # c # r) =
     (if a = 0 \<and> b = 0 \<and> c = 3 then 0 # 0 # strip_emulation r else a # strip_emulation (b # c # r))"
| "strip_emulation d = d"

definition rbsp_reader :: "bytes \<Rightarrow> rbsp" where
  "rbsp_reader data = \<lparr>rb_buf = strip_emulation data, rb_bit = 0, rb_ok = True\<rparr>"

fun u_loop :: "nat \<Rightarrow> u32 \<Rightarrow> rbsp \<Rightarrow> u32 \<times> rbsp" where
  "u_loop 0 v r = (v, r)"
| "u_loop (Suc n) v r =
     (if length (rb_buf r) \<le> rb_bit r div 8 then (0, r\<lparr>rb_ok := False\<rparr>)
      else u_loop n (push_bit 1 v OR (ucast (drop_bit (7 - rb_bit r mod 8) (rb_buf r ! (rb_bit r div 8))) AND 1))
             (r\<lparr>rb_bit := rb_bit r + 1\<rparr>))"

definition read_u :: "nat \<Rightarrow> rbsp \<Rightarrow> u32 \<times> rbsp" where
  "read_u n r = u_loop n 0 r"

text \<open>The leading zeros of an Exp-Golomb code; \<open>None\<close> when there are more than 31.\<close>

function ue_zeros :: "nat \<Rightarrow> rbsp \<Rightarrow> nat option \<times> rbsp" where
  "ue_zeros zeros r =
     (if \<not> rb_ok r then (Some zeros, r)
      else let (b, r1) = read_u 1 r
           in if b \<noteq> 0 then (Some zeros, r1)
              else if 31 < zeros + 1 then (None, r1\<lparr>rb_ok := False\<rparr>)
              else ue_zeros (zeros + 1) r1)"
  by pat_completeness auto
termination
  by (relation "measure (\<lambda>(zeros, r). 32 - zeros)") auto

declare ue_zeros.simps [simp del]

definition read_ue :: "rbsp \<Rightarrow> u32 \<times> rbsp" where
  "read_ue r =
     (case ue_zeros 0 r of
        (None, r1) \<Rightarrow> (0, r1)
      | (Some zeros, r1) \<Rightarrow>
          if \<not> rb_ok r1 \<or> zeros = 0 then (0, r1)
          else let (v, r2) = read_u zeros r1 in (push_bit zeros 1 - 1 + v, r2))"

definition read_se :: "rbsp \<Rightarrow> int \<times> rbsp" where
  "read_se r =
     (let (k, r1) = read_ue r; mag = sint ((k + 1) div 2)
      in (if k = 0 then 0 else if k AND 1 \<noteq> 0 then mag else - mag, r1))"

definition profile_has_chroma_block :: "int \<Rightarrow> bool" where
  "profile_has_chroma_block p = (p \<in> set [100, 110, 122, 244, 44, 83, 86, 118, 128, 138, 139, 134, 135])"

text \<open>C++'s remainder, and the range of \<open>int32_t\<close>.\<close>

definition c_rem :: "int \<Rightarrow> int \<Rightarrow> int" where
  "c_rem a b = (if 0 \<le> a then a mod b else - ((- a) mod b))"

definition in_s32 :: "int \<Rightarrow> bool" where
  "in_s32 i = (- (2 ^ 31) \<le> i \<and> i < 2 ^ 31)"

fun skip_scaling_list :: "nat \<Rightarrow> int \<Rightarrow> int \<Rightarrow> rbsp \<Rightarrow> rbsp option" where
  "skip_scaling_list 0 last_scale next_scale r = Some r"
| "skip_scaling_list (Suc n) last_scale next_scale r =
     (if \<not> rb_ok r then Some r
      else if next_scale = 0 then skip_scaling_list n last_scale next_scale r
      else let (d, r1) = read_se r; nxt = c_rem (last_scale + d + 256) 256
           in if in_s32 (last_scale + d) \<and> in_s32 (last_scale + d + 256)
              then skip_scaling_list n (if nxt = 0 then last_scale else nxt) nxt r1 else None)"

text \<open>The scaling lists from number \<open>i\<close> on, of \<open>n_lists\<close>.\<close>

function scaling_lists :: "nat \<Rightarrow> nat \<Rightarrow> rbsp \<Rightarrow> rbsp option" where
  "scaling_lists n_lists i r =
     (if n_lists \<le> i \<or> \<not> rb_ok r then Some r
      else let (present, r1) = read_u 1 r
           in if present \<noteq> 0
              then Option.bind (skip_scaling_list (if i < 6 then 16 else 64) 8 8 r1) (scaling_lists n_lists (i + 1))
              else scaling_lists n_lists (i + 1) r1)"
  by pat_completeness auto
termination
  by (relation "measure (\<lambda>(n_lists, i, r). n_lists - i)") auto

declare scaling_lists.simps [simp del]

section \<open>The picture size and frame rate\<close>

text \<open>Syntax elements that are read and not used.\<close>

definition skip_u :: "nat \<Rightarrow> rbsp \<Rightarrow> rbsp" where
  "skip_u n r = snd (read_u n r)"

definition skip_ue :: "rbsp \<Rightarrow> rbsp" where
  "skip_ue r = snd (read_ue r)"

definition skip_se :: "rbsp \<Rightarrow> rbsp" where
  "skip_se r = snd (read_se r)"

text \<open>A flag, and what is read when it is set.\<close>

definition when_flag :: "(rbsp \<Rightarrow> rbsp) \<Rightarrow> rbsp \<Rightarrow> rbsp" where
  "when_flag f r = (let (b, r1) = read_u 1 r in if b \<noteq> 0 then f r1 else r1)"

definition read_chroma :: "int \<Rightarrow> rbsp \<Rightarrow> ((u32 \<times> bool) \<times> rbsp) option" where
  "read_chroma profile_idc r =
     (if \<not> profile_has_chroma_block profile_idc then Some ((1, False), r)
      else let (idc, r1) = read_ue r;
               (separate, r2) = (if idc = 3 then (let (b, r') = read_u 1 r1 in (b \<noteq> 0, r')) else (False, r1));
               (scaling, r3) = read_u 1 (skip_u 1 (skip_ue (skip_ue r2)))
           in if scaling \<noteq> 0
              then map_option (Pair (idc, separate)) (scaling_lists (if idc \<noteq> 3 then 8 else 12) 0 r3)
              else Some ((idc, separate), r3))"

fun skip_offsets :: "nat \<Rightarrow> rbsp \<Rightarrow> rbsp" where
  "skip_offsets 0 r = r"
| "skip_offsets (Suc n) r = (if \<not> rb_ok r then r else skip_offsets n (skip_se r))"

definition skip_poc :: "rbsp \<Rightarrow> rbsp" where
  "skip_poc r =
     (let (poc_type, r1) = read_ue r
      in if poc_type = 0 then skip_ue r1
         else if poc_type = 1
         then (let (n, r2) = read_ue (skip_se (skip_se (skip_u 1 r1))) in skip_offsets (unat n) r2)
         else r1)"

definition read_crop :: "rbsp \<Rightarrow> (u32 \<times> u32 \<times> u32 \<times> u32) \<times> rbsp" where
  "read_crop r =
     (let (present, r1) = read_u 1 r
      in if present \<noteq> 0
         then (let (l, r2) = read_ue r1; (rt, r3) = read_ue r2; (t, r4) = read_ue r3; (b, r5) = read_ue r4
               in ((l, rt, t, b), r5))
         else ((0, 0, 0, 0), r1))"

text \<open>Frames per second from the timing information: one tick is a field.\<close>

definition frame_rate :: "u32 \<Rightarrow> u32 \<Rightarrow> int" where
  "frame_rate num_units_in_tick time_scale =
     (let v = the (b64_round (of_nat (unat time_scale) / (2 * of_nat (unat num_units_in_tick))))
      in if 0 < v \<and> v < 1000 then trunc_int (the (b64_round (v + 1 / 2))) else 0)"

definition read_timing :: "rbsp \<Rightarrow> int \<times> rbsp" where
  "read_timing r =
     (let (present, r1) = read_u 1 r
      in if present \<noteq> 0
         then (let (num, r2) = read_u 32 r1; (scale, r3) = read_u 32 r2; r4 = skip_u 1 r3
               in (if rb_ok r4 \<and> num \<noteq> 0 \<and> scale \<noteq> 0 then frame_rate num scale else 0, r4))
         else (0, r1))"

definition skip_aspect :: "rbsp \<Rightarrow> rbsp" where
  "skip_aspect r = (let (idc, r1) = read_u 8 r in if idc = 255 then skip_u 16 (skip_u 16 r1) else r1)"

definition skip_colour :: "rbsp \<Rightarrow> rbsp" where
  "skip_colour r = when_flag (\<lambda>r. skip_u 8 (skip_u 8 (skip_u 8 r))) (skip_u 1 (skip_u 3 r))"

definition read_vui :: "rbsp \<Rightarrow> int \<times> rbsp" where
  "read_vui r =
     (let (present, r1) = read_u 1 r
      in if present \<noteq> 0
         then read_timing (when_flag (skip_ue \<circ> skip_ue) (when_flag skip_colour (when_flag (skip_u 1) (when_flag skip_aspect r1))))
         else (0, r1))"

text \<open>
  The size in pixels. Sums of offsets are 32-bit and may wrap; products are 64-bit, and fit.
\<close>

definition picture_size :: "u32 \<Rightarrow> bool \<Rightarrow> u32 \<Rightarrow> u32 \<Rightarrow> bool \<Rightarrow> u32 \<times> u32 \<times> u32 \<times> u32 \<Rightarrow> int \<times> int" where
  "picture_size chroma_format_idc separate width_mbs height_maps frame_mbs_only crop =
     (let (crop_l, crop_r, crop_t, crop_b) = crop;
          chroma_array_type = (if separate then 0 else chroma_format_idc);
          unit_x = (if chroma_array_type = 1 \<or> chroma_array_type = 2 then 2 else 1);
          unit_y = (if chroma_array_type = 1 then 2 else 1) * (if frame_mbs_only then 1 else 2)
      in (uint width_mbs * 16 - uint (crop_l + crop_r) * unit_x,
          uint height_maps * 16 * (if frame_mbs_only then 1 else 2) - uint (crop_t + crop_b) * unit_y))"

record sps_geometry =
  sg_width :: int
  sg_height :: int
  sg_fps :: int

text \<open>The outer \<open>None\<close> is a signed overflow, the inner one a refusal.\<close>

definition parse_sps_geometry :: "bytes \<Rightarrow> sps_geometry option option" where
  "parse_sps_geometry sps =
     (if length sps < 4 then Some None
      else let (profile, r1) = read_u 8 (rbsp_reader (tl sps))
           in case read_chroma (uint profile) (skip_ue (skip_u 8 (skip_u 8 r1))) of
                None \<Rightarrow> None
              | Some ((idc, separate), r2) \<Rightarrow>
                  (let r3 = skip_u 1 (skip_ue (skip_poc (skip_ue r2)));
                       (w1, r4) = read_ue r3; (h1, r5) = read_ue r4; (mbs, r6) = read_u 1 r5;
                       r7 = skip_u 1 (if mbs \<noteq> 0 then r6 else skip_u 1 r6);
                       (crop, r8) = read_crop r7; (fps, r9) = read_vui r8;
                       (w, h) = picture_size idc separate (w1 + 1) (h1 + 1) (mbs \<noteq> 0) crop
                   in if \<not> rb_ok r9 then Some None
                      else if w \<le> 0 \<or> h \<le> 0 \<or> 16384 < w \<or> 16384 < h then Some None
                      else Some (Some \<lparr>sg_width = w, sg_height = h, sg_fps = fps\<rparr>)))"

section \<open>Units are found where they were put\<close>

definition start_code :: "bool \<Rightarrow> bytes" where
  "start_code four = (if four then [0, 0, 0, 1] else [0, 0, 1])"

text \<open>A stream of units, each behind a start code of three or four bytes.\<close>

definition annexb :: "(bool \<times> bytes) list \<Rightarrow> bytes" where
  "annexb ns = concat (map (\<lambda>(four, nal). start_code four @ nal) ns)"

text \<open>What H.264 demands of a unit: it holds no start code and does not end in a zero byte.\<close>

definition nal_ok :: "bytes \<Rightarrow> bool" where
  "nal_ok nal = (nal \<noteq> [] \<and> last nal \<noteq> 0 \<and> find_start_code nal = None)"

lemma find_start_code_nonzero: "a \<noteq> 0 \<Longrightarrow> find_start_code (a # s) = map_option (map_prod Suc id) (find_start_code s)"
  by (cases s rule: find_start_code.cases) auto

lemma nal_ok_tl:
  assumes "nal_ok (a # nal)" "nal \<noteq> []"
  shows "nal_ok nal" "find_start_code (a # nal @ s) = map_option (map_prod Suc id) (find_start_code (nal @ s))"
proof -
  have "nal_ok nal \<and> find_start_code (a # nal @ s) = map_option (map_prod Suc id) (find_start_code (nal @ s))"
    using assms unfolding nal_ok_def by (cases nal rule: find_start_code.cases; cases s) (auto split: if_splits)
  then show "nal_ok nal" "find_start_code (a # nal @ s) = map_option (map_prod Suc id) (find_start_code (nal @ s))"
    by blast+
qed

lemma find_start_code_behind:
  "nal_ok nal \<Longrightarrow> find_start_code (nal @ s) = map_option (map_prod ((+) (length nal)) id) (find_start_code s)"
proof (induction nal)
  case (Cons a nal)
  show ?case
  proof (cases "nal = []")
    case True
    then show ?thesis using Cons.prems by (simp add: nal_ok_def find_start_code_nonzero map_prod_def)
  next
    case False
    then show ?thesis using nal_ok_tl [OF Cons.prems False] Cons.IH
      by (simp add: option.map_comp comp_def map_prod_def split_def)
  qed
qed (simp add: nal_ok_def)

lemma find_start_code_annexb:
  "find_start_code (annexb ns) = (case ns of [] \<Rightarrow> None | (four, nal) # ns' \<Rightarrow> Some (0, length (start_code four)))"
  by (auto simp: annexb_def start_code_def split: list.splits)

lemma nals_after_annexb: "nal_ok nal \<Longrightarrow> list_all (nal_ok \<circ> snd) ns \<Longrightarrow> nals_after (nal @ annexb ns) = nal # map snd ns"
proof (induction ns arbitrary: nal)
  case Nil
  then show ?case by (subst nals_after.simps) (simp add: annexb_def nal_ok_def)
next
  case (Cons n ns)
  obtain four nal' where n: "n = (four, nal')" by (cases n)
  have split: "nal @ annexb (n # ns) = nal @ start_code four @ nal' @ annexb ns" by (simp add: annexb_def n)
  show ?case using Cons.prems Cons.IH [of nal']
    by (subst nals_after.simps) (simp add: find_start_code_behind find_start_code_annexb n, simp add: annexb_def nal_ok_def)
qed

lemma for_each_nal_annexb: "list_all (nal_ok \<circ> snd) ns \<Longrightarrow> for_each_nal (annexb ns) = map snd ns"
proof (cases ns)
  case (Cons n ns')
  assume "list_all (nal_ok \<circ> snd) ns"
  then have "nals_after (snd n @ annexb ns') = map snd ns" using Cons nals_after_annexb [of "snd n" ns'] by simp
  moreover have "drop (length (start_code (fst n))) (annexb ns) = snd n @ annexb ns'" by (simp add: Cons annexb_def split_def)
  ultimately show ?thesis by (simp add: for_each_nal_def find_start_code_annexb Cons split_def)
qed (simp add: for_each_nal_def annexb_def)

section \<open>The length-prefixed form\<close>

text \<open>How the player takes a frame apart: big-endian lengths, each followed by its unit.\<close>

definition avcc_size :: "bytes \<Rightarrow> nat" where
  "avcc_size d = ((unat (d ! 0) * 256 + unat (d ! 1)) * 256 + unat (d ! 2)) * 256 + unat (d ! 3)"

function avcc_units :: "bytes \<Rightarrow> bytes list option" where
  "avcc_units d =
     (if d = [] then Some []
      else if length d < 4 \<or> length d < 4 + avcc_size d then None
      else map_option ((#) (take (avcc_size d) (drop 4 d))) (avcc_units (drop (4 + avcc_size d) d)))"
  by pat_completeness auto
termination
  by (relation "measure length") auto

declare avcc_units.simps [simp del]

lemma append_avcc_nal_size:
  assumes "length nal < 2 ^ 32"
  obtains p where "append_avcc_nal out nal = Some (out @ p @ nal)" "length p = 4" "\<And>s. avcc_size (p @ s) = length nal"
proof -
  let ?n = "of_nat (length nal) :: u32"
  let ?p = "[ucast (drop_bit 24 ?n), ucast (drop_bit 16 ?n), ucast (drop_bit 8 ?n), ucast ?n] :: bytes"
  have u: "unat ?n = length nal" using assms by (simp add: unat_of_nat take_bit_nat_eq_self)
  have b: "unat (ucast (drop_bit k ?n) :: byte) = length nal div 2 ^ k mod 256" for k
  proof -
    have "unat (drop_bit k ?n) = length nal div 2 ^ k" using u by (metis unat_drop_bit_eq drop_bit_eq_div)
    then show ?thesis by (simp add: unsigned_ucast_eq take_bit_eq_mod)
  qed
  have b0: "unat (ucast ?n :: byte) = length nal mod 256" using b [of 0] by simp
  have "((m div 2 ^ 24 mod 256 * 256 + m div 2 ^ 16 mod 256) * 256 + m div 2 ^ 8 mod 256) * 256 + m mod 256 = m" if "m < 2 ^ 32" for m :: nat
  proof -
    have "m div 2 ^ 24 mod 256 = m div 2 ^ 24" using that by (simp add: less_mult_imp_div_less)
    moreover have "m div 2 ^ 24 = m div 2 ^ 16 div 256" "m div 2 ^ 16 = m div 2 ^ 8 div 256" "m div 2 ^ 8 = m div 256"
      by (simp_all add: div_mult2_eq [symmetric])
    ultimately show ?thesis by (simp only: div_mult_mod_eq)
  qed
  from this [OF assms] have "avcc_size (?p @ s) = length nal" for s
    using less_mult_imp_div_less [of "length nal" 256 "2 ^ 24"] assms unfolding avcc_size_def by (simp add: b b0)
  moreover have "append_avcc_nal out nal = Some (out @ ?p @ nal)" using assms by (simp add: append_avcc_nal_def Let_def)
  ultimately show thesis by (intro that [of ?p]) simp_all
qed

definition sample_nal :: "bytes \<Rightarrow> bool" where
  "sample_nal nal = (nal_type nal \<notin> {7, 8, 9})"

lemma fold_avcc_nal:
  assumes "\<forall>nal \<in> set nals. length nal < 2 ^ 32"
  shows "\<exists>d. fold avcc_nal nals (True, out) =
      (True, \<lparr>af_data = af_data out @ d, af_idr = (af_idr out \<or> (\<exists>nal \<in> set nals. nal_type nal = 5))\<rparr>) \<and>
    avcc_units d = Some (filter sample_nal nals) \<and> (d = [] \<longleftrightarrow> filter sample_nal nals = [])"
  using assms
proof (induction nals arbitrary: out)
  case Nil
  then show ?case by (simp add: avcc_units.simps)
next
  case (Cons nal nals)
  show ?case
  proof (cases "sample_nal nal")
    case False
    then have "avcc_nal nal (True, out) = (True, out)" "nal_type nal \<noteq> 5" by (auto simp: avcc_nal_def sample_nal_def)
    then show ?thesis using Cons.IH [of out] Cons.prems False by simp
  next
    case True
    from Cons.prems have "length nal < 2 ^ 32" by simp
    then obtain p where p: "append_avcc_nal (af_data out) nal = Some (af_data out @ p @ nal)" "length p = 4"
        "\<And>s. avcc_size (p @ s) = length nal" by (rule append_avcc_nal_size [where out = "af_data out"]) blast
    let ?out = "\<lparr>af_data = af_data out @ p @ nal, af_idr = af_idr out \<or> nal_type nal = 5\<rparr>"
    have step: "avcc_nal nal (True, out) = (True, ?out)" using True p(1) by (auto simp: avcc_nal_def sample_nal_def Let_def)
    obtain d where d: "fold avcc_nal nals (True, ?out) =
        (True, \<lparr>af_data = af_data ?out @ d, af_idr = (af_idr ?out \<or> (\<exists>nal \<in> set nals. nal_type nal = 5))\<rparr>)"
        "avcc_units d = Some (filter sample_nal nals)" using Cons.IH [of ?out] Cons.prems by auto
    have "avcc_units (p @ nal @ d) = Some (nal # filter sample_nal nals)"
      using p(2,3) d(2) by (subst avcc_units.simps) (auto simp del: One_nat_def)
    moreover have "p @ nal @ d \<noteq> []" using p(2) by auto
    ultimately show ?thesis using step d(1) True by (intro exI [of _ "p @ nal @ d"]) auto
  qed
qed

lemma fold_keep_set:
  "fold keep_set nals ps =
     \<lparr>ps_sps = last (ps_sps ps # filter (\<lambda>nal. nal_type nal = 7) nals), ps_pps = last (ps_pps ps # filter (\<lambda>nal. nal_type nal = 8) nals)\<rparr>"
  by (induction nals rule: rev_induct) (auto simp: keep_set_def)

section \<open>Reading back what was written\<close>

definition bits_of_byte :: "byte \<Rightarrow> bool list" where
  "bits_of_byte b = map (\<lambda>i. bit b (7 - i)) [0..<8]"

definition bits_of :: "bytes \<Rightarrow> bool list" where
  "bits_of bs = concat (map bits_of_byte bs)"

lemma bits_of_simps [simp]: "bits_of [] = []" "bits_of (b # bs) = bits_of_byte b @ bits_of bs" "length (bits_of_byte b) = 8"
  by (simp_all add: bits_of_def bits_of_byte_def)

lemma length_bits_of [simp]: "length (bits_of bs) = 8 * length bs"
  by (induction bs) simp_all

lemma nth_bits_of: "i < 8 * length bs \<Longrightarrow> bits_of bs ! i = bit (bs ! (i div 8)) (7 - i mod 8)"
proof (induction bs arbitrary: i)
  case (Cons b bs)
  show ?case
  proof (cases "i < 8")
    case True
    then show ?thesis by (simp add: nth_append bits_of_byte_def)
  next
    case False
    then have "i div 8 = Suc ((i - 8) div 8)" "i mod 8 = (i - 8) mod 8" by (simp_all add: le_div_geq le_mod_geq)
    with False Cons show ?thesis by (simp add: nth_append)
  qed
qed simp

text \<open>A reader that is in order and has these bits before it.\<close>

definition before :: "rbsp \<Rightarrow> bool list \<Rightarrow> bool" where
  "before r bs = (rb_ok r \<and> drop (rb_bit r) (bits_of (rb_buf r)) = bs)"

definition append_bit :: "u32 \<Rightarrow> bool \<Rightarrow> u32" where
  "append_bit v b = push_bit 1 v OR of_bool b"

lemma u_loop_at: "before r (xs @ bs) \<Longrightarrow> \<exists>r'. u_loop (length xs) v r = (foldl append_bit v xs, r') \<and> before r' bs"
proof (induction xs arbitrary: v r)
  case (Cons x xs)
  let ?i = "rb_bit r"
  from Cons.prems have ok: "rb_ok r" and d: "drop ?i (bits_of (rb_buf r)) = x # xs @ bs" by (simp_all add: before_def)
  from d have len: "?i < 8 * length (rb_buf r)" by (metis drop_eq_Nil length_bits_of linorder_not_le list.distinct(1))
  with d have x: "bits_of (rb_buf r) ! ?i = x" and d': "drop (Suc ?i) (bits_of (rb_buf r)) = xs @ bs"
    by (metis hd_drop_conv_nth length_bits_of list.sel(1), metis drop_Suc list.sel(3) tl_drop)
  have "ucast (drop_bit k b) AND 1 = (of_bool (bit b k) :: u32)" for k and b :: byte
    by (rule bit_word_eqI) (auto simp: bit_and_iff bit_unsigned_iff bit_drop_bit_eq bit_1_iff intro: gr0I)
  then have step: "u_loop (length (x # xs)) v r = u_loop (length xs) (append_bit v x) (r\<lparr>rb_bit := ?i + 1\<rparr>)"
    using len x by (auto simp: append_bit_def nth_bits_of)
  show ?case using Cons.IH [of "r\<lparr>rb_bit := ?i + 1\<rparr>"] ok d' step by (simp add: before_def)
qed (simp add: before_def)

text \<open>The contract of a syntax element: what a writer puts before a reader is read, and nothing else.\<close>

locale syntax_element =
  fixes enc :: "'a \<Rightarrow> bool list" and dec :: "rbsp \<Rightarrow> 'b \<times> rbsp" and meaning :: "'a \<Rightarrow> 'b" and valid :: "'a \<Rightarrow> bool"
  assumes read_at: "valid v \<Longrightarrow> before r (enc v @ bs) \<Longrightarrow> \<exists>r'. dec r = (meaning v, r') \<and> before r' bs"
begin

lemma reads:
  assumes "before r (enc v @ bs)" "valid v"
  obtains r' where "dec r = (meaning v, r')" "before r' bs"
  using read_at assms by blast

lemma skips: "before r (enc v @ bs) \<Longrightarrow> valid v \<Longrightarrow> before (snd (dec r)) bs"
  using read_at by (metis snd_conv)

lemma skips_all: "before r (concat (map enc vs) @ bs) \<Longrightarrow> \<forall>v \<in> set vs. valid v \<Longrightarrow> before (fold (\<lambda>_ r. snd (dec r)) vs r) bs"
proof (induction vs arbitrary: r)
  case (Cons v vs)
  then have "before (snd (dec r)) (concat (map enc vs) @ bs)" using skips by simp
  with Cons show ?case by simp
qed simp

end

text \<open>The low \<open>n\<close> bits of a number, highest first.\<close>

fun ubits :: "nat \<Rightarrow> nat \<Rightarrow> bool list" where
  "ubits 0 v = []"
| "ubits (Suc n) v = ubits n (v div 2) @ [odd v]"

lemma length_ubits [simp]: "length (ubits n v) = n"
  by (induction n arbitrary: v) simp_all

lemma append_bit_value: "append_bit v b = 2 * v + of_bool b"
  by (cases b) (simp_all add: append_bit_def or_one_eq push_bit_double)

lemma foldl_ubits: "v < 2 ^ n \<Longrightarrow> foldl append_bit 0 (ubits n v) = of_nat v"
proof (induction n arbitrary: v)
  case (Suc n)
  then have "foldl append_bit 0 (ubits n (v div 2)) = of_nat (v div 2)" by (simp add: less_mult_imp_div_less)
  then have "foldl append_bit 0 (ubits (Suc n) v) = 2 * of_nat (v div 2) + of_bool (odd v)"
    by (simp only: ubits.simps foldl_append foldl.simps append_bit_value)
  also have "\<dots> = of_nat (2 * (v div 2) + v mod 2)" by (simp add: mod_2_eq_odd)
  finally show ?case by simp
qed simp

interpretation u: syntax_element "ubits n" "read_u n" "of_nat" "\<lambda>v. v < 2 ^ n" for n
proof
  fix v r bs
  assume "v < 2 ^ n" "before r (ubits n v @ bs)"
  then show "\<exists>r'. read_u n r = (of_nat v, r') \<and> before r' bs"
    using u_loop_at [of r "ubits n v" bs 0] foldl_ubits [of v n] by (simp add: read_u_def)
qed

interpretation flag: syntax_element "\<lambda>b. [b]" "read_u 1" "of_bool" "\<lambda>b. True"
proof
  fix b r bs
  assume "before r ([b] @ bs)"
  then show "\<exists>r'. read_u 1 r = (of_bool b, r') \<and> before r' bs"
    using u.read_at [of "of_bool b" 1 r bs] by (cases b) simp_all
qed

text \<open>Exp-Golomb codes, unsigned and signed.\<close>

definition ue_bits :: "nat \<Rightarrow> bool list" where
  "ue_bits v = (let z = ilog2 (v + 1) in replicate z False @ [True] @ ubits z (v + 1 - 2 ^ z))"

lemma ue_zeros_before:
  "before r (replicate k False @ [True] @ bs) \<Longrightarrow> z + k < 32 \<Longrightarrow> \<exists>r'. ue_zeros z r = (Some (z + k), r') \<and> before r' bs"
proof (induction k arbitrary: z r)
  case 0
  then have "before r ([True] @ bs)" by simp
  then obtain r' where "read_u 1 r = (of_bool True, r')" "before r' bs" by (rule flag.reads) simp
  with 0 show ?case by (subst ue_zeros.simps) (simp add: before_def)
next
  case (Suc k)
  then have "before r ([False] @ replicate k False @ [True] @ bs)" by simp
  then obtain r' where r': "read_u 1 r = (of_bool False, r')" "before r' (replicate k False @ [True] @ bs)"
    by (rule flag.reads) simp
  then obtain r'' where "ue_zeros (z + 1) r' = (Some (z + 1 + k), r'')" "before r'' bs" 
    using Suc.IH [of r' "z + 1"] Suc.prems(2) by auto
  with Suc.prems r'(1) show ?case by (subst ue_zeros.simps) (simp add: before_def)
qed

interpretation ue: syntax_element ue_bits read_ue of_nat "\<lambda>v. v < 2 ^ 32 - 1"
proof
  fix v r bs
  assume v: "(v :: nat) < 2 ^ 32 - 1" and b: "before r (ue_bits v @ bs)"
  define z where "z = ilog2 (v + 1)"
  have z: "2 ^ z \<le> v + 1" "v + 1 < 2 ^ Suc z" using ilog2_bounds [of "v + 1"] by (simp_all add: z_def)
  then have "2 ^ z < (2 :: nat) ^ 32" using v by linarith
  then have z32: "z < 32" using power_less_imp_less_exp [of "2 :: nat" z 32] by simp
  from b have "before r (replicate z False @ [True] @ ubits z (v + 1 - 2 ^ z) @ bs)" by (simp add: ue_bits_def z_def Let_def)
  from ue_zeros_before [OF this, of 0] z32 obtain r1
    where r1: "ue_zeros 0 r = (Some z, r1)" "before r1 (ubits z (v + 1 - 2 ^ z) @ bs)" by auto
  from z have "v + 1 - 2 ^ z < 2 ^ z" by simp
  with r1(2) obtain r2 where r2: "read_u z r1 = (of_nat (v + 1 - 2 ^ z), r2)" "before r2 bs" by (rule u.reads)
  have "push_bit z 1 - 1 + of_nat (v + 1 - 2 ^ z) = (of_nat (2 ^ z) - 1 + of_nat (v + 1 - 2 ^ z) :: u32)"
    by (simp add: push_bit_eq_mult)
  also have "\<dots> = of_nat (2 ^ z + (v + 1 - 2 ^ z)) - 1" by (simp only: of_nat_add) (simp add: algebra_simps)
  also have "\<dots> = of_nat v" using z(1) by simp
  finally have sum: "push_bit z 1 - 1 + of_nat (v + 1 - 2 ^ z) = (of_nat v :: u32)" .
  have "v = 0" if "z = 0" using z(2) that by simp
  then show "\<exists>r'. read_ue r = (of_nat v, r') \<and> before r' bs"
    using r1 r2 sum by (cases "z = 0") (auto simp: read_ue_def before_def)
qed

definition se_bits :: "int \<Rightarrow> bool list" where
  "se_bits i = ue_bits (if 0 < i then nat (2 * i - 1) else nat (- 2 * i))"

lemma read_se_value:
  assumes "k < 2 ^ 32 - 1" "read_ue r = (of_nat k, r')"
  shows "read_se r = (if odd k then int ((k + 1) div 2) else - int (k div 2), r')"
proof -
  have "unat (of_nat m :: u32) = m" if "m < 2 ^ 32" for m using that by (simp add: unat_of_nat take_bit_nat_eq_self)
  from this [of k] this [of "k + 1"] assms(1) have uk: "unat (of_nat k :: u32) = k" "unat (of_nat k + 1 :: u32) = k + 1"
    by (simp_all add: add.commute)
  have "unat ((of_nat k + 1) div 2 :: u32) = (k + 1) div 2" by (simp add: unat_div uk(2))
  then have "uint ((of_nat k + 1) div 2 :: u32) = int ((k + 1) div 2)" by (metis of_nat_unat)
  moreover have "(k + 1) div 2 < 2 ^ 31" using assms(1) by simp
  then have "int ((k + 1) div 2) < 2 ^ 31" by (simp only: of_nat_less_numeral_power_cancel_iff)
  ultimately have mag: "sint ((of_nat k + 1) div 2 :: u32) = int ((k + 1) div 2)"
    by (simp only: sint_uint) (simp add: signed_take_bit_int_eq_self)
  have "unat (of_nat k AND 1 :: u32) = k mod 2" using uk(1) by (simp add: and_one_eq unat_mod)
  then have odd: "(of_nat k AND 1 :: u32) \<noteq> 0 \<longleftrightarrow> odd k" by (simp add: unat_eq_0 [symmetric] odd_iff_mod_2_eq_one)
  have zero: "of_nat k = (0 :: u32) \<longleftrightarrow> k = 0" using uk(1) by (simp add: unat_eq_0 [symmetric])
  show ?thesis unfolding read_se_def assms(2) Let_def prod.case mag odd zero by auto
qed

interpretation se: syntax_element se_bits read_se id "\<lambda>i. \<bar>i\<bar> < 2 ^ 31"
proof
  fix i r bs
  assume i: "\<bar>i\<bar> < (2 :: int) ^ 31" and b: "before r (se_bits i @ bs)"
  define k where "k = (if 0 < i then nat (2 * i - 1) else nat (- 2 * i))"
  have k: "k < 2 ^ 32 - 1" using i by (auto simp: k_def)
  have "before r (ue_bits k @ bs)" using b by (simp add: se_bits_def k_def)
  then obtain r' where r': "read_ue r = (of_nat k, r')" "before r' bs" using k by (rule ue.reads)
  have "(if odd k then int ((k + 1) div 2) else - int (k div 2)) = i"
  proof (cases "0 < i")
    case True
    then have "int k = 2 * i - 1" by (simp add: k_def)
    then show ?thesis by presburger
  next
    case False
    then have "int k = - 2 * i" by (simp add: k_def)
    then show ?thesis by presburger
  qed
  then show "\<exists>r'. read_se r = (id i, r') \<and> before r' bs" using read_se_value [OF k r'(1)] r'(2) by simp
qed

text \<open>The encoder's side of emulation prevention: \<open>z\<close> zero bytes were just written.\<close>

fun emulate :: "nat \<Rightarrow> bytes \<Rightarrow> bytes" where
  "emulate z [] = []"
| "emulate z (b # bs) =
     (if 2 \<le> z \<and> b \<le> 3 then 3 # b # emulate (if b = 0 then 1 else 0) bs
      else b # emulate (if b = 0 then z + 1 else 0) bs)"

lemma strip_nonzero: "a \<noteq> 0 \<Longrightarrow> strip_emulation (a # s) = a # strip_emulation s"
  by (cases s rule: strip_emulation.cases) auto

lemma strip_zero: "b \<noteq> 0 \<Longrightarrow> strip_emulation (0 # b # s) = 0 # b # strip_emulation s"
  by (cases s) (auto simp: strip_nonzero)

lemma strip_emulate: "z \<le> 2 \<Longrightarrow> strip_emulation (replicate z 0 @ emulate z bs) = replicate z 0 @ bs"
proof (induction bs arbitrary: z)
  case Nil
  then show ?case by (cases z rule: nat.exhaust; cases "z - 1") (auto simp: numeral_2_eq_2)
next
  case (Cons b bs)
  consider "z = 0" | "z = 1" | "z = 2" using Cons.prems by linarith
  then show ?case
  proof cases
    case 1
    then show ?thesis using Cons.IH [of 0] Cons.IH [of 1] by (cases "b = 0") (auto simp: strip_nonzero)
  next
    case 2
    then show ?thesis using Cons.IH [of 0] Cons.IH [of 2] by (cases "b = 0") (auto simp: strip_zero numeral_2_eq_2)
  next
    case 3
    then show ?thesis using Cons.IH [of 0] Cons.IH [of 1]
      by (cases "b = 0"; cases "b \<le> 3") (auto simp: strip_zero strip_nonzero numeral_2_eq_2)
  qed
qed

section \<open>Sequence parameter sets\<close>

text \<open>
  The syntax of a sequence parameter set (ITU-T H.264, 7.3.2.1.1 and E.1.1) up to the timing
  information, as a writer sees it.
\<close>

datatype poc = Poc_lsb nat | Poc_cycle bool int int "int list" | Poc_output

record vui_syntax =
  vx_aspect :: "(nat \<times> nat \<times> nat) option"
  vx_overscan :: "bool option"
  vx_signal :: "(nat \<times> bool \<times> (nat \<times> nat \<times> nat) option) option"
  vx_chroma_loc :: "(nat \<times> nat) option"
  vx_timing :: "(nat \<times> nat \<times> bool) option"

record sps_syntax =
  sx_profile :: nat
  sx_flags :: nat
  sx_level :: nat
  sx_id :: nat
  sx_chroma :: "nat \<times> bool"
  sx_depths :: "nat \<times> nat"
  sx_bypass :: bool
  sx_scaling :: "int list option list option"
  sx_frame_num :: nat
  sx_poc :: poc
  sx_refs :: nat
  sx_gaps :: bool
  sx_width :: nat
  sx_height :: nat
  sx_frame_mbs :: bool
  sx_adaptive :: bool
  sx_direct :: bool
  sx_crop :: "(nat \<times> nat \<times> nat \<times> nat) option"
  sx_vui :: "vui_syntax option"

text \<open>An element that is present behind a flag.\<close>

definition opt_bits :: "('a \<Rightarrow> bool list) \<Rightarrow> 'a option \<Rightarrow> bool list" where
  "opt_bits f x = (case x of None \<Rightarrow> [False] | Some v \<Rightarrow> [True] @ f v)"

definition scaling_bits :: "int list option list \<Rightarrow> bool list" where
  "scaling_bits ls = concat (map (opt_bits (\<lambda>ds. concat (map se_bits ds))) ls)"

definition chroma_bits :: "sps_syntax \<Rightarrow> bool list" where
  "chroma_bits s =
     (if \<not> profile_has_chroma_block (int (sx_profile s)) then []
      else ue_bits (fst (sx_chroma s)) @ (if fst (sx_chroma s) = 3 then [snd (sx_chroma s)] else []) @
           ue_bits (fst (sx_depths s)) @ ue_bits (snd (sx_depths s)) @ [sx_bypass s] @ opt_bits scaling_bits (sx_scaling s))"

fun poc_bits :: "poc \<Rightarrow> bool list" where
  "poc_bits (Poc_lsb n) = ue_bits 0 @ ue_bits n"
| "poc_bits (Poc_cycle b i j ds) = ue_bits 1 @ [b] @ se_bits i @ se_bits j @ ue_bits (length ds) @ concat (map se_bits ds)"
| "poc_bits Poc_output = ue_bits 2"

definition crop_bits :: "nat \<times> nat \<times> nat \<times> nat \<Rightarrow> bool list" where
  "crop_bits c = (case c of (l, r, t, b) \<Rightarrow> ue_bits l @ ue_bits r @ ue_bits t @ ue_bits b)"

definition aspect_bits :: "nat \<times> nat \<times> nat \<Rightarrow> bool list" where
  "aspect_bits a = (case a of (idc, w, h) \<Rightarrow> ubits 8 idc @ (if idc = 255 then ubits 16 w @ ubits 16 h else []))"

definition signal_bits :: "nat \<times> bool \<times> (nat \<times> nat \<times> nat) option \<Rightarrow> bool list" where
  "signal_bits x = (case x of (format, full, colour) \<Rightarrow>
     ubits 3 format @ [full] @ opt_bits (\<lambda>(p, t, m). ubits 8 p @ ubits 8 t @ ubits 8 m) colour)"

definition timing_bits :: "nat \<times> nat \<times> bool \<Rightarrow> bool list" where
  "timing_bits x = (case x of (num, scale, fixed) \<Rightarrow> ubits 32 num @ ubits 32 scale @ [fixed])"

definition vui_bits :: "vui_syntax \<Rightarrow> bool list" where
  "vui_bits x = opt_bits aspect_bits (vx_aspect x) @ opt_bits (\<lambda>b. [b]) (vx_overscan x) @ opt_bits signal_bits (vx_signal x) @
     opt_bits (\<lambda>(t, b). ue_bits t @ ue_bits b) (vx_chroma_loc x) @ opt_bits timing_bits (vx_timing x)"

definition sps_bits :: "sps_syntax \<Rightarrow> bool list" where
  "sps_bits s = ubits 8 (sx_profile s) @ ubits 8 (sx_flags s) @ ubits 8 (sx_level s) @ ue_bits (sx_id s) @ chroma_bits s @
     ue_bits (sx_frame_num s) @ poc_bits (sx_poc s) @ ue_bits (sx_refs s) @ [sx_gaps s] @
     ue_bits (sx_width s) @ ue_bits (sx_height s) @ [sx_frame_mbs s] @ (if sx_frame_mbs s then [] else [sx_adaptive s]) @ [sx_direct s] @
     opt_bits crop_bits (sx_crop s) @ opt_bits vui_bits (sx_vui s)"

text \<open>Values that their codes can carry; deltas of a scaling list are within a byte and run until one gives scale 0.\<close>

abbreviation is_ue :: "nat \<Rightarrow> bool" where
  "is_ue n \<equiv> n < 2 ^ 32 - 1"

abbreviation is_se :: "int \<Rightarrow> bool" where
  "is_se i \<equiv> \<bar>i\<bar> < 2 ^ 31"

definition opt_all :: "('a \<Rightarrow> bool) \<Rightarrow> 'a option \<Rightarrow> bool" where
  "opt_all P x = (case x of None \<Rightarrow> True | Some v \<Rightarrow> P v)"

fun scaling_ok :: "nat \<Rightarrow> int \<Rightarrow> int \<Rightarrow> int list \<Rightarrow> bool" where
  "scaling_ok 0 l nxt ds = (ds = [])"
| "scaling_ok (Suc n) l nxt ds =
     (if nxt = 0 then ds = []
      else case ds of [] \<Rightarrow> False
           | d # ds' \<Rightarrow> - 128 \<le> d \<and> d < 128 \<and> (let m = (l + d + 256) mod 256 in scaling_ok n (if m = 0 then l else m) m ds'))"

definition scaling_valid :: "nat \<Rightarrow> int list option list \<Rightarrow> bool" where
  "scaling_valid n ls = (length ls = n \<and> (\<forall>i < n. opt_all (scaling_ok (if i < 6 then 16 else 64) 8 8) (ls ! i)))"

fun poc_valid :: "poc \<Rightarrow> bool" where
  "poc_valid (Poc_lsb n) = is_ue n"
| "poc_valid (Poc_cycle b i j ds) = (is_se i \<and> is_se j \<and> is_ue (length ds) \<and> list_all is_se ds)"
| "poc_valid Poc_output = True"

definition vui_valid :: "vui_syntax \<Rightarrow> bool" where
  "vui_valid x = (opt_all (\<lambda>(idc, w, h). idc < 256 \<and> w < 2 ^ 16 \<and> h < 2 ^ 16) (vx_aspect x) \<and>
     opt_all (\<lambda>(format, full, colour). format < 8 \<and> opt_all (\<lambda>(p, t, m). p < 256 \<and> t < 256 \<and> m < 256) colour) (vx_signal x) \<and>
     opt_all (\<lambda>(t, b). is_ue t \<and> is_ue b) (vx_chroma_loc x) \<and>
     opt_all (\<lambda>(num, scale, fixed). num < 2 ^ 32 \<and> scale < 2 ^ 32) (vx_timing x))"

definition crop_valid :: "nat \<times> nat \<times> nat \<times> nat \<Rightarrow> bool" where
  "crop_valid c = (case c of (l, r, t, b) \<Rightarrow> is_ue (l + r) \<and> is_ue (t + b))"

definition sps_valid :: "sps_syntax \<Rightarrow> bool" where
  "sps_valid s = (sx_profile s < 256 \<and> sx_flags s < 256 \<and> sx_level s < 256 \<and> is_ue (sx_id s) \<and>
     is_ue (fst (sx_chroma s)) \<and> is_ue (fst (sx_depths s)) \<and> is_ue (snd (sx_depths s)) \<and>
     opt_all (scaling_valid (if fst (sx_chroma s) \<noteq> 3 then 8 else 12)) (sx_scaling s) \<and>
     is_ue (sx_frame_num s) \<and> poc_valid (sx_poc s) \<and> is_ue (sx_refs s) \<and> is_ue (sx_width s) \<and> is_ue (sx_height s) \<and>
     opt_all crop_valid (sx_crop s) \<and> opt_all vui_valid (sx_vui s))"

lemmas skip_u_before = u.skips [folded skip_u_def]
lemmas skip_flag_before = flag.skips [folded skip_u_def, OF _ TrueI]
lemmas skip_ue_before = ue.skips [folded skip_ue_def]
lemmas skip_se_before = se.skips [folded skip_se_def]

lemma when_flag_before:
  assumes "before r (opt_bits f x @ bs)" "opt_all P x" "\<And>v r. P v \<Longrightarrow> before r (f v @ bs) \<Longrightarrow> before (g r) bs"
  shows "before (when_flag g r) bs"
proof (cases x)
  case None
  then have "before r ([False] @ bs)" using assms(1) by (simp add: opt_bits_def)
  then obtain r' where "read_u 1 r = (of_bool False, r')" "before r' bs" by (rule flag.reads) simp
  then show ?thesis by (simp add: when_flag_def)
next
  case (Some v)
  then have "before r ([True] @ f v @ bs)" using assms(1) by (simp add: opt_bits_def)
  then obtain r' where "read_u 1 r = (of_bool True, r')" "before r' (f v @ bs)" by (rule flag.reads) simp
  then show ?thesis using assms(2,3) Some by (simp add: when_flag_def opt_all_def)
qed

lemma skip_offsets_before:
  "before r (concat (map se_bits ds) @ bs) \<Longrightarrow> list_all is_se ds \<Longrightarrow> before (skip_offsets (length ds) r) bs"
proof (induction ds arbitrary: r)
  case (Cons d ds)
  then have "before (skip_se r) (concat (map se_bits ds) @ bs)" by (intro skip_se_before [of r d]) simp_all
  with Cons show ?case by (simp add: before_def)
qed simp

lemma skip_scaling_list_before:
  "before r (concat (map se_bits ds) @ bs) \<Longrightarrow> scaling_ok n l nxt ds \<Longrightarrow> 0 \<le> l \<Longrightarrow> l < 256 \<Longrightarrow>
   \<exists>r'. skip_scaling_list n l nxt r = Some r' \<and> before r' bs"
proof (induction n l nxt r arbitrary: ds rule: skip_scaling_list.induct)
  case (2 n l nxt r)
  from 2(3) have ok: "rb_ok r" by (simp add: before_def)
  show ?case
  proof (cases "nxt = 0")
    case True
    then show ?thesis using 2 ok by (cases n) auto
  next
    case False
    with 2(4) obtain d ds' where ds: "ds = d # ds'" "- 128 \<le> d" "d < 128" by (cases ds) (auto simp: Let_def)
    then have "before r (se_bits d @ concat (map se_bits ds') @ bs)" "is_se d" using 2(3) by simp_all
    then obtain r' where r': "read_se r = (id d, r')" "before r' (concat (map se_bits ds') @ bs)" by (rule se.reads)
    define m where "m = (l + d + 256) mod 256"
    define l' where "l' = (if m = 0 then l else m)"
    have c: "c_rem (l + d + 256) 256 = m" "in_s32 (l + d)" "in_s32 (l + d + 256)"
      using ds 2(5,6) by (simp_all add: c_rem_def in_s32_def m_def)
    have l': "0 \<le> l'" "l' < 256" using 2(5,6) by (simp_all add: l'_def m_def)
    have "scaling_ok n l' m ds'" using 2(4) ds(1) False unfolding l'_def m_def by (simp only: scaling_ok.simps list.case Let_def if_False)
    then obtain r'' where "skip_scaling_list n l' m r' = Some r''" "before r'' bs"
      using 2(2) [of "(d, r')" d r' m ds'] ok False r' c l' unfolding l'_def by auto
    then show ?thesis using ok False r'(1) c unfolding l'_def by (auto simp: Let_def)
  qed
qed simp

lemma scaling_lists_before:
  "before r (scaling_bits ls @ bs) \<Longrightarrow> i + length ls = n \<Longrightarrow>
   \<forall>j < length ls. opt_all (scaling_ok (if i + j < 6 then 16 else 64) 8 8) (ls ! j) \<Longrightarrow>
   \<exists>r'. scaling_lists n i r = Some r' \<and> before r' bs"
proof (induction ls arbitrary: i r)
  case Nil
  then show ?case by (subst scaling_lists.simps) (simp add: scaling_bits_def)
next
  case (Cons x ls)
  have tl: "i + 1 + length ls = n" "\<forall>j < length ls. opt_all (scaling_ok (if i + 1 + j < 6 then 16 else 64) 8 8) (ls ! j)"
    using Cons.prems(2) Cons.prems(3) [rule_format, of "Suc _"] by simp_all
  have hd: "opt_all (scaling_ok (if i < 6 then 16 else 64) 8 8) x" using Cons.prems(3) [rule_format, of 0] by simp
  have ok: "rb_ok r" "i < n" using Cons.prems by (simp_all add: before_def)
  show ?case
  proof (cases x)
    case None
    then have "before r ([False] @ scaling_bits ls @ bs)" using Cons.prems(1) by (simp add: scaling_bits_def opt_bits_def)
    then obtain r' where "read_u 1 r = (of_bool False, r')" "before r' (scaling_bits ls @ bs)" by (rule flag.reads) simp
    with Cons.IH [OF _ tl] ok show ?thesis by (subst scaling_lists.simps) simp
  next
    case (Some ds)
    then have "before r ([True] @ concat (map se_bits ds) @ scaling_bits ls @ bs)"
      using Cons.prems(1) by (simp add: scaling_bits_def opt_bits_def)
    then obtain r' where r': "read_u 1 r = (of_bool True, r')" "before r' (concat (map se_bits ds) @ scaling_bits ls @ bs)"
      by (rule flag.reads) simp
    from skip_scaling_list_before [OF r'(2), of "if i < 6 then 16 else 64" 8 8] hd Some obtain r''
      where "skip_scaling_list (if i < 6 then 16 else 64) 8 8 r' = Some r''" "before r'' (scaling_bits ls @ bs)"
      by (auto simp: opt_all_def)
    with Cons.IH [OF _ tl] ok r'(1) show ?thesis by (subst scaling_lists.simps) simp
  qed
qed

text \<open>What the parser takes for the chroma format: 4:2:0 where the profile has no choice.\<close>

definition sps_chroma :: "sps_syntax \<Rightarrow> nat \<times> bool" where
  "sps_chroma s = (if profile_has_chroma_block (int (sx_profile s)) then (fst (sx_chroma s), fst (sx_chroma s) = 3 \<and> snd (sx_chroma s)) else (1, False))"

lemma of_nat_u32_eq: "n < 2 ^ 32 \<Longrightarrow> m < 2 ^ 32 \<Longrightarrow> (of_nat n :: u32) = of_nat m \<longleftrightarrow> n = m"
  by (simp add: word_of_nat_eq_iff take_bit_nat_eq_self)

lemma read_chroma_before:
  assumes "before r (chroma_bits s @ bs)" "sps_valid s"
  shows "\<exists>r'. read_chroma (int (sx_profile s)) r = Some ((of_nat (fst (sps_chroma s)), snd (sps_chroma s)), r') \<and> before r' bs"
proof (cases "profile_has_chroma_block (int (sx_profile s))")
  case True
  let ?idc = "fst (sx_chroma s)"
  let ?rest = "opt_bits scaling_bits (sx_scaling s) @ bs"
  let ?depths = "ue_bits (fst (sx_depths s)) @ ue_bits (snd (sx_depths s)) @ [sx_bypass s] @ ?rest"
  have v: "is_ue ?idc" "is_ue (fst (sx_depths s))" "is_ue (snd (sx_depths s))" using assms(2) by (simp_all add: sps_valid_def)
  have "before r (ue_bits ?idc @ (if ?idc = 3 then [snd (sx_chroma s)] else []) @ ?depths)"
    using assms(1) True by (simp add: chroma_bits_def)
  then obtain r1 where r1: "read_ue r = (of_nat ?idc, r1)" "before r1 ((if ?idc = 3 then [snd (sx_chroma s)] else []) @ ?depths)"
    using v(1) by (rule ue.reads)
  have idc: "(of_nat ?idc :: u32) = 3 \<longleftrightarrow> ?idc = 3" using of_nat_u32_eq [of ?idc 3] v(1) by simp
  obtain r2 where r2: "(if (of_nat ?idc :: u32) = 3 then (let (b, r') = read_u 1 r1 in (b \<noteq> 0, r')) else (False, r1)) =
      (?idc = 3 \<and> snd (sx_chroma s), r2)" "before r2 ?depths"
  proof (cases "?idc = 3")
    case True
    then have "before r1 ([snd (sx_chroma s)] @ ?depths)" using r1(2) by simp
    then obtain r2 where "read_u 1 r1 = (of_bool (snd (sx_chroma s)), r2)" "before r2 ?depths" by (rule flag.reads) simp
    then show ?thesis using True idc that by simp
  qed (use r1 idc that in simp)
  have r3: "before (skip_u 1 (skip_ue (skip_ue r2))) ?rest"
    by (rule skip_flag_before [OF skip_ue_before [OF skip_ue_before [OF r2(2) v(2)] v(3)]])
  show ?thesis
  proof (cases "sx_scaling s")
    case None
    then have "before (skip_u 1 (skip_ue (skip_ue r2))) ([False] @ bs)" using r3 by (simp add: opt_bits_def)
    then obtain r4 where "read_u 1 (skip_u 1 (skip_ue (skip_ue r2))) = (of_bool False, r4)" "before r4 bs" by (rule flag.reads) simp
    then show ?thesis using True r1(1) r2(1) by (simp add: read_chroma_def sps_chroma_def)
  next
    case (Some ls)
    then have "before (skip_u 1 (skip_ue (skip_ue r2))) ([True] @ scaling_bits ls @ bs)" using r3 by (simp add: opt_bits_def)
    then obtain r4 where r4: "read_u 1 (skip_u 1 (skip_ue (skip_ue r2))) = (of_bool True, r4)" "before r4 (scaling_bits ls @ bs)"
      by (rule flag.reads) simp
    have "scaling_valid (if ?idc \<noteq> 3 then 8 else 12) ls" using assms(2) Some by (simp add: sps_valid_def opt_all_def)
    then obtain r5 where "scaling_lists (if ?idc \<noteq> 3 then 8 else 12) 0 r4 = Some r5" "before r5 bs"
      using scaling_lists_before [OF r4(2), of 0] by (auto simp: scaling_valid_def)
    then show ?thesis using True r1(1) r2(1) r4(1) idc by (simp add: read_chroma_def sps_chroma_def)
  qed
qed (use assms in \<open>simp add: read_chroma_def sps_chroma_def chroma_bits_def\<close>)

lemma skip_poc_before: "before r (poc_bits p @ bs) \<Longrightarrow> poc_valid p \<Longrightarrow> before (skip_poc r) bs"
proof (induction p rule: poc_bits.induct)
  case (1 n)
  then have "before r (ue_bits 0 @ ue_bits n @ bs)" by simp
  then obtain r' where "read_ue r = (of_nat 0, r')" "before r' (ue_bits n @ bs)" by (rule ue.reads) simp_all
  then show ?case using 1 skip_ue_before [of r' n bs] by (simp add: skip_poc_def)
next
  case (2 b i j ds)
  then have "before r (ue_bits 1 @ [b] @ se_bits i @ se_bits j @ ue_bits (length ds) @ concat (map se_bits ds) @ bs)" by simp
  then obtain r' where r': "read_ue r = (of_nat 1, r')"
      "before r' ([b] @ se_bits i @ se_bits j @ ue_bits (length ds) @ concat (map se_bits ds) @ bs)" by (rule ue.reads) simp_all
  then have "before (skip_se (skip_se (skip_u 1 r'))) (ue_bits (length ds) @ concat (map se_bits ds) @ bs)"
    using 2(2) by (intro skip_se_before [of _ j, OF skip_se_before [of _ i, OF skip_flag_before [OF r'(2)]]]) simp_all
  then obtain r2 where r2: "read_ue (skip_se (skip_se (skip_u 1 r'))) = (of_nat (length ds), r2)" "before r2 (concat (map se_bits ds) @ bs)"
    using 2(2) by (auto elim: ue.reads)
  have "unat (of_nat (length ds) :: u32) = length ds" using 2(2) by (simp add: unat_of_nat take_bit_nat_eq_self)
  then show ?case using r'(1) r2 2(2) skip_offsets_before [of r2 ds bs] by (simp add: skip_poc_def)
next
  case 3
  then obtain r' where "read_ue r = (of_nat 2, r')" "before r' bs" by (auto elim: ue.reads [of r 2])
  then show ?case by (simp add: skip_poc_def)
qed

text \<open>The cropping offsets and the frame rate a set states.\<close>

definition sps_crop :: "sps_syntax \<Rightarrow> nat \<times> nat \<times> nat \<times> nat" where
  "sps_crop s = (case sx_crop s of None \<Rightarrow> (0, 0, 0, 0) | Some c \<Rightarrow> c)"

definition sps_fps :: "sps_syntax \<Rightarrow> int" where
  "sps_fps s = (case Option.bind (sx_vui s) vx_timing of
     Some (num, scale, _) \<Rightarrow> if num \<noteq> 0 \<and> scale \<noteq> 0 then frame_rate (of_nat num) (of_nat scale) else 0
   | None \<Rightarrow> 0)"

lemma read_crop_before:
  assumes "before r (opt_bits crop_bits x @ bs)" "opt_all crop_valid x"
  shows "\<exists>r'. read_crop r = (case (case x of None \<Rightarrow> (0, 0, 0, 0) | Some c \<Rightarrow> c) of (l, rt, t, b) \<Rightarrow>
    ((of_nat l, of_nat rt, of_nat t, of_nat b), r')) \<and> before r' bs"
proof (cases x)
  case None
  then have "before r ([False] @ bs)" using assms(1) by (simp add: opt_bits_def)
  then obtain r' where "read_u 1 r = (of_bool False, r')" "before r' bs" by (rule flag.reads) simp
  then show ?thesis using None by (simp add: read_crop_def)
next
  case (Some c)
  obtain l rt t b where c: "c = (l, rt, t, b)" by (cases c)
  have v: "is_ue l" "is_ue rt" "is_ue t" "is_ue b" using assms(2) Some c by (simp_all add: opt_all_def crop_valid_def)
  have "before r ([True] @ ue_bits l @ ue_bits rt @ ue_bits t @ ue_bits b @ bs)"
    using assms(1) Some c by (simp add: opt_bits_def crop_bits_def)
  then obtain r1 where r1: "read_u 1 r = (of_bool True, r1)" "before r1 (ue_bits l @ ue_bits rt @ ue_bits t @ ue_bits b @ bs)"
    by (rule flag.reads) simp
  from ue.reads [OF r1(2) v(1)] obtain r2 where r2: "read_ue r1 = (of_nat l, r2)" "before r2 (ue_bits rt @ ue_bits t @ ue_bits b @ bs)" .
  from ue.reads [OF r2(2) v(2)] obtain r3 where r3: "read_ue r2 = (of_nat rt, r3)" "before r3 (ue_bits t @ ue_bits b @ bs)" .
  from ue.reads [OF r3(2) v(3)] obtain r4 where r4: "read_ue r3 = (of_nat t, r4)" "before r4 (ue_bits b @ bs)" .
  from ue.reads [OF r4(2) v(4)] obtain r5 where r5: "read_ue r4 = (of_nat b, r5)" "before r5 bs" .
  show ?thesis using r1(1) r2(1) r3(1) r4(1) r5 Some c by (simp add: read_crop_def)
qed

lemma read_timing_before:
  assumes "before r (opt_bits timing_bits x @ bs)" "opt_all (\<lambda>(num, scale, fixed). num < 2 ^ 32 \<and> scale < 2 ^ 32) x"
  shows "\<exists>r'. read_timing r = (case x of
      Some (num, scale, _) \<Rightarrow> if num \<noteq> 0 \<and> scale \<noteq> 0 then frame_rate (of_nat num) (of_nat scale) else 0
    | None \<Rightarrow> 0, r') \<and> before r' bs"
proof (cases x)
  case None
  then have "before r ([False] @ bs)" using assms(1) by (simp add: opt_bits_def)
  then obtain r' where "read_u 1 r = (of_bool False, r')" "before r' bs" by (rule flag.reads) simp
  then show ?thesis using None by (simp add: read_timing_def)
next
  case (Some c)
  obtain num scale fixed where c: "c = (num, scale, fixed)" by (cases c)
  have v: "num < 2 ^ 32" "scale < 2 ^ 32" using assms(2) Some c by (simp_all add: opt_all_def)
  have "before r ([True] @ ubits 32 num @ ubits 32 scale @ [fixed] @ bs)"
    using assms(1) Some c by (simp add: opt_bits_def timing_bits_def)
  then obtain r1 where r1: "read_u 1 r = (of_bool True, r1)" "before r1 (ubits 32 num @ ubits 32 scale @ [fixed] @ bs)"
    by (rule flag.reads) simp
  from u.reads [OF r1(2) v(1)] obtain r2 where r2: "read_u 32 r1 = (of_nat num, r2)" "before r2 (ubits 32 scale @ [fixed] @ bs)" .
  from u.reads [OF r2(2) v(2)] obtain r3 where r3: "read_u 32 r2 = (of_nat scale, r3)" "before r3 ([fixed] @ bs)" .
  have r4: "before (skip_u 1 r3) bs" by (rule skip_flag_before [OF r3(2)])
  have "(of_nat num :: u32) = 0 \<longleftrightarrow> num = 0" "(of_nat scale :: u32) = 0 \<longleftrightarrow> scale = 0"
    using v of_nat_u32_eq [of _ 0] by simp_all
  then show ?thesis using r1(1) r2(1) r3(1) r4 Some c by (simp add: read_timing_def before_def)
qed

lemma skip_aspect_before:
  assumes "before r (aspect_bits a @ bs)" "case a of (idc, w, h) \<Rightarrow> idc < 256 \<and> w < 2 ^ 16 \<and> h < 2 ^ 16"
  shows "before (skip_aspect r) bs"
proof -
  obtain idc w h where a: "a = (idc, w, h)" by (cases a)
  let ?rest = "(if idc = 255 then ubits 16 w @ ubits 16 h else []) @ bs"
  have v: "idc < 2 ^ 8" "w < 2 ^ 16" "h < 2 ^ 16" using assms(2) a by simp_all
  have "before r (ubits 8 idc @ ?rest)" using assms(1) a by (simp add: aspect_bits_def)
  then obtain r' where r': "read_u 8 r = (of_nat idc, r')" "before r' ?rest" using v(1) by (rule u.reads)
  have "(of_nat idc :: u32) = 255 \<longleftrightarrow> idc = 255" using of_nat_u32_eq [of idc 255] v(1) by simp
  moreover have "before (skip_u 16 (skip_u 16 r')) bs" if "idc = 255"
    using r'(2) that by (intro skip_u_before [OF skip_u_before [OF _ v(2)] v(3)]) simp
  ultimately show ?thesis using r' by (cases "idc = 255") (simp_all add: skip_aspect_def)
qed

lemma skip_colour_before:
  assumes "before r (signal_bits x @ bs)"
    and "case x of (format, full, colour) \<Rightarrow> format < 8 \<and> opt_all (\<lambda>(p, t, m). p < 256 \<and> t < 256 \<and> m < 256) colour"
  shows "before (skip_colour r) bs"
proof -
  obtain format full colour where x: "x = (format, full, colour)" by (cases x)
  let ?f = "\<lambda>(p, t, m). ubits 8 p @ ubits 8 t @ ubits 8 m"
  have "before r (ubits 3 format @ [full] @ opt_bits ?f colour @ bs)" "format < 2 ^ 3" using assms x by (simp_all add: signal_bits_def)
  then have flag: "before (skip_u 1 (skip_u 3 r)) (opt_bits ?f colour @ bs)" using skip_flag_before skip_u_before by blast
  have body: "before (skip_u 8 (skip_u 8 (skip_u 8 r))) bs"
    if "case v of (p, t, m) \<Rightarrow> p < 256 \<and> t < 256 \<and> m < 256" "before r (?f v @ bs)" for v r
  proof -
    obtain p t m where v: "v = (p, t, m)" by (cases v)
    then have "p < 2 ^ 8" "t < 2 ^ 8" "m < 2 ^ 8" "before r (ubits 8 p @ ubits 8 t @ ubits 8 m @ bs)" using that by simp_all
    then show ?thesis by (intro skip_u_before [OF skip_u_before [OF skip_u_before]])
  qed
  have "opt_all (\<lambda>(p, t, m). p < 256 \<and> t < 256 \<and> m < 256) colour" using assms(2) x by simp
  then show ?thesis unfolding skip_colour_def by (rule when_flag_before [OF flag]) (rule body)
qed

lemma read_vui_before:
  assumes "before r (opt_bits vui_bits x @ bs)" "opt_all vui_valid x"
  shows "\<exists>r'. read_vui r = (case Option.bind x vx_timing of
      Some (num, scale, _) \<Rightarrow> if num \<noteq> 0 \<and> scale \<noteq> 0 then frame_rate (of_nat num) (of_nat scale) else 0
    | None \<Rightarrow> 0, r') \<and> before r' bs"
proof (cases x)
  case None
  then have "before r ([False] @ bs)" using assms(1) by (simp add: opt_bits_def)
  then obtain r' where "read_u 1 r = (of_bool False, r')" "before r' bs" by (rule flag.reads) simp
  then show ?thesis using None by (simp add: read_vui_def)
next
  case (Some v)
  let ?timing = "opt_bits timing_bits (vx_timing v) @ bs"
  let ?loc = "opt_bits (\<lambda>(t, b). ue_bits t @ ue_bits b) (vx_chroma_loc v) @ ?timing"
  let ?signal = "opt_bits signal_bits (vx_signal v) @ ?loc"
  let ?overscan = "opt_bits (\<lambda>b. [b]) (vx_overscan v) @ ?signal"
  have valid: "vui_valid v" using assms(2) Some by (simp add: opt_all_def)
  note va = valid [unfolded vui_valid_def]
  have "before r ([True] @ opt_bits aspect_bits (vx_aspect v) @ ?overscan)"
    using assms(1) Some by (simp add: opt_bits_def [of vui_bits] vui_bits_def)
  then obtain r1 where r1: "read_u 1 r = (of_bool True, r1)" "before r1 (opt_bits aspect_bits (vx_aspect v) @ ?overscan)"
    by (rule flag.reads) simp
  have r2: "before (when_flag skip_aspect r1) ?overscan"
    by (rule when_flag_before [OF r1(2) va [THEN conjunct1] skip_aspect_before])
  have r3: "before (when_flag (skip_u 1) (when_flag skip_aspect r1)) ?signal"
    by (rule when_flag_before [OF r2, where P = "\<lambda>_. True"]) (simp add: opt_all_def split: option.split, rule skip_flag_before)
  have r4: "before (when_flag skip_colour (when_flag (skip_u 1) (when_flag skip_aspect r1))) ?loc"
    by (rule when_flag_before [OF r3 va [THEN conjunct2, THEN conjunct1] skip_colour_before])
  have r5: "before (when_flag (skip_ue \<circ> skip_ue) (when_flag skip_colour (when_flag (skip_u 1) (when_flag skip_aspect r1)))) ?timing"
  proof (rule when_flag_before [OF r4 va [THEN conjunct2, THEN conjunct2, THEN conjunct1]])
    fix v' r'
    assume a: "case v' of (t, b) \<Rightarrow> is_ue t \<and> is_ue b" "before r' ((case v' of (t, b) \<Rightarrow> ue_bits t @ ue_bits b) @ ?timing)"
    obtain t b where "v' = (t, b)" by (cases v')
    then have "before r' (ue_bits t @ ue_bits b @ ?timing)" "is_ue t" "is_ue b" using a by simp_all
    then show "before ((skip_ue \<circ> skip_ue) r') ?timing" by (simp add: skip_ue_before [OF skip_ue_before])
  qed
  from read_timing_before [OF r5 va [THEN conjunct2, THEN conjunct2, THEN conjunct2]] show ?thesis
    using r1(1) Some by (simp add: read_vui_def)
qed

section \<open>The geometry of a written set\<close>

definition sps_size :: "sps_syntax \<Rightarrow> int \<times> int" where
  "sps_size s =
     (let (l, r, t, b) = sps_crop s; (idc, separate) = sps_chroma s; array_type = (if separate then 0 else idc);
          fields = (if sx_frame_mbs s then 1 else 2)
      in (16 * (int (sx_width s) + 1) - (if array_type = 1 \<or> array_type = 2 then 2 else 1) * (int l + int r),
          16 * (int (sx_height s) + 1) * fields - (if array_type = 1 then 2 else 1) * fields * (int t + int b)))"

definition sps_geometry_of :: "sps_syntax \<Rightarrow> sps_geometry option" where
  "sps_geometry_of s =
     (let (w, h) = sps_size s
      in if 0 < w \<and> w \<le> 16384 \<and> 0 < h \<and> h \<le> 16384 then Some \<lparr>sg_width = w, sg_height = h, sg_fps = sps_fps s\<rparr> else None)"

lemma uint_of_nat_u32: "n < 2 ^ 32 \<Longrightarrow> uint (of_nat n :: u32) = int n"
  by (simp add: uint_nat unat_of_nat take_bit_nat_eq_self)

lemma picture_size_sps:
  assumes "sps_valid s" "sps_crop s = (l, r, t, b)"
  shows "picture_size (of_nat (fst (sps_chroma s))) (snd (sps_chroma s)) (of_nat (sx_width s) + 1) (of_nat (sx_height s) + 1)
    (sx_frame_mbs s) (of_nat l, of_nat r, of_nat t, of_nat b) = sps_size s"
proof -
  have "is_ue (l + r)" "is_ue (t + b)"
    using assms by (auto simp: sps_valid_def sps_crop_def opt_all_def crop_valid_def split: option.splits)
  then have crop: "uint (of_nat l + of_nat r :: u32) = int l + int r" "uint (of_nat t + of_nat b :: u32) = int t + int b"
    using uint_of_nat_u32 [of "l + r"] uint_of_nat_u32 [of "t + b"] by simp_all
  have mbs: "uint (of_nat (sx_width s) + 1 :: u32) = int (sx_width s) + 1" "uint (of_nat (sx_height s) + 1 :: u32) = int (sx_height s) + 1"
    using assms(1) uint_of_nat_u32 [of "sx_width s + 1"] uint_of_nat_u32 [of "sx_height s + 1"]
    by (simp_all add: sps_valid_def add.commute)
  have "fst (sps_chroma s) < 2 ^ 32" using assms(1) by (simp add: sps_valid_def sps_chroma_def)
  then have idc: "(of_nat (fst (sps_chroma s)) :: u32) = 1 \<longleftrightarrow> fst (sps_chroma s) = 1"
      "(of_nat (fst (sps_chroma s)) :: u32) = 2 \<longleftrightarrow> fst (sps_chroma s) = 2"
    using of_nat_u32_eq [of "fst (sps_chroma s)" 1] of_nat_u32_eq [of "fst (sps_chroma s)" 2] by simp_all
  show ?thesis by (simp add: picture_size_def sps_size_def assms(2) crop mbs idc Let_def split_def)
qed

lemma parse_sps_before:
  assumes "sps_valid s" "before (rbsp_reader (tl sps)) (sps_bits s @ bs)" "4 \<le> length sps"
  shows "parse_sps_geometry sps = Some (sps_geometry_of s)"
proof -
  note v = assms(1) [unfolded sps_valid_def]
  let ?vui = "opt_bits vui_bits (sx_vui s) @ bs"
  let ?crop = "opt_bits crop_bits (sx_crop s) @ ?vui"
  let ?mbs = "(if sx_frame_mbs s then [] else [sx_adaptive s]) @ [sx_direct s] @ ?crop"
  let ?width = "ue_bits (sx_width s) @ ue_bits (sx_height s) @ [sx_frame_mbs s] @ ?mbs"
  let ?frame_num = "ue_bits (sx_frame_num s) @ poc_bits (sx_poc s) @ ue_bits (sx_refs s) @ [sx_gaps s] @ ?width"
  have "before (rbsp_reader (tl sps)) (ubits 8 (sx_profile s) @ ubits 8 (sx_flags s) @ ubits 8 (sx_level s) @ ue_bits (sx_id s) @
      chroma_bits s @ ?frame_num)" using assms(2) by (simp add: sps_bits_def)
  then obtain r1 where r1: "read_u 8 (rbsp_reader (tl sps)) = (of_nat (sx_profile s), r1)"
      "before r1 (ubits 8 (sx_flags s) @ ubits 8 (sx_level s) @ ue_bits (sx_id s) @ chroma_bits s @ ?frame_num)"
    using v by (auto elim: u.reads)
  have "before (skip_ue (skip_u 8 (skip_u 8 r1))) (chroma_bits s @ ?frame_num)"
    using v by (intro skip_ue_before [OF skip_u_before [OF skip_u_before [OF r1(2)]]]) simp_all
  from read_chroma_before [OF this assms(1)] obtain r2
    where r2: "read_chroma (int (sx_profile s)) (skip_ue (skip_u 8 (skip_u 8 r1))) =
        Some ((of_nat (fst (sps_chroma s)), snd (sps_chroma s)), r2)" "before r2 ?frame_num" by blast
  define r3 where "r3 = skip_u 1 (skip_ue (skip_poc (skip_ue r2)))"
  have r3: "before r3 ?width" unfolding r3_def
    using v by (intro skip_flag_before [OF skip_ue_before [OF skip_poc_before [OF skip_ue_before [OF r2(2)]]]]) simp_all
  then obtain r4 where r4: "read_ue r3 = (of_nat (sx_width s), r4)" "before r4 (ue_bits (sx_height s) @ [sx_frame_mbs s] @ ?mbs)"
    using v by (auto elim: ue.reads)
  then obtain r5 where r5: "read_ue r4 = (of_nat (sx_height s), r5)" "before r5 ([sx_frame_mbs s] @ ?mbs)"
    using v by (auto elim: ue.reads)
  from flag.reads [OF r5(2)] obtain r6 where r6: "read_u 1 r5 = (of_bool (sx_frame_mbs s), r6)" "before r6 ?mbs" by blast
  define r7 where "r7 = skip_u 1 (if sx_frame_mbs s then r6 else skip_u 1 r6)"
  have "before (if sx_frame_mbs s then r6 else skip_u 1 r6) ([sx_direct s] @ ?crop)"
    using r6(2) skip_flag_before [of r6 "sx_adaptive s" "[sx_direct s] @ ?crop"] by (cases "sx_frame_mbs s") simp_all
  then have r7: "before r7 ?crop" unfolding r7_def by (rule skip_flag_before)
  obtain l rt t b where c: "sps_crop s = (l, rt, t, b)" by (cases "sps_crop s")
  obtain r8 where r8: "read_crop r7 = ((of_nat l, of_nat rt, of_nat t, of_nat b), r8)" "before r8 ?vui"
    using read_crop_before [OF r7] v c by (auto simp: sps_crop_def)
  obtain r9 where r9: "read_vui r8 = (sps_fps s, r9)" "before r9 bs"
    using read_vui_before [OF r8(2)] v by (auto simp: sps_fps_def)
  have "uint (of_nat (sx_profile s) :: u32) = int (sx_profile s)" using v by (simp add: uint_of_nat_u32)
  moreover obtain w h where "sps_size s = (w, h)" by (cases "sps_size s")
  ultimately show ?thesis
    using assms(3) r1(1) r2(1) r4(1) [unfolded r3_def] r5(1) r6(1) r8(1) [unfolded r7_def] r9 picture_size_sps [OF assms(1) c]
    by (simp add: parse_sps_geometry_def sps_geometry_of_def before_def not_le not_less)
qed

lemma emulate_length: "length bs \<le> length (emulate z bs)"
  by (induction bs arbitrary: z) (auto simp: le_SucI)

text \<open>
  C28. The picture size and the frame rate of a video are the ones its encoder stated: a sequence
  parameter set written by the syntax of H.264, with any of its optional parts (chroma format,
  scaling lists, picture order, cropping, usability information), protected against emulated
  start codes, is read back without a signed overflow. It is refused exactly when the size is
  outside 1 to 16384. What follows the timing information does not matter.
\<close>

theorem sps_geometry_read:
  assumes "sps_valid s" "bits_of p = sps_bits s @ rest"
  shows "parse_sps_geometry (header # emulate 0 p) = Some (sps_geometry_of s)"
proof (rule parse_sps_before [OF assms(1)])
  show "before (rbsp_reader (tl (header # emulate 0 p))) (sps_bits s @ rest)"
    using strip_emulate [of 0 p] assms(2) by (simp add: before_def rbsp_reader_def)
  have "24 \<le> length (bits_of p)" unfolding assms(2) by (simp add: sps_bits_def)
  then show "4 \<le> length (header # emulate 0 p)" using emulate_length [of p 0] by simp
qed

definition demo_sps :: sps_syntax where
  "demo_sps = \<lparr>sx_profile = 100, sx_flags = 0, sx_level = 40, sx_id = 0, sx_chroma = (1, False), sx_depths = (0, 0), sx_bypass = False,
     sx_scaling = None, sx_frame_num = 0, sx_poc = Poc_output, sx_refs = 1, sx_gaps = False, sx_width = 119, sx_height = 67,
     sx_frame_mbs = True, sx_adaptive = False, sx_direct = True, sx_crop = Some (0, 0, 0, 4),
     sx_vui = Some \<lparr>vx_aspect = None, vx_overscan = None, vx_signal = None, vx_chroma_loc = None, vx_timing = Some (1, 60, True)\<rparr>\<rparr>"

definition demo_rbsp :: bytes where
  "demo_rbsp = [100, 0, 40, 172, 180, 3, 192, 17, 63, 44, 32, 0, 0, 0, 32, 0, 0, 7, 144, 128]"

lemma demo_sps_valid: "sps_valid demo_sps"
  by (simp add: sps_valid_def demo_sps_def opt_all_def crop_valid_def vui_valid_def)

lemma ubits_numeral: "ubits (numeral k) v = ubits (pred_numeral k) (v div 2) @ [odd v]"
  by (simp add: numeral_eq_Suc)

lemma bits_of_byte_ubits: "bits_of_byte b = ubits 8 (unat b)"
proof -
  have "bit b k = bit (unat b) k" for k by (simp add: bit_unsigned_iff)
  then have "bit b k = odd (unat b div 2 ^ k)" for k by (simp add: bit_iff_odd [of "unat b"])
  then show ?thesis by (simp add: bits_of_byte_def ubits_numeral upt_rec flip: div_mult2_eq)
qed

lemma demo_ue_bits:
  "ue_bits 0 = [True]" "ue_bits 1 = [False, True, False]" "ue_bits 2 = [False, True, True]"
  "ue_bits 4 = [False, False, True, False, True]"
  "ue_bits 67 = [False, False, False, False, False, False, True, False, False, False, True, False, False]"
  "ue_bits 119 = [False, False, False, False, False, False, True, True, True, True, False, False, False]"
  by code_simp+

lemma demo_ubits:
  "ubits 8 100 = [False, True, True, False, False, True, False, False]"
  "ubits 8 0 = [False, False, False, False, False, False, False, False]"
  "ubits 8 40 = [False, False, True, False, True, False, False, False]"
  "ubits 32 (Suc 0) = [False, False, False, False, False, False, False, False, False, False, False, False, False, False, False, False, False, False, False, False, False, False, False, False, False, False, False, False, False, False, False, True]"
  "ubits 32 60 = [False, False, False, False, False, False, False, False, False, False, False, False, False, False, False, False, False, False, False, False, False, False, False, False, False, False, True, True, True, True, False, False]"
  by (simp_all add: ubits_numeral)

lemma demo_sps_bits: "bits_of demo_rbsp = sps_bits demo_sps @ [False, False, False, False, True, False, False, False, False, False, False, False]"
proof -
  have "bits_of demo_rbsp = concat (map (ubits 8 \<circ> unat) demo_rbsp)" by (simp add: demo_rbsp_def bits_of_byte_ubits)
  then show ?thesis
    by (simp add: demo_rbsp_def ubits_numeral) (simp add: sps_bits_def demo_sps_def chroma_bits_def profile_has_chroma_block_def opt_bits_def
      crop_bits_def vui_bits_def timing_bits_def demo_ue_bits [simplified] demo_ubits)
qed

lemma demo_sps_geometry: "sps_geometry_of demo_sps = Some \<lparr>sg_width = 1920, sg_height = 1080, sg_fps = 30\<rparr>"
proof -
  have "frame_rate 1 60 = 30" by code_simp
  then show ?thesis
    by (simp add: sps_geometry_of_def sps_size_def sps_crop_def sps_chroma_def sps_fps_def demo_sps_def profile_has_chroma_block_def)
qed

theorem sps_geometry_read_witness:
  "parse_sps_geometry (0x67 # emulate 0 demo_rbsp) = Some (Some \<lparr>sg_width = 1920, sg_height = 1080, sg_fps = 30\<rparr>)"
  using sps_geometry_read [OF demo_sps_valid demo_sps_bits] by (simp add: demo_sps_geometry)

text \<open>
  C27. The conversion for the player keeps a picture: of a stream of units, each behind a start
  code of three or four bytes, the frame is taken apart again into exactly the units that are no
  parameter sets or delimiters, in order; there is a frame exactly when one remains, and it is
  marked when a unit is an IDR slice. The parameter sets kept aside are the last ones.
\<close>

theorem avcc_carries_units:
  assumes "\<forall>(four, nal) \<in> set ns. nal_ok nal \<and> length nal < 2 ^ 32"
  shows "\<exists>f. annexb_to_avcc (annexb ns) = (filter sample_nal (map snd ns) \<noteq> [], f) \<and>
      avcc_units (af_data f) = Some (filter sample_nal (map snd ns)) \<and> af_idr f = (\<exists>n \<in> set ns. nal_type (snd n) = 5) \<and>
      extract_parameter_sets (annexb ns) =
        (let sps = last ([] # filter (\<lambda>nal. nal_type nal = 7) (map snd ns)); pps = last ([] # filter (\<lambda>nal. nal_type nal = 8) (map snd ns))
         in (sps \<noteq> [] \<and> pps \<noteq> [], \<lparr>ps_sps = sps, ps_pps = pps\<rparr>))"
proof -
  have ok: "list_all (nal_ok \<circ> snd) ns" "\<forall>nal \<in> set (map snd ns). length nal < 2 ^ 32" using assms by (auto simp: list_all_iff)
  obtain d where d: "fold avcc_nal (map snd ns) (True, \<lparr>af_data = [], af_idr = False\<rparr>) =
      (True, \<lparr>af_data = d, af_idr = (\<exists>nal \<in> set (map snd ns). nal_type nal = 5)\<rparr>)"
      "avcc_units d = Some (filter sample_nal (map snd ns))" "d = [] \<longleftrightarrow> filter sample_nal (map snd ns) = []"
    using fold_avcc_nal [OF ok(2), of "\<lparr>af_data = [], af_idr = False\<rparr>"] by auto
  have "annexb_to_avcc (annexb ns) = (filter sample_nal (map snd ns) \<noteq> [], \<lparr>af_data = d, af_idr = (\<exists>n \<in> set ns. nal_type (snd n) = 5)\<rparr>)"
    using d by (simp add: annexb_to_avcc_def for_each_nal_annexb [OF ok(1)] del: fold_map)
  then show ?thesis using d(2)
    by (simp add: extract_parameter_sets_def for_each_nal_annexb [OF ok(1)] fold_keep_set Let_def del: fold_map)
qed

definition demo_nals :: "(bool \<times> bytes) list" where
  "demo_nals = [(True, [0x67, 1]), (False, [0x68, 2]), (False, [0x65, 0, 0, 3])]"

theorem avcc_carries_units_witness:
  "\<exists>f. annexb_to_avcc (annexb demo_nals) = (True, f) \<and> avcc_units (af_data f) = Some [[0x65, 0, 0, 3]] \<and> af_idr f"
proof -
  have "\<forall>(four, nal) \<in> set demo_nals. nal_ok nal \<and> length nal < 2 ^ 32" by (simp add: demo_nals_def nal_ok_def)
  moreover have "filter sample_nal (map snd demo_nals) = [[0x65, 0, 0, 3]]" "\<exists>n \<in> set demo_nals. nal_type (snd n) = 5"
    by code_simp+
  ultimately show ?thesis using avcc_carries_units [of demo_nals] by auto
qed

text \<open>
  Two inputs show what the parser does not guard against: a delta of a scaling list that leaves
  the range of \<open>int\<close>, and cropping offsets whose sum wraps, so that a cut of \<open>2^32\<close> columns counts as none.
\<close>

lemma scaling_list_overflows: "skip_scaling_list 1 8 8 (rbsp_reader [0, 0, 3, 0, 1, 255, 255, 255, 252]) = None"
  by code_simp

lemma crop_wraps: "picture_size 1 False 120 68 True (4294967294, 2, 0, 0) = (1920, 1088)"
  by code_simp

end
