(* ===== verification/Zip_Read.thy ===== *)
theory Zip_Read
  imports Obn_Prelude
begin

text \<open>
  Model of \<open>src/zip_read.cpp\<close>: reading one member of a zip archive, from the record at its end
  over the central directory to the member's data. The archive is a sequence of bytes of which
  any read may fail; inflating and the checksum are those of zlib, arguments here.
\<close>

section \<open>The reader\<close>

definition kEocdSig :: u32 where "kEocdSig = 0x06054b50"
definition kCentralSig :: u32 where "kCentralSig = 0x02014b50"
definition kLocalSig :: u32 where "kLocalSig = 0x04034b50"
definition kEocdLen :: nat where "kEocdLen = 22"
definition kCentralLen :: nat where "kCentralLen = 46"
definition kLocalLen :: nat where "kLocalLen = 30"
definition kMaxComment :: nat where "kMaxComment = 0xffff"
definition kMaxCentralDir :: nat where "kMaxCentralDir = 16 * 2 ^ 20"
definition kMaxPacked :: nat where "kMaxPacked = 16 * 2 ^ 20"

text \<open>A file that could be opened; \<open>zf_fails off n\<close> tells that a read of \<open>n\<close> bytes at \<open>off\<close> fails.\<close>

record zip_file =
  zf_data :: bytes
  zf_fails :: "nat \<Rightarrow> nat \<Rightarrow> bool"

definition zip_read_at :: "zip_file \<Rightarrow> nat \<Rightarrow> nat \<Rightarrow> bytes option" where
  "zip_read_at f off n =
     (if zf_fails f off n then None
      else if n = 0 then Some []
      else if off + n \<le> length (zf_data f) then Some (take n (drop off (zf_data f)))
      else None)"

text \<open>zlib: inflating raw data to a buffer that it has to fill exactly, and the checksum.\<close>

record zlib =
  zl_inflate :: "bytes \<Rightarrow> nat \<Rightarrow> bytes option"
  zl_crc32 :: "bytes \<Rightarrow> u32"

definition field16 :: "nat \<Rightarrow> bytes \<Rightarrow> nat" where
  "field16 k p = unat (get_le16 (drop k p))"

definition field32 :: "nat \<Rightarrow> bytes \<Rightarrow> nat" where
  "field32 k p = unat (get_le32 (drop k p))"

definition eocd_at :: "bytes \<Rightarrow> nat \<Rightarrow> bool" where
  "eocd_at tail i = (get_le32 (drop i tail) = kEocdSig \<and> i + kEocdLen + field16 20 (drop i tail) = length tail)"

text \<open>The scan from position \<open>i - 1\<close> backwards.\<close>

fun find_eocd :: "bytes \<Rightarrow> nat \<Rightarrow> nat option" where
  "find_eocd tail 0 = None"
| "find_eocd tail (Suc i) = (if eocd_at tail i then Some i else find_eocd tail i)"

text \<open>The data of a member, from its central record \<open>c\<close>; data end before \<open>cd_off\<close>.\<close>

definition read_member_data :: "zlib \<Rightarrow> zip_file \<Rightarrow> nat \<Rightarrow> nat \<Rightarrow> bytes \<Rightarrow> string + bytes" where
  "read_member_data z f max_size cd_off c =
     (let flags = get_le16 (drop 8 c); mthd = field16 10 c; crc = get_le32 (drop 16 c);
          csize = field32 20 c; usize = field32 24 c; loff = field32 42 c
      in if flags AND 1 \<noteq> 0 then Inl ''encrypted entry''
         else if csize = 0xffffffff \<or> usize = 0xffffffff \<or> loff = 0xffffffff then Inl ''zip64 entry''
         else if max_size < usize then Inl ''entry too large''
         else if mthd \<noteq> 0 \<and> mthd \<noteq> 8 then Inl ''unsupported compression method''
         else if (if mthd = 0 then csize \<noteq> usize else kMaxPacked < csize) then Inl ''bad entry sizes''
         else case zip_read_at f loff kLocalLen of
                None \<Rightarrow> Inl ''bad local header''
              | Some lh \<Rightarrow>
                  (let data_off = loff + kLocalLen + field16 26 lh + field16 28 lh
                   in if get_le32 lh \<noteq> kLocalSig then Inl ''bad local header''
                      else if cd_off < data_off + csize then Inl ''entry data out of bounds''
                      else case zip_read_at f data_off csize of
                             None \<Rightarrow> Inl ''read failed''
                           | Some packed \<Rightarrow>
                               (case (if mthd = 0 then Some packed else zl_inflate z packed usize) of
                                  None \<Rightarrow> Inl ''inflate failed''
                                | Some data \<Rightarrow> if zl_crc32 z data \<noteq> crc then Inl ''crc mismatch'' else Inr data)))"

text \<open>The records of the central directory; \<open>cd\<close> is what is left of it.\<close>

fun find_member :: "(bytes \<Rightarrow> string + bytes) \<Rightarrow> bytes \<Rightarrow> nat \<Rightarrow> bytes \<Rightarrow> string + bytes" where
  "find_member read name 0 cd = Inl ''entry not found''"
| "find_member read name (Suc n) cd =
     (if length cd < kCentralLen \<or> get_le32 cd \<noteq> kCentralSig then Inl ''bad central directory entry''
      else let nlen = field16 28 cd; rec_len = kCentralLen + nlen + field16 30 cd + field16 32 cd
           in if length cd < rec_len then Inl ''bad central directory entry''
              else if nlen = length name \<and> take nlen (drop kCentralLen cd) = name then read cd
              else find_member read name n (drop rec_len cd))"

definition read_entry :: "zlib \<Rightarrow> (string \<Rightarrow> zip_file option) \<Rightarrow> string \<Rightarrow> string \<Rightarrow> nat \<Rightarrow> string + bytes" where
  "read_entry z files zip_path name max_size =
     (case files zip_path of
        None \<Rightarrow> Inl ''cannot open archive''
      | Some f \<Rightarrow>
          (let file_len = length (zf_data f); tail_len = min file_len (kEocdLen + kMaxComment)
           in if file_len < kEocdLen then Inl ''not a zip archive''
              else case zip_read_at f (file_len - tail_len) tail_len of
                     None \<Rightarrow> Inl ''read failed''
                   | Some tail \<Rightarrow>
                       (case find_eocd tail (tail_len - kEocdLen + 1) of
                          None \<Rightarrow> Inl ''no end of central directory record''
                        | Some i \<Rightarrow>
                            (let e = drop i tail; entries = field16 10 e; cd_size = field32 12 e; cd_off = field32 16 e
                             in if entries = 0xffff \<or> cd_size = 0xffffffff \<or> cd_off = 0xffffffff then Inl ''zip64 archive''
                                else if field16 4 e \<noteq> 0 \<or> field16 6 e \<noteq> 0 \<or> field16 8 e \<noteq> entries then Inl ''multi-disk archive''
                                else if file_len - tail_len + i < cd_off + cd_size \<or> kMaxCentralDir < cd_size
                                then Inl ''central directory out of bounds''
                                else case zip_read_at f cd_off cd_size of
                                       None \<Rightarrow> Inl ''read failed''
                                     | Some cd \<Rightarrow> find_member (read_member_data z f max_size cd_off) (bytes_of_string name) entries cd))))"

section \<open>What is read comes from the file and fits\<close>

lemma zip_read_at_Some: "zip_read_at f off n = Some d \<Longrightarrow> length d = n \<and> (n = 0 \<or> off + n \<le> length (zf_data f))"
  by (auto simp: zip_read_at_def split: if_splits)

lemma find_member_found:
  "find_member read name n cd = Inr d \<Longrightarrow> \<exists>k. kCentralLen \<le> length (drop k cd) \<and> read (drop k cd) = Inr d \<and>
     take (length name) (drop kCentralLen (drop k cd)) = name"
proof (induction n arbitrary: cd)
  case (Suc n)
  define l where "l = kCentralLen + field16 28 cd + field16 30 cd + field16 32 cd"
  have len: "kCentralLen \<le> length cd" using Suc.prems by (auto split: if_splits)
  show ?case
  proof (cases "field16 28 cd = length name \<and> take (field16 28 cd) (drop kCentralLen cd) = name")
    case True
    then show ?thesis using Suc.prems len by (intro exI [of _ 0]) (auto simp: Let_def split: if_splits)
  next
    case False
    then have "find_member read name n (drop l cd) = Inr d" using Suc.prems by (auto simp: Let_def l_def split: if_splits)
    then show ?thesis using Suc.IH [of "drop l cd"] by (metis drop_drop)
  qed
qed simp

lemma read_member_data_fits:
  "read_member_data z f max_size cd_off c = Inr d \<Longrightarrow>
   zl_crc32 z d = get_le32 (drop 16 c) \<and> field32 24 c \<le> max_size \<and>
   (\<exists>off packed. zip_read_at f off (field32 20 c) = Some packed \<and> off + field32 20 c \<le> cd_off \<and>
      (if field16 10 c = 0 then d = packed \<and> length d = field32 24 c else zl_inflate z packed (field32 24 c) = Some d))"
  unfolding read_member_data_def Let_def by (auto split: if_splits option.splits) (metis leI zip_read_at_Some)+

section \<open>Written archives\<close>

text \<open>
  A member as a zip writer has it: \<open>zm_local\<close> are the fields of the local header that the reader
  passes over (22 bytes), \<open>zm_descriptor\<close> what may follow the data.
\<close>

record zip_member =
  zm_name :: string
  zm_data :: bytes
  zm_packed :: bytes
  zm_method :: u16
  zm_flags :: u16
  zm_version :: u32
  zm_time :: u32
  zm_attrs :: "u32 \<times> u32"
  zm_extra :: bytes
  zm_comment :: bytes
  zm_local :: bytes
  zm_local_extra :: bytes
  zm_descriptor :: bytes

definition local_part :: "zip_member \<Rightarrow> bytes" where
  "local_part m = le32 kLocalSig @ zm_local m @ le16 (of_nat (length (zm_name m))) @ le16 (of_nat (length (zm_local_extra m))) @
     bytes_of_string (zm_name m) @ zm_local_extra m @ zm_packed m @ zm_descriptor m"

definition central_record :: "zlib \<Rightarrow> zip_member \<Rightarrow> nat \<Rightarrow> bytes" where
  "central_record z m off = le32 kCentralSig @ le32 (zm_version m) @ le16 (zm_flags m) @ le16 (zm_method m) @ le32 (zm_time m) @
     le32 (zl_crc32 z (zm_data m)) @ le32 (of_nat (length (zm_packed m))) @ le32 (of_nat (length (zm_data m))) @
     le16 (of_nat (length (zm_name m))) @ le16 (of_nat (length (zm_extra m))) @ le16 (of_nat (length (zm_comment m))) @
     le32 (fst (zm_attrs m)) @ le32 (snd (zm_attrs m)) @ le32 (of_nat off) @
     bytes_of_string (zm_name m) @ zm_extra m @ zm_comment m"

fun central_dir :: "zlib \<Rightarrow> zip_member list \<Rightarrow> nat \<Rightarrow> bytes" where
  "central_dir z [] off = []"
| "central_dir z (m # ms) off = central_record z m off @ central_dir z ms (off + length (local_part m))"

definition eocd_record :: "nat \<Rightarrow> nat \<Rightarrow> nat \<Rightarrow> bytes \<Rightarrow> bytes" where
  "eocd_record n cd_size cd_off comment = le32 kEocdSig @ le16 0 @ le16 0 @ le16 (of_nat n) @ le16 (of_nat n) @
     le32 (of_nat cd_size) @ le32 (of_nat cd_off) @ le16 (of_nat (length comment)) @ comment"

definition zip_body :: "bytes \<Rightarrow> zip_member list \<Rightarrow> bytes" where
  "zip_body stub ms = stub @ concat (map local_part ms)"

definition zip_end :: "zlib \<Rightarrow> bytes \<Rightarrow> zip_member list \<Rightarrow> bytes \<Rightarrow> bytes" where
  "zip_end z stub ms comment =
     eocd_record (length ms) (length (central_dir z ms (length stub))) (length (zip_body stub ms)) comment"

definition zip_archive :: "zlib \<Rightarrow> bytes \<Rightarrow> zip_member list \<Rightarrow> bytes \<Rightarrow> bytes" where
  "zip_archive z stub ms comment = zip_body stub ms @ central_dir z ms (length stub) @ zip_end z stub ms comment"

definition member_ok :: "zlib \<Rightarrow> zip_member \<Rightarrow> bool" where
  "member_ok z m = (length (zm_name m) < 2 ^ 16 \<and> length (zm_extra m) < 2 ^ 16 \<and> length (zm_comment m) < 2 ^ 16 \<and>
     length (zm_local m) = 22 \<and> length (zm_local_extra m) < 2 ^ 16 \<and> length (zm_data m) < 2 ^ 32 - 1 \<and> zm_flags m AND 1 = 0 \<and>
     (if zm_method m = 0 then zm_packed m = zm_data m
      else zm_method m = 8 \<and> length (zm_packed m) \<le> kMaxPacked \<and> zl_inflate z (zm_packed m) (length (zm_data m)) = Some (zm_data m)))"

text \<open>No later position passes for the end record, e.g. because there is no comment; sizes fit their fields.\<close>

definition archive_ok :: "zlib \<Rightarrow> bytes \<Rightarrow> zip_member list \<Rightarrow> bytes \<Rightarrow> bool" where
  "archive_ok z stub ms comment = (list_all (member_ok z) ms \<and> length ms < 0xffff \<and> length comment < 2 ^ 16 \<and>
     length (zip_body stub ms) < 2 ^ 32 - 1 \<and> length (central_dir z ms (length stub)) \<le> kMaxCentralDir \<and>
     (\<forall>k \<in> set [1..<Suc (length comment)]. \<not> eocd_at (zip_end z stub ms comment) k))"

lemmas zip_lens [simp] = kEocdLen_def kCentralLen_def kLocalLen_def

lemma unat16: "n < 2 ^ 16 \<Longrightarrow> unat (of_nat n :: u16) = n"
  by (simp add: unat_of_nat take_bit_nat_eq_self)

lemma unat32: "n < 2 ^ 32 \<Longrightarrow> unat (of_nat n :: u32) = n"
  by (simp add: unat_of_nat take_bit_nat_eq_self)

lemma length_central_record [simp]:
  "length (central_record z m off) = 46 + length (zm_name m) + length (zm_extra m) + length (zm_comment m)"
  by (simp add: central_record_def)

lemma central_record_fields:
  assumes "member_ok z m"
  shows "get_le32 (central_record z m off @ s) = kCentralSig"
    and "field16 28 (central_record z m off @ s) = length (zm_name m)"
    and "field16 30 (central_record z m off @ s) = length (zm_extra m)"
    and "field16 32 (central_record z m off @ s) = length (zm_comment m)"
    and "take (length (zm_name m)) (drop 46 (central_record z m off @ s)) = bytes_of_string (zm_name m)"
    and "get_le16 (drop 8 (central_record z m off @ s)) = zm_flags m"
    and "get_le16 (drop 10 (central_record z m off @ s)) = zm_method m"
    and "get_le32 (drop 16 (central_record z m off @ s)) = zl_crc32 z (zm_data m)"
    and "get_le32 (drop 20 (central_record z m off @ s)) = of_nat (length (zm_packed m))"
    and "get_le32 (drop 24 (central_record z m off @ s)) = of_nat (length (zm_data m))"
    and "get_le32 (drop 42 (central_record z m off @ s)) = of_nat off"
  using assms by (simp_all add: central_record_def field16_def member_ok_def unat16)

lemma eocd_fields:
  assumes "n < 2 ^ 16" "cd_size < 2 ^ 32" "cd_off < 2 ^ 32" "length comment < 2 ^ 16"
  shows "get_le32 (eocd_record n cd_size cd_off comment) = kEocdSig" "field16 4 (eocd_record n cd_size cd_off comment) = 0"
    and "field16 6 (eocd_record n cd_size cd_off comment) = 0" "field16 8 (eocd_record n cd_size cd_off comment) = n"
    and "field16 10 (eocd_record n cd_size cd_off comment) = n" "field32 12 (eocd_record n cd_size cd_off comment) = cd_size"
    and "field32 16 (eocd_record n cd_size cd_off comment) = cd_off" "field16 20 (eocd_record n cd_size cd_off comment) = length comment"
    and "length (eocd_record n cd_size cd_off comment) = 22 + length comment"
  using assms by (simp_all add: eocd_record_def field16_def field32_def unat16 unat32)

lemma find_eocd_last:
  "eocd_at tail i \<Longrightarrow> i < n \<Longrightarrow> (\<And>j. i < j \<Longrightarrow> j < n \<Longrightarrow> \<not> eocd_at tail j) \<Longrightarrow> find_eocd tail n = Some i"
proof (induction n)
  case (Suc n)
  then show ?case by (cases "i = n") (auto simp: less_Suc_eq)
qed simp

lemma bytes_of_string_inject: "bytes_of_string a = bytes_of_string b \<longleftrightarrow> a = b"
  by (metis string_of_bytes_of_string)

lemma find_member_central:
  assumes "list_all (member_ok z) ms"
    and "\<And>as m bs s. ms = as @ m # bs \<Longrightarrow> read (central_record z m (off + length (concat (map local_part as))) @ s) = res m"
  shows "find_member read (bytes_of_string name) (length ms) (central_dir z ms off) =
    (case find (\<lambda>m. zm_name m = name) ms of None \<Rightarrow> Inl ''entry not found'' | Some m \<Rightarrow> res m)"
  using assms
proof (induction ms arbitrary: off)
  case (Cons m ms)
  let ?cd = "central_record z m off @ central_dir z ms (off + length (local_part m))"
  have ok: "member_ok z m" using Cons.prems(1) by simp
  note fields = central_record_fields [OF ok]
  have here: "read ?cd = res m" using Cons.prems(2) [of "[]" m ms] by simp
  have later: "find_member read (bytes_of_string name) (length ms) (central_dir z ms (off + length (local_part m))) =
      (case find (\<lambda>m. zm_name m = name) ms of None \<Rightarrow> Inl ''entry not found'' | Some m \<Rightarrow> res m)"
    using Cons.prems(1) Cons.prems(2) [of "m # _"] by (intro Cons.IH) (simp_all add: add.assoc)
  have skip: "drop (46 + length (zm_name m) + length (zm_extra m) + length (zm_comment m)) ?cd =
      central_dir z ms (off + length (local_part m))" by (metis append_eq_conv_conj length_central_record)
  have name: "length (zm_name m) = length (bytes_of_string name) \<and> bytes_of_string (zm_name m) = bytes_of_string name \<longleftrightarrow> zm_name m = name"
    using bytes_of_string_inject [of "zm_name m" name] by auto
  have "find_member read (bytes_of_string name) (length (m # ms)) ?cd =
      (if zm_name m = name then read ?cd
       else find_member read (bytes_of_string name) (length ms) (central_dir z ms (off + length (local_part m))))"
    using name skip by (simp add: fields Let_def del: drop_append take_append)
  then show ?case using here later by simp
qed simp

lemma packed_fits: "member_ok z m \<Longrightarrow> length (zm_packed m) < 2 ^ 32 - 1"
  by (auto simp: member_ok_def kMaxPacked_def split: if_splits)

lemma read_written_member:
  assumes ok: "member_ok z m" and f: "zf_data f = stub @ local_part m @ rest" "\<And>off n. \<not> zf_fails f off n"
    and "length stub < 2 ^ 32 - 1" "length stub + length (local_part m) \<le> cd_off"
  shows "read_member_data z f max_size cd_off (central_record z m (length stub) @ s) =
    (if max_size < length (zm_data m) then Inl ''entry too large'' else Inr (zm_data m))"
proof -
  let ?c = "central_record z m (length stub) @ s"
  let ?h = "le32 kLocalSig @ zm_local m @ le16 (of_nat (length (zm_name m))) @ le16 (of_nat (length (zm_local_extra m)))"
  let ?off = "length stub + 30 + length (zm_name m) + length (zm_local_extra m)"
  note fields = central_record_fields [OF ok, of "length stub" s]
  have sizes: "field32 20 ?c = length (zm_packed m)" "field32 24 ?c = length (zm_data m)" "field32 42 ?c = length stub"
    using fields(9,10,11) packed_fits [OF ok] ok assms(4) by (simp_all add: field32_def unat32 member_ok_def del: drop_append)
  have h: "length ?h = 30" "local_part m = ?h @ bytes_of_string (zm_name m) @ zm_local_extra m @ zm_packed m @ zm_descriptor m"
    using ok by (simp_all add: member_ok_def local_part_def)
  have lh: "zip_read_at f (length stub) 30 = Some ?h"
    using h by (simp add: zip_read_at_def f)
  have lhf: "get_le32 ?h = kLocalSig" "field16 26 ?h = length (zm_name m)" "field16 28 ?h = length (zm_local_extra m)"
    using ok le16.dec_enc [of _ "[]"] by (simp_all add: member_ok_def field16_def unat16)
  have data: "zip_read_at f ?off (length (zm_packed m)) = Some (zm_packed m)"
    using h by (simp add: zip_read_at_def f)
  have fit: "?off + length (zm_packed m) \<le> cd_off" using assms(5) h by simp
  have mthd: "field16 10 ?c = unat (zm_method m)" using fields(7) by (simp add: field16_def del: drop_append)
  have packed: "(if zm_method m = 0 then Some (zm_packed m) else zl_inflate z (zm_packed m) (length (zm_data m))) = Some (zm_data m)"
    and csize: "\<not> (if zm_method m = 0 then length (zm_packed m) \<noteq> length (zm_data m) else kMaxPacked < length (zm_packed m))"
    and m08: "zm_method m = 0 \<or> zm_method m = 8" and flags: "zm_flags m AND 1 = 0" and big: "length (zm_data m) < 2 ^ 32 - 1"
    using ok by (auto simp: member_ok_def split: if_splits)
  show ?thesis
    using packed csize m08 flags big packed_fits [OF ok] lh lhf data fit assms(4)
    by (auto simp: read_member_data_def Let_def sizes fields(6,8) mthd simp del: drop_append)
qed

lemma eocd_at_shift: "eocd_at (a @ e) (length a + k) = eocd_at e k"
  by (simp add: eocd_at_def add.assoc)

text \<open>The record at the end is found, and the central directory read.\<close>

lemma read_written_archive:
  assumes ok: "archive_ok z stub ms comment" and f: "files path = Some f" "zf_data f = zip_archive z stub ms comment"
    and nf: "\<And>off n. \<not> zf_fails f off n"
  shows "read_entry z files path name max_size =
    find_member (read_member_data z f max_size (length (zip_body stub ms))) (bytes_of_string name) (length ms) (central_dir z ms (length stub))"
proof -
  let ?cd = "central_dir z ms (length stub)"
  let ?body = "zip_body stub ms"
  let ?e = "zip_end z stub ms comment"
  let ?data = "?body @ ?cd @ ?e"
  have b: "length ms < 0xffff" "length ms < 2 ^ 16" "length ?cd < 2 ^ 32 - 1" "length ?cd \<le> kMaxCentralDir"
      "length ?body < 2 ^ 32 - 1" "length comment < 2 ^ 16"
    using ok by (simp_all add: archive_ok_def kMaxCentralDir_def)
  have e: "get_le32 ?e = kEocdSig" "field16 4 ?e = 0" "field16 6 ?e = 0" "field16 8 ?e = length ms" "field16 10 ?e = length ms"
      "field32 12 ?e = length ?cd" "field32 16 ?e = length ?body" "field16 20 ?e = length comment" "length ?e = 22 + length comment"
    unfolding zip_end_def using b eocd_fields [of "length ms" "length ?cd" "length ?body" comment] by simp_all
  define tail_len where "tail_len = min (length ?data) (22 + kMaxComment)"
  define a where "a = drop (length ?data - tail_len) (?body @ ?cd)"
  have le: "22 + length comment \<le> tail_len" "tail_len \<le> length ?data" using b(6) e(9) by (simp_all add: tail_len_def kMaxComment_def)
  have tail: "drop (length ?data - tail_len) ?data = a @ ?e" "length a + 22 + length comment = tail_len"
    using le e(9) by (simp_all add: a_def)
  have r1: "zip_read_at f (length ?data - tail_len) tail_len = Some (a @ ?e)"
    using le tail nf e(9) by (simp add: zip_read_at_def f(2) zip_archive_def)
  have "eocd_at (a @ ?e) (length a)" using eocd_at_shift [of a ?e 0] e(1,8,9) by (simp add: eocd_at_def)
  moreover have "\<not> eocd_at (a @ ?e) j" if "length a < j" "j < tail_len - 22 + 1" for j
  proof -
    have "j - length a \<in> set [1..<Suc (length comment)]" "length a + (j - length a) = j" using that tail(2) by auto
    then show ?thesis using ok eocd_at_shift [of a ?e "j - length a"] by (auto simp: archive_ok_def)
  qed
  ultimately have r2: "find_eocd (a @ ?e) (tail_len - 22 + 1) = Some (length a)"
    using tail(2) by (intro find_eocd_last) simp_all
  have r3: "zip_read_at f (length ?body) (length ?cd) = Some ?cd" using nf by (simp add: zip_read_at_def f(2) zip_archive_def)
  have pos: "length ?data - tail_len + length a = length ?body + length ?cd" using tail(2) le e(9) by simp
  have flen: "length (zf_data f) = length ?data" "\<not> length ?data < 22" using le by (simp_all add: f(2) zip_archive_def)
  show ?thesis
    using b r1 r2 r3 pos flen unfolding read_entry_def f(1) option.case Let_def zip_lens flen(1) tail_len_def [symmetric]
    by (simp add: e)
qed

lemma read_member_of_archive:
  assumes "archive_ok z stub ms comment" "files path = Some \<lparr>zf_data = zip_archive z stub ms comment, zf_fails = \<lambda>_ _. False\<rparr>"
  shows "read_entry z files path name max_size =
    (case find (\<lambda>m. zm_name m = name) ms of
       None \<Rightarrow> Inl ''entry not found''
     | Some m \<Rightarrow> if max_size < length (zm_data m) then Inl ''entry too large'' else Inr (zm_data m))"
proof -
  let ?f = "\<lparr>zf_data = zip_archive z stub ms comment, zf_fails = \<lambda>_ _. False\<rparr>"
  have "read_member_data z ?f max_size (length (zip_body stub ms)) (central_record z m (length stub + length (concat (map local_part as))) @ s) =
      (if max_size < length (zm_data m) then Inl ''entry too large'' else Inr (zm_data m))" if "ms = as @ m # bs" for as m bs s
    using read_written_member [of z m ?f "stub @ concat (map local_part as)" _ "length (zip_body stub ms)" max_size s] assms(1) that
    by (simp add: archive_ok_def zip_archive_def zip_body_def)
  from find_member_central [where res = "\<lambda>m. if max_size < length (zm_data m) then Inl ''entry too large'' else Inr (zm_data m)", OF _ this]
  show ?thesis using read_written_archive [where files = files and path = path and f = ?f, OF assms] assms(1) by (simp add: archive_ok_def)
qed

text \<open>
  C29. Reading a member of a zip archive gives back what a writer put in: for an archive with
  stored or deflated members, with or without data descriptors, extra fields, comments and bytes
  in front, the result is the data of the first member with the name, refused when it is longer
  than allowed, or the message that there is none.
\<close>

theorem zip_member_read:
  assumes "archive_ok z stub ms comment" "files path = Some \<lparr>zf_data = zip_archive z stub ms comment, zf_fails = \<lambda>_ _. False\<rparr>"
  shows "read_entry z files path name max_size =
    (case find (\<lambda>m. zm_name m = name) ms of
       None \<Rightarrow> Inl ''entry not found''
     | Some m \<Rightarrow> if max_size < length (zm_data m) then Inl ''entry too large'' else Inr (zm_data m))"
  using assms by (rule read_member_of_archive)

text \<open>An archive with a stored and a deflated member; inflating repeats a byte as often as it should.\<close>

definition demo_zlib :: zlib where
  "demo_zlib = \<lparr>zl_inflate = (\<lambda>p n. Some (replicate n (hd p))), zl_crc32 = (\<lambda>d. of_nat (length d))\<rparr>"

definition demo_member :: "string \<Rightarrow> bytes \<Rightarrow> bytes \<Rightarrow> u16 \<Rightarrow> zip_member" where
  "demo_member name data packed mthd = \<lparr>zm_name = name, zm_data = data, zm_packed = packed, zm_method = mthd, zm_flags = 8, zm_version = 20,
     zm_time = 0, zm_attrs = (0, 0), zm_extra = [], zm_comment = [], zm_local = replicate 22 0, zm_local_extra = [1], zm_descriptor = [9]\<rparr>"

definition demo_members :: "zip_member list" where
  "demo_members = [demo_member ''a'' [1, 2] [1, 2] 0, demo_member ''b'' [7, 7, 7] [7] 8]"

lemma demo_archive_ok: "archive_ok demo_zlib [0] demo_members []"
  by (simp add: archive_ok_def demo_members_def demo_member_def member_ok_def demo_zlib_def zip_body_def local_part_def
      kMaxPacked_def kMaxCentralDir_def)

theorem zip_member_read_witness:
  "read_entry demo_zlib (\<lambda>_. Some \<lparr>zf_data = zip_archive demo_zlib [0] demo_members [], zf_fails = \<lambda>_ _. False\<rparr>) ''x'' ''b'' 10 = Inr [7, 7, 7]"
  using zip_member_read [OF demo_archive_ok, of "\<lambda>_. Some \<lparr>zf_data = zip_archive demo_zlib [0] demo_members [], zf_fails = \<lambda>_ _. False\<rparr>" "''x''" "''b''" 10]
  by (simp add: demo_members_def demo_member_def)

end
