(* ===== verification/Status_Patch.thy ===== *)
theory Status_Patch
  imports Json_Lite Model_Metadata
begin

text \<open>
  Model of what \<open>src/agent.cpp\<close> does to the status reports of a printer before the slicer gets
  them: the optional patches of the JSON text, the replacement of the zero ids of a LAN print by
  synthetic ones, and the table from which these are looked up again. A patch gives a flag, whether
  it changed the text, and the text. A conversion that C leaves undefined is \<open>None\<close>.
\<close>

section \<open>Numbers in a report\<close>

text \<open>\<open>std::stoll\<close>, \<open>std::stoull(s, nullptr, 16)\<close> and \<open>std::stoi\<close>; \<open>None\<close> when they throw.\<close>

definition stoll :: "string \<Rightarrow> int option" where
  "stoll s = (case strto 10 (c_str s) of
     None \<Rightarrow> None
   | Some (neg, v, _) \<Rightarrow> (let i = (if neg then - int v else int v) in if - (2 ^ 63) \<le> i \<and> i < 2 ^ 63 then Some i else None))"

definition stoull16 :: "string \<Rightarrow> nat option" where
  "stoull16 s = (case strto 16 (c_str s) of
     None \<Rightarrow> None
   | Some (neg, v, _) \<Rightarrow> if 2 ^ 64 \<le> v then None else Some (if neg then (2 ^ 64 - v) mod 2 ^ 64 else v))"

definition stoi :: "string \<Rightarrow> int option" where
  "stoi s = (case stoll s of Some i \<Rightarrow> if - (2 ^ 31) \<le> i \<and> i < 2 ^ 31 then Some i else None | None \<Rightarrow> None)"

text \<open>\<open>%llx\<close> and \<open>%08x\<close>.\<close>

fun hex_digits :: "nat \<Rightarrow> string" where
  "hex_digits n = (if n < 16 then [hex_lower_digit n] else hex_digits (n div 16) @ [hex_lower_digit (n mod 16)])"

declare hex_digits.simps [simp del]

definition hex8 :: "u32 \<Rightarrow> string" where
  "hex8 w = (let s = hex_digits (unat w) in replicate (8 - length s) (CHR ''0'') @ s)"

text \<open>A key as it stands in the text, and the text cut behind its first occurrence.\<close>

definition json_key :: "string \<Rightarrow> string" where
  "json_key k = [CHR 0x22] @ k @ [CHR 0x22] @ '':''"

definition cut_after :: "string \<Rightarrow> string \<Rightarrow> (string \<times> string) option" where
  "cut_after key s = map_option (\<lambda>p. (take (p + length key) s, drop (p + length key) s)) (str_find key s)"

abbreviation is_blank :: "char \<Rightarrow> bool" where
  "is_blank c \<equiv> c = CHR '' ''"

section \<open>Capability patches\<close>

definition try_rewrite_home_flag :: "string \<Rightarrow> bool \<times> string" where
  "try_rewrite_home_flag payload =
     (case cut_after (json_key ''home_flag'') payload of
        None \<Rightarrow> (False, payload)
      | Some (hd_part, s) \<Rightarrow>
          (let sp = takeWhile is_blank s; num = dropWhile is_blank s;
               negative = (num \<noteq> [] \<and> hd num = CHR ''-'');
               ds = takeWhile is_digit (if negative then tl num else num);
               tl_part = dropWhile is_digit (if negative then tl num else num)
           in if ds = [] then (False, payload)
              else case stoll ds of
                     None \<Rightarrow> (False, payload)
                   | Some v \<Rightarrow>
                       (let flag = (if negative then - v else v)
                        in if drop_bit 8 flag AND 3 \<noteq> 0 then (False, payload)
                           else (True, hd_part @ sp @ dec_int (flag OR push_bit 8 1) @ tl_part))))"

text \<open>
  The scan for the bracket that closes the one before the text, at depth \<open>d\<close>; \<open>q\<close> and \<open>e\<close> tell
  whether the scan is in a string and behind a backslash.
\<close>

fun close_scan :: "char \<Rightarrow> char \<Rightarrow> nat \<Rightarrow> bool \<Rightarrow> bool \<Rightarrow> string \<Rightarrow> nat option" where
  "close_scan op cl d q e [] = None"
| "close_scan op cl d q e (c # s) =
     (if q then map_option Suc (close_scan op cl d (e \<or> c \<noteq> CHR 0x22) (\<not> e \<and> c = CHR 0x5C) s)
      else if c = CHR 0x22 then map_option Suc (close_scan op cl d True False s)
      else if c = op then map_option Suc (close_scan op cl (d + 1) False False s)
      else if c = cl then (if d = 1 then Some 0 else map_option Suc (close_scan op cl (d - 1) False False s))
      else map_option Suc (close_scan op cl d False False s))"

text \<open>Whether a key at depth 1 stands in the text that is scanned.\<close>

fun key_scan :: "string \<Rightarrow> nat \<Rightarrow> bool \<Rightarrow> bool \<Rightarrow> string \<Rightarrow> bool" where
  "key_scan key d q e [] = False"
| "key_scan key d q e (c # s) =
     (if q then key_scan key d (e \<or> c \<noteq> CHR 0x22) (\<not> e \<and> c = CHR 0x5C) s
      else if c = CHR 0x22 then (d = 1 \<and> starts_with key (c # s)) \<or> key_scan key d True False s
      else if c = CHR 0x7B then key_scan key (d + 1) False False s
      else if c = CHR 0x7D then (if d = 1 then False else key_scan key (d - 1) False False s)
      else key_scan key d False False s)"

definition kInject :: string where
  "kInject = '','' @ json_key ''file'' @ [CHR 0x7B] @ json_key ''local'' @ [CHR 0x22] @ ''local'' @ [CHR 0x22] @ '','' @
     json_key ''remote'' @ [CHR 0x22] @ ''none'' @ [CHR 0x22] @ '','' @
     json_key ''model_download'' @ [CHR 0x22] @ ''enabled'' @ [CHR 0x22, CHR 0x7D]"

definition try_inject_ipcam_file_local :: "string \<Rightarrow> bool \<times> string" where
  "try_inject_ipcam_file_local payload =
     (case Option.bind (str_find (json_key ''ipcam'') payload)
             (\<lambda>p. let s = drop (p + length (json_key ''ipcam'')) payload
                  in map_option (\<lambda>b. p + length (json_key ''ipcam'') + b + 1) (find_char (CHR 0x7B) s)) of
        None \<Rightarrow> (False, payload)
      | Some i \<Rightarrow>
          (case close_scan (CHR 0x7B) (CHR 0x7D) 1 False False (drop i payload) of
             None \<Rightarrow> (False, payload)
           | Some n \<Rightarrow>
               if key_scan (json_key ''file'') 1 False False (drop i payload) then (False, payload)
               else (True, take (i + n) payload @ kInject @ drop (i + n) payload)))"

definition try_patch_fun2_internal_storage :: "string \<Rightarrow> bool \<times> string" where
  "try_patch_fun2_internal_storage payload =
     (case cut_after (json_key ''fun2'') payload of
        None \<Rightarrow> (False, payload)
      | Some (hd_part, s) \<Rightarrow>
          (let sp = takeWhile is_blank s; r = dropWhile is_blank s
           in if r = [] \<or> hd r \<noteq> CHR 0x22 then (False, payload)
              else case find_char (CHR 0x22) (tl r) of
                     None \<Rightarrow> (False, payload)
                   | Some n \<Rightarrow>
                       (case (if n = 0 then None else stoull16 (take n (tl r))) of
                          None \<Rightarrow> (False, payload)
                        | Some bits \<Rightarrow>
                            if bit bits 17 then (False, payload)
                            else (True, hd_part @ sp @ [CHR 0x22] @ hex_digits (bits OR push_bit 17 1) @ drop n (tl r)))))"

section \<open>Fields read from the text\<close>

text \<open>The rest of a quoted text up to its end, escapes left as they are.\<close>

fun quoted_span :: "string \<Rightarrow> string option" where
  "quoted_span [] = None"
| "quoted_span (c # s) =
     (if c = CHR 0x22 then Some []
      else if c = CHR 0x5C \<and> s \<noteq> [] then map_option (\<lambda>t. c # hd s # t) (quoted_span (tl s))
      else map_option ((#) c) (quoted_span s))"

definition json_peek_string_field :: "string \<Rightarrow> string \<Rightarrow> string option" where
  "json_peek_string_field payload key =
     Option.bind (cut_after (json_key key) payload)
       (\<lambda>(_, s). let r = dropWhile is_blank s in if r = [] \<or> hd r \<noteq> CHR 0x22 then None else quoted_span (tl r))"

definition json_peek_int_field :: "string \<Rightarrow> string \<Rightarrow> int option" where
  "json_peek_int_field payload key =
     Option.bind (cut_after (json_key key) payload)
       (\<lambda>(_, s). let r = dropWhile is_blank s; neg = (r \<noteq> [] \<and> hd r = CHR ''-''); t = (if neg then tl r else r)
         in if r = [] then None
            else if hd r = CHR 0x22
            then Option.bind (json_peek_string_field payload key) (\<lambda>v. if v = [] then None else stoi v)
            else if t = [] \<or> \<not> is_digit (hd t) then None
            else stoi ((if neg then ''-'' else []) @ takeWhile is_digit t))"

text \<open>\<open>rfind\<close> of a text that is not empty.\<close>

definition str_rfind :: "string \<Rightarrow> string \<Rightarrow> nat option" where
  "str_rfind p s = map_option (\<lambda>i. length s - i - length p) (str_find (rev p) (rev s))"

text \<open>A number above 9999 gives 0, as no plate.\<close>

fun plate_digits :: "nat \<Rightarrow> string \<Rightarrow> nat" where
  "plate_digits n [] = n"
| "plate_digits n (c # s) =
     (if \<not> is_digit c then n
      else let m = n * 10 + digit_val c in if 9999 < m then 0 else plate_digits m s)"

definition plate_idx_from_path :: "string \<Rightarrow> nat" where
  "plate_idx_from_path path =
     (case str_rfind ''plate_'' path of
        None \<Rightarrow> 0
      | Some p \<Rightarrow> (let s = drop (p + length ''plate_'') path in if s = [] \<or> \<not> is_digit (hd s) then 0 else plate_digits 0 s))"

definition resolve_cover_plate_idx :: "string \<Rightarrow> int" where
  "resolve_cover_plate_idx payload =
     (let from = (\<lambda>key. case json_peek_string_field payload key of None \<Rightarrow> 0 | Some path \<Rightarrow> plate_idx_from_path path)
      in case json_peek_int_field payload ''plate_idx'' of
           Some n \<Rightarrow> if 0 < n then n else if 0 < from ''gcode_file'' then int (from ''gcode_file'')
                     else if 0 < from ''param'' then int (from ''param'') else 1
         | None \<Rightarrow> if 0 < from ''gcode_file'' then int (from ''gcode_file'')
                   else if 0 < from ''param'' then int (from ''param'') else 1)"

section \<open>The address of the printer\<close>

text \<open>
  \<open>sscanf\<close>'s \<open>%u\<close>: the number and the rest, \<open>Some None\<close> when there is no number; a number that
  does not fit is undefined.
\<close>

definition scan_u :: "string \<Rightarrow> (u32 \<times> string) option option" where
  "scan_u s = (case strto 10 s of
     None \<Rightarrow> Some None
   | Some (neg, v, rest) \<Rightarrow> if 2 ^ 32 \<le> v then None else Some (Some (if neg then - of_nat v else of_nat v, rest)))"

text \<open>The numbers that \<open>%u.%u.%u.%u\<close> reads, and what is left when there are four.\<close>

fun scan_dotted :: "nat \<Rightarrow> string \<Rightarrow> (u32 list \<times> string) option" where
  "scan_dotted 0 s = Some ([], s)"
| "scan_dotted (Suc n) s =
     (case scan_u s of
        None \<Rightarrow> None
      | Some None \<Rightarrow> Some ([], s)
      | Some (Some (v, r)) \<Rightarrow>
          if n = 0 then Some ([v], r)
          else if r \<noteq> [] \<and> hd r = CHR ''.'' then map_option (\<lambda>(vs, t). (v # vs, t)) (scan_dotted n (tl r))
          else Some ([v], r))"

lemma cut_after_shorter: "cut_after (json_key k) s = Some (h, r) \<Longrightarrow> length r < length s"
  by (auto simp: cut_after_def json_key_def dest!: str_find_Some)

text \<open>Replacing the number behind every \<open>"ip":\<close>.\<close>

function replace_ips :: "string \<Rightarrow> string \<Rightarrow> bool \<times> string" where
  "replace_ips ip s =
     (case cut_after (json_key ''ip'') s of
        None \<Rightarrow> (False, s)
      | Some (hd_part, r) \<Rightarrow>
          (let sp = takeWhile is_blank r; num = dropWhile is_blank r;
               neg = (num \<noteq> [] \<and> hd num = CHR ''-'');
               rest = dropWhile is_digit (if neg then tl num else num)
           in if length rest = length num
              then (let (touched, t) = replace_ips ip num in (touched, hd_part @ sp @ t))
              else (let (_, t) = replace_ips ip rest in (True, hd_part @ sp @ ip @ t))))"
  by pat_completeness auto
termination
proof (relation "measure (\<lambda>(ip, s). length s)", goal_cases)
  case (2 ip s x h r sp num neg rest)
  then show ?case using cut_after_shorter [of "''ip''" s h r] length_dropWhile_le [of is_blank r] by simp
next
  case (3 ip s x h r sp num neg rest)
  then have "length rest \<le> length num" using length_dropWhile_le [of is_digit "tl num"] length_dropWhile_le [of is_digit num] by auto
  with 3 show ?case using cut_after_shorter [of "''ip''" s h r] length_dropWhile_le [of is_blank r] by simp
qed simp

declare replace_ips.simps [simp del]

definition try_override_net_ip :: "string \<Rightarrow> string \<Rightarrow> (bool \<times> string) option" where
  "try_override_net_ip payload connect_ip =
     (if connect_ip = [] then Some (False, payload)
      else case scan_dotted 4 (c_str connect_ip) of
             None \<Rightarrow> None
           | Some (vs, _) \<Rightarrow>
               (if length vs \<noteq> 4 then Some (False, payload)
                else let ip_int = uint (vs ! 0) OR push_bit 8 (uint (vs ! 1)) OR push_bit 16 (uint (vs ! 2)) OR push_bit 24 (uint (vs ! 3))
                     in case str_find (json_key ''net'') payload of
                          None \<Rightarrow> Some (False, payload)
                        | Some p \<Rightarrow> (let (touched, s) = replace_ips (dec_int ip_int) (drop p payload)
                                     in Some (touched, take p payload @ s))))"

definition ipv4_from_le_int :: "int \<Rightarrow> string" where
  "ipv4_from_le_int v = dec_int (v AND 255) @ ''.'' @ dec_int (drop_bit 8 v AND 255) @ ''.'' @
     dec_int (drop_bit 16 v AND 255) @ ''.'' @ dec_int (drop_bit 24 v AND 255)"

section \<open>Synthetic ids\<close>

definition fnv1a_32 :: "string \<Rightarrow> u32" where
  "fnv1a_32 s = foldl (\<lambda>h c. (h XOR of_nat (code c)) * 16777619) 2166136261 s"

definition synthetic_subtask_id :: "string \<Rightarrow> string \<Rightarrow> string" where
  "synthetic_subtask_id subtask_name version =
     ''lan-'' @ hex8 (fnv1a_32 (if version = [] then subtask_name else subtask_name @ CHR 0x01 # version))"

text \<open>An empty or zero text behind a key becomes the value.\<close>

definition patch_string_zero_to :: "string \<Rightarrow> string \<Rightarrow> string \<Rightarrow> bool \<times> string" where
  "patch_string_zero_to key v payload =
     (case cut_after (json_key key) payload of
        None \<Rightarrow> (False, payload)
      | Some (hd_part, s) \<Rightarrow>
          (let sp = takeWhile is_blank s; r = dropWhile is_blank s; new = [CHR 0x22] @ v @ [CHR 0x22]
           in if starts_with [CHR 0x22, CHR 0x22] r then (True, hd_part @ sp @ new @ drop 2 r)
              else if starts_with [CHR 0x22, CHR ''0'', CHR 0x22] r then (True, hd_part @ sp @ new @ drop 3 r)
              else (False, payload)))"

definition print_ids :: "string \<Rightarrow> (string \<times> string) list" where
  "print_ids synth_id = [(''project_id'', ''lan''), (''profile_id'', ''lan''), (''task_id'', synth_id), (''subtask_id'', synth_id)]"

text \<open>The id is given when an id of the text was replaced.\<close>

definition try_rewrite_print_ids :: "string \<Rightarrow> string \<Rightarrow> string option \<times> string" where
  "try_rewrite_print_ids payload version =
     (case json_peek_string_field payload ''subtask_name'' of
        None \<Rightarrow> (None, payload)
      | Some nm \<Rightarrow>
          if nm = [] \<or> nm = ''-1'' then (None, payload)
          else let synth_id = synthetic_subtask_id nm version;
                   (touched, s) = foldl (\<lambda>(touched, s) (k, v). let (b, t) = patch_string_zero_to k v s in (touched \<or> b, t))
                                    (False, payload) (print_ids synth_id)
               in (if touched then Some synth_id else None, s))"

section \<open>Filtering health messages\<close>

definition matching_array_end :: "string \<Rightarrow> nat option" where
  "matching_array_end s =
     (case s of c # r \<Rightarrow> if c = CHR 0x5B then map_option Suc (close_scan (CHR 0x5B) (CHR 0x5D) 1 False False r) else None | [] \<Rightarrow> None)"

definition has_code :: "int \<Rightarrow> json \<Rightarrow> bool" where
  "has_code target_code item = (is_object item \<and> is_number (find_path item ''code'') \<and> as_int 0 (find_path item ''code'') = target_code)"

text \<open>Occurrences of the key that are not followed by a colon and an array are passed over.\<close>

function filter_hms :: "int \<Rightarrow> string \<Rightarrow> bool \<times> string" where
  "filter_hms target_code s =
     (let key = [CHR 0x22] @ ''hms'' @ [CHR 0x22]
      in case cut_after key s of
           None \<Rightarrow> (False, s)
         | Some (hd_part, r) \<Rightarrow>
             (let r1 = dropWhile is_ws r; r2 = dropWhile is_ws (tl r1)
              in if r1 = [] \<or> hd r1 \<noteq> CHR '':'' \<or> r2 = [] \<or> hd r2 \<noteq> CHR 0x5B
                 then (let (b, t) = filter_hms target_code r in (b, hd_part @ t))
                 else case matching_array_end r2 of
                        None \<Rightarrow> (False, s)
                      | Some n \<Rightarrow>
                          (case parse (take (n + 1) r2) of
                             None \<Rightarrow> (False, s)
                           | Some v \<Rightarrow>
                               if \<not> is_array v \<or> \<not> list_ex (has_code target_code) (as_array v) then (False, s)
                               else (True, take (length s - length r2) s @ dump (JArray (filter (\<lambda>i. \<not> has_code target_code i) (as_array v))) @
                                            drop (n + 1) r2))))"
  by pat_completeness auto
termination
  by (relation "measure (\<lambda>(target_code, s). length s)") (auto simp: cut_after_def dest!: str_find_Some)

declare filter_hms.simps [simp del]

definition try_filter_hms_code :: "string \<Rightarrow> int \<Rightarrow> bool \<times> string" where
  "try_filter_hms_code payload target_code = filter_hms target_code payload"

section \<open>The name of the model in print\<close>

definition frame_string_field :: "json \<Rightarrow> string \<Rightarrow> string" where
  "frame_string_field r key =
     (let v = find_path r key; w = (if is_string v then v else find_path r (''print.'' @ key))
      in if is_string w then as_string w else [])"

definition gcode_file_to_key :: "string \<Rightarrow> string" where
  "gcode_file_to_key gcode_file =
     (let base = (case rfind_first (\<lambda>c. c = CHR ''/'') gcode_file of None \<Rightarrow> gcode_file | Some p \<Rightarrow> drop (p + 1) gcode_file)
      in if ends_with base ''.gcode'' then take (length base - length ''.gcode'') base else base)"

definition cover_model_key :: "string \<Rightarrow> string" where
  "cover_model_key payload_json =
     (case parse payload_json of
        None \<Rightarrow> []
      | Some r \<Rightarrow>
          (let gcode_file = frame_string_field r ''gcode_file''
           in if gcode_file \<noteq> [] then gcode_file_to_key gcode_file else frame_string_field r ''subtask_name''))"

section \<open>A report on its way to the slicer\<close>

record patch_config =
  patch_mqtt_home_flag :: bool
  patch_mqtt_ipcam_file :: bool
  patch_mqtt_internal_storage :: bool
  override_lan_ip :: bool
  filter_mqtt_hms_65543 :: bool

definition capability_patches :: "patch_config \<Rightarrow> string \<Rightarrow> string \<Rightarrow> string option" where
  "capability_patches cfg connect_ip json =
     (let s1 = (if patch_mqtt_home_flag cfg then snd (try_rewrite_home_flag json) else json);
          s2 = (if patch_mqtt_ipcam_file cfg then snd (try_inject_ipcam_file_local s1) else s1);
          s3 = (if patch_mqtt_internal_storage cfg then snd (try_patch_fun2_internal_storage s2) else s2)
      in case (if override_lan_ip cfg then map_option snd (try_override_net_ip s3 connect_ip) else Some s3) of
           None \<Rightarrow> None
         | Some s4 \<Rightarrow> Some (if filter_mqtt_hms_65543 cfg then snd (try_filter_hms_code s4 65543) else s4))"

text \<open>The token of the print: its task id, or else the time it was started.\<close>

definition print_version :: "string \<Rightarrow> string" where
  "print_version s =
     (let v = (case json_peek_string_field s ''task_id'' of None \<Rightarrow> [] | Some t \<Rightarrow> t)
      in if v = [] \<or> v = ''0'' then (case json_peek_string_field s ''gcode_start_time'' of None \<Rightarrow> [] | Some t \<Rightarrow> t) else v)"

record subtask_cover =
  sc_subtask_name :: string
  sc_plate_idx :: int
  sc_version :: string

type_synonym subtasks = "(string \<times> subtask_cover) list"

text \<open>The table is ordered by id and keeps at most 16 entries; the first ones are erased.\<close>

definition remember_subtask :: "string \<Rightarrow> subtask_cover \<Rightarrow> subtasks \<Rightarrow> subtasks" where
  "remember_subtask cover_id sc m = (let m1 = map_assign cover_id sc m in drop (length m1 - 16) m1)"

text \<open>
  The text the slicer gets, the table, and the request for the picture: the name, the key under
  which the model is listed, the plate and the token.
\<close>

definition report_to_slicer ::
  "patch_config \<Rightarrow> string \<Rightarrow> string \<Rightarrow> subtasks \<Rightarrow> (string \<times> subtasks \<times> (string \<times> string \<times> int \<times> string) option) option" where
  "report_to_slicer cfg connect_ip json m =
     (case capability_patches cfg connect_ip json of
        None \<Rightarrow> None
      | Some s \<Rightarrow>
          (let version = print_version s; (synth, s1) = try_rewrite_print_ids s version;
               nm = (case json_peek_string_field s1 ''subtask_name'' of None \<Rightarrow> [] | Some t \<Rightarrow> t);
               plate = resolve_cover_plate_idx s1
           in case synth of
                Some cover_id \<Rightarrow>
                  if nm \<noteq> [] \<and> nm \<noteq> ''-1''
                  then Some (s1, remember_subtask cover_id \<lparr>sc_subtask_name = nm, sc_plate_idx = plate, sc_version = version\<rparr> m,
                             if connect_ip \<noteq> [] then Some (nm, cover_model_key s1, plate, version) else None)
                  else Some (s1, m, None)
              | None \<Rightarrow> Some (s1, m, None)))"

definition lookup_synthetic_subtask :: "subtasks \<Rightarrow> string \<Rightarrow> subtask_cover option" where
  "lookup_synthetic_subtask m subtask_id = map_of m subtask_id"

lemma inject_empty_object:
  "try_inject_ipcam_file_local ([CHR 0x7B] @ json_key ''ipcam'' @ [CHR 0x7B, CHR 0x7D, CHR 0x7D]) =
   (True, [CHR 0x7B] @ json_key ''ipcam'' @ [CHR 0x7B] @ kInject @ [CHR 0x7D, CHR 0x7D])"
  by code_simp

lemma inject_empty_object_no_json:
  "parse ([CHR 0x7B] @ json_key ''ipcam'' @ [CHR 0x7B] @ kInject @ [CHR 0x7D, CHR 0x7D]) = None"
  by code_simp

section \<open>Brackets of printed values\<close>

lemma hex_lower_plain: "n < 16 \<Longrightarrow> hex_lower_digit n \<noteq> CHR 0x22 \<and> hex_lower_digit n \<noteq> CHR 0x5C"
proof -
  assume "n < 16"
  then have "code (hex_lower_digit n) = (if n < 10 then 48 + n else 87 + n)" by (simp add: hex_lower_digit_def)
  then show ?thesis using \<open>n < 16\<close> by (auto simp: code_def split: if_splits)
qed

lemma shift_simps: "(+) (Suc n) = (\<lambda>x. Suc (n + x))" "(+) (0 :: nat) = (\<lambda>x. x)" "(+) (m + n :: nat) = (\<lambda>x. m + (n + x))"
  by auto

lemmas scan_simps = option.map_comp comp_def option.map_ident add.assoc shift_simps

lemma close_escape_char:
  "close_scan op cl d True False (escape_char c @ s) = map_option ((+) (length (escape_char c))) (close_scan op cl d True False s)"
proof -
  have "code c div 16 < 16" "code c mod 16 < 16" using code_lt [of c] by (simp_all add: less_mult_imp_div_less)
  then show ?thesis using hex_lower_plain by (simp add: escape_char_def scan_simps)
qed

lemma scan_string:
  "close_scan op cl d False False (escape t @ s) = map_option ((+) (length (escape t))) (close_scan op cl d False False s)"
proof -
  have "close_scan op cl d True False (concat (map escape_char t) @ CHR 0x22 # s) =
      map_option ((+) (Suc (length (concat (map escape_char t))))) (close_scan op cl d False False s)"
    by (induction t) (simp_all add: close_escape_char scan_simps)
  then show ?thesis by (simp add: escape_def scan_simps)
qed

lemma scan_plain:
  "\<forall>c \<in> set x. c \<noteq> CHR 0x22 \<and> c \<noteq> op \<and> c \<noteq> cl \<Longrightarrow>
   close_scan op cl d False False (x @ s) = map_option ((+) (length x)) (close_scan op cl d False False s)"
  by (induction x) (simp_all add: scan_simps)

definition skips :: "char \<Rightarrow> char \<Rightarrow> string \<Rightarrow> bool" where
  "skips op cl x = (\<forall>d s. 0 < d \<longrightarrow>
     close_scan op cl d False False (x @ s) = map_option ((+) (length x)) (close_scan op cl d False False s))"

lemma skips_append: "skips op cl x \<Longrightarrow> skips op cl y \<Longrightarrow> skips op cl (x @ y)"
  by (simp add: skips_def scan_simps)

lemma skips_Nil: "skips op cl []"
  by (simp add: skips_def scan_simps)

lemma skips_plain: "\<forall>c \<in> set x. c \<noteq> CHR 0x22 \<and> c \<noteq> op \<and> c \<noteq> cl \<Longrightarrow> skips op cl x"
  by (simp add: skips_def scan_plain)

lemma skips_escape: "skips op cl (escape t)"
  by (simp add: skips_def scan_string)

lemma skips_bracket: "skips op cl x \<Longrightarrow> op \<noteq> cl \<Longrightarrow> op \<noteq> CHR 0x22 \<Longrightarrow> cl \<noteq> CHR 0x22 \<Longrightarrow> skips op cl (op # x @ [cl])"
  by (simp add: skips_def scan_simps)

lemma skips_join: "\<forall>x \<in> set xs. skips op cl x \<Longrightarrow> op \<noteq> CHR '','' \<Longrightarrow> cl \<noteq> CHR '','' \<Longrightarrow> skips op cl (join_comma xs)"
proof (induction xs rule: join_comma.induct)
  case (3 x y xs)
  then have "skips op cl x" "skips op cl [CHR '','']" "skips op cl (join_comma (y # xs))" by (auto intro: skips_plain)
  then have "skips op cl (x @ [CHR '',''] @ join_comma (y # xs))" by (intro skips_append)
  then show ?case by simp
qed (simp_all add: skips_Nil)

text \<open>A printed value is passed over as a whole by the scan for either kind of bracket.\<close>

lemma skips_dump:
  assumes "op = CHR 0x5B \<and> cl = CHR 0x5D \<or> op = CHR 0x7B \<and> cl = CHR 0x7D"
  shows "int_exact v \<Longrightarrow> skips op cl (dump v)"
proof (induction v)
  case JNull
  then show ?case using assms by (intro skips_plain) auto
next
  case (JBool b)
  then show ?case using assms by (intro skips_plain) auto
next
  case (JNumber x)
  have "c \<noteq> CHR 0x22 \<and> c \<noteq> op \<and> c \<noteq> cl" if "c \<in> set (dec_int (trunc_int x))" for c
  proof -
    have "is_digit c \<or> c = CHR ''-''" using that dec_digits_all_digits by (auto simp: dec_int_def split: if_splits)
    moreover have "\<not> is_digit (CHR 0x22)" "\<not> is_digit (CHR 0x5B)" "\<not> is_digit (CHR 0x5D)" "\<not> is_digit (CHR 0x7B)" "\<not> is_digit (CHR 0x7D)"
      by (simp_all add: is_digit_def code_def)
    ultimately show ?thesis using assms by auto
  qed
  then show ?case using JNumber dump_number_exact by (auto intro: skips_plain)
next
  case (JString t)
  then show ?case by (simp add: skips_escape)
next
  case (JArray vs)
  then have j: "skips op cl (join_comma (map dump vs))" using assms by (intro skips_join) auto
  have "skips op cl ([CHR 0x5B] @ join_comma (map dump vs) @ [CHR 0x5D])"
  proof (cases "op = CHR 0x5B")
    case True
    then show ?thesis using j assms skips_bracket by auto
  next
    case False
    then have "skips op cl [CHR 0x5B]" "skips op cl [CHR 0x5D]" using assms by (auto intro: skips_plain)
    then show ?thesis using j by (intro skips_append)
  qed
  then show ?case by simp
next
  case (JObject ms)
  have "skips op cl (escape k @ [CHR '':''] @ dump v)" if "(k, v) \<in> set ms" for k v
  proof -
    have "skips op cl [CHR '':'']" using assms by (auto intro: skips_plain)
    moreover have "skips op cl (dump v)" using that JObject by (fastforce simp: snds.simps)
    ultimately show ?thesis using skips_escape by (intro skips_append)
  qed
  then have j: "skips op cl (join_comma (map (\<lambda>(k, v). escape k @ CHR '':'' # dump v) ms))"
    using assms by (intro skips_join) auto
  have "skips op cl ([CHR 0x7B] @ join_comma (map (\<lambda>(k, v). escape k @ CHR '':'' # dump v) ms) @ [CHR 0x7D])"
  proof (cases "op = CHR 0x7B")
    case True
    then show ?thesis using j assms skips_bracket by auto
  next
    case False
    then have "skips op cl [CHR 0x7B]" "skips op cl [CHR 0x7D]" using assms by (auto intro: skips_plain)
    then show ?thesis using j by (intro skips_append)
  qed
  then show ?case by simp
qed

section \<open>The filter of health messages\<close>

text \<open>A first occurrence stays the first when the text goes on.\<close>

lemma str_find_extend: "str_find p s = Some i \<Longrightarrow> str_find p (s @ t) = Some i"
proof (induction s arbitrary: i)
  case (Cons x xs)
  show ?case
  proof (cases "starts_with p (x # xs)")
    case True
    then obtain u where "x # xs = p @ u" unfolding starts_with_conv by blast
    then have "(x # xs) @ t = p @ u @ t" by simp
    then have "starts_with p ((x # xs) @ t)" unfolding starts_with_conv by blast
    then show ?thesis using True Cons.prems by simp
  next
    case False
    then obtain j where j: "str_find p xs = Some j" "i = Suc j" using Cons.prems by auto
    from str_find_Some [OF j(1)] have "length p \<le> length (x # xs)" by simp
    then have "take (length p) ((x # xs) @ t) = take (length p) (x # xs)" by (subst take_append) simp
    then have "\<not> starts_with p ((x # xs) @ t)" using False unfolding starts_with_take by simp
    then show ?thesis using j Cons.IH by simp
  qed
qed (cases t; auto split: if_splits)

lemma cut_after_first: "str_find key (pre @ key) = Some (length pre) \<Longrightarrow> cut_after key (pre @ key @ s) = Some (pre @ key, s)"
  using str_find_extend [of key "pre @ key" "length pre" s] by (simp add: cut_after_def)

lemma dropWhile_blanks: "\<forall>c \<in> set ws. P c \<Longrightarrow> s = [] \<or> \<not> P (hd s) \<Longrightarrow> dropWhile P (ws @ s) = s \<and> takeWhile P (ws @ s) = ws"
  by (cases s) (auto simp: dropWhile_append takeWhile_append)

lemma array_end_dump: "int_exact (JArray vs) \<Longrightarrow> matching_array_end (dump (JArray vs) @ s) = Some (length (dump (JArray vs)) - 1)"
proof -
  assume "int_exact (JArray vs)"
  then have "\<forall>x \<in> set (map dump vs). skips (CHR 0x5B) (CHR 0x5D) x" by (auto intro: skips_dump)
  then have "skips (CHR 0x5B) (CHR 0x5D) (join_comma (map dump vs))" by (rule skips_join) simp_all
  then show ?thesis by (simp add: matching_array_end_def skips_def)
qed

lemma filter_hms_array:
  assumes "cut_after (CHR 0x22 # ''hms'' @ [CHR 0x22]) s = Some (h, r)" "dropWhile is_ws r = CHR '':'' # r1" "dropWhile is_ws r1 = r2"
    and "r2 \<noteq> []" "hd r2 = CHR 0x5B" "matching_array_end r2 = Some n" "parse (take (n + 1) r2) = Some (JArray vs)"
  shows "filter_hms target_code s =
    (if list_ex (has_code target_code) vs
     then (True, take (length s - length r2) s @ dump (JArray (filter (\<lambda>v. \<not> has_code target_code v) vs)) @ drop (n + 1) r2)
     else (False, s))"
  using assms by (subst filter_hms.simps) (simp add: Let_def del: dump.simps dropWhile_eq_Nil_conv)

text \<open>A report with a list of health messages, \<open>ws1\<close> and \<open>ws2\<close> around its colon.\<close>

definition hms_report :: "string \<Rightarrow> string \<Rightarrow> string \<Rightarrow> string \<Rightarrow> json list \<Rightarrow> string" where
  "hms_report pre ws1 ws2 post items =
     pre @ (CHR 0x22 # ''hms'' @ [CHR 0x22]) @ ws1 @ [CHR '':''] @ ws2 @ dump (JArray items) @ post"

text \<open>
  C31. The filter of health messages removes exactly the messages with the code: in a report whose
  first \<open>hms\<close> key is followed by an array, as printed by the JSON writer and with any white space
  around the colon, the array becomes the one without the objects whose \<open>code\<close> is that number;
  everything else stays as it was, the whole text when there is no such object.
\<close>

theorem hms_codes_filtered:
  assumes "str_find (CHR 0x22 # ''hms'' @ [CHR 0x22]) (pre @ CHR 0x22 # ''hms'' @ [CHR 0x22]) = Some (length pre)"
    and "\<forall>c \<in> set ws1. is_ws c" "\<forall>c \<in> set ws2. is_ws c" "dumpable (JArray vs)"
  shows "try_filter_hms_code (hms_report pre ws1 ws2 post vs) target_code =
    (list_ex (has_code target_code) vs, hms_report pre ws1 ws2 post (filter (\<lambda>v. \<not> has_code target_code v) vs))"
proof -
  let ?key = "CHR 0x22 # ''hms'' @ [CHR 0x22]"
  let ?d = "dump (JArray vs)"
  let ?s = "hms_report pre ws1 ws2 post vs"
  have cut: "cut_after ?key ?s = Some (pre @ ?key, ws1 @ [CHR '':''] @ ws2 @ ?d @ post)"
    unfolding hms_report_def by (rule cut_after_first [OF assms(1)])
  have colon: "\<not> is_ws (CHR '':'')" by (simp add: is_ws_def)
  have w1: "dropWhile is_ws (ws1 @ [CHR '':''] @ ws2 @ ?d @ post) = CHR '':'' # ws2 @ ?d @ post"
    using dropWhile_blanks [OF assms(2), of "CHR '':'' # ws2 @ ?d @ post"] colon by (simp del: dump.simps)
  have w2: "dropWhile is_ws (ws2 @ ?d @ post) = ?d @ post"
    by (rule dropWhile_blanks [OF assms(3), THEN conjunct1]) (simp add: is_ws_def)
  have fin: "matching_array_end (?d @ post) = Some (length ?d - 1)" "length ?d - 1 + 1 = length ?d"
    using array_end_dump [of vs post] assms(4) by (simp_all add: dumpable_def)
  have par: "parse (take (length ?d - 1 + 1) (?d @ post)) = Some (JArray vs)"
    unfolding fin(2) using json.read_print [OF assms(4)] by simp
  have "?s = (pre @ ?key @ ws1 @ [CHR '':''] @ ws2) @ ?d @ post" unfolding hms_report_def by (simp only: append_assoc)
  then have pos: "take (length ?s - length (?d @ post)) ?s = pre @ ?key @ ws1 @ [CHR '':''] @ ws2"
    by (metis append_eq_conv_conj length_append add_diff_cancel_right')
  have "?d @ post \<noteq> []" "hd (?d @ post) = CHR 0x5B" by simp_all
  note step = filter_hms_array [OF cut w1 w2 this fin(1) par, of target_code, unfolded pos fin(2)]
  moreover have "filter (\<lambda>v. \<not> has_code target_code v) vs = vs" if "\<not> list_ex (has_code target_code) vs"
    using that by (simp add: list_ex_iff filter_id_conv)
  moreover have "drop (length ?d) (?d @ post) = post" by (simp del: dump.simps)
  ultimately show ?thesis unfolding try_filter_hms_code_def step
    by (cases "list_ex (has_code target_code) vs") (simp_all add: hms_report_def del: dump.simps)
qed

theorem hms_codes_filtered_witness:
  "try_filter_hms_code (hms_report ''a'' '' '' [] ''b'' [JObject [(''code'', JNumber 7)], JObject [(''code'', JNumber 65543)], JNull]) 65543 =
   (True, hms_report ''a'' '' '' [] ''b'' [JObject [(''code'', JNumber 7)], JNull])"
proof -
  let ?vs = "[JObject [(''code'', JNumber 7)], JObject [(''code'', JNumber 65543)], JNull]"
  have "list_ex (has_code 65543) ?vs" "filter (\<lambda>v. \<not> has_code 65543 v) ?vs = [JObject [(''code'', JNumber 7)], JNull]"
    by (simp_all add: has_code_def find_path_key path_sep_def trunc_int_def)
  moreover have "dumpable (JArray ?vs)" by (simp add: dumpable_def kMaxNestingDepth_def trunc_int_def)
  ultimately show ?thesis using hms_codes_filtered [of "''a''" "'' ''" "[]" ?vs "''b''" 65543] by (simp add: is_ws_def)
qed

lemma digit_in_10: "digit_in 10 c = is_digit c"
  by (auto simp: digit_in_def hex_val_def is_digit_def)

lemma digits_val_10: "\<forall>c \<in> set s. is_digit c \<Longrightarrow> digits_val 10 s = dec_val s"
  unfolding digits_val_def dec_val_def
  by (rule foldl_cong) (auto simp: hex_val_def is_digit_def digit_val_def)

lemma strto_dec_digits:
  assumes "r = [] \<or> \<not> is_digit (hd r)"
  shows "strto 10 (dec_digits n @ r) = Some (False, n, r)"
proof -
  obtain c cs where c: "dec_digits n = c # cs" by (cases "dec_digits n") simp_all
  have d: "is_digit c" using hd_dec_digits_is_digit [of n] c by simp
  have "takeWhile is_digit (dec_digits n @ r) = dec_digits n" "dropWhile is_digit (dec_digits n @ r) = r"
    using assms by (cases r; auto)+
  moreover have "digits_val 10 (c # cs) = n"
    using digits_val_10 [of "dec_digits n"] dec_digits_all_digits dec_val_dec_digits [of n] by (metis c)
  ultimately show ?thesis using c d digit_not_space [OF d] digit_not_sign [OF d]
    by (simp add: strto_def digit_in_10 [abs_def] Let_def)
qed

lemma stoll_dec_digits: "n < 2 ^ 63 \<Longrightarrow> stoll (dec_digits n) = Some (int n)"
proof -
  assume n: "n < 2 ^ 63"
  have "\<not> is_digit (CHR 0x00)" by (simp add: is_digit_def code_def)
  then have "c_str (dec_digits n) = dec_digits n" using dec_digits_all_digits by (auto simp: c_str_def takeWhile_eq_all_conv)
  then show ?thesis using strto_dec_digits [of "[]" n] n by (simp add: stoll_def)
qed

text \<open>
  The printer's storage bits are reported as a normal card exactly when they say that there is
  none: in a report whose first \<open>home_flag\<close> is an integer, the number gets bit 8 when bits 8 and 9
  are clear and stays otherwise, and nothing else changes; patching again changes nothing.
\<close>

lemma home_flag_patched:
  assumes "str_find (json_key ''home_flag'') (pre @ json_key ''home_flag'') = Some (length pre)"
    and "- (2 ^ 63) < flag" "flag < 2 ^ 63" "post = [] \<or> \<not> is_digit (hd post)"
  shows "let report = (\<lambda>i. pre @ json_key ''home_flag'' @ replicate n (CHR '' '') @ dec_int i @ post);
      patched = (if drop_bit 8 flag AND 3 = 0 then flag OR 256 else flag)
    in try_rewrite_home_flag (report flag) = (drop_bit 8 flag AND 3 = 0, report patched) \<and>
       try_rewrite_home_flag (report patched) = (False, report patched)"
proof -
  define report where "report i = pre @ json_key ''home_flag'' @ replicate n (CHR '' '') @ dec_int i @ post" for i
  have one: "try_rewrite_home_flag (report i) =
      (if drop_bit 8 i AND 3 = 0 then (True, report (i OR 256)) else (False, report i))"
    if i: "- (2 ^ 63) < i" "i < 2 ^ 63" for i
  proof -
    have cut: "cut_after (json_key ''home_flag'') (report i) =
        Some (pre @ json_key ''home_flag'', replicate n (CHR '' '') @ dec_int i @ post)"
      unfolding report_def by (rule cut_after_first [OF assms(1)])
    obtain c cs where c: "dec_int i = c # cs" "c = CHR ''-'' \<or> is_digit c" using dec_int_head [of i] by blast
    moreover have "\<not> is_digit (CHR '' '')" by (simp add: is_digit_def code_def)
    ultimately have "c \<noteq> CHR '' ''" by auto
    note c = c(1) this
    have sp: "takeWhile is_blank (replicate n (CHR '' '') @ dec_int i @ post) = replicate n (CHR '' '')"
        "dropWhile is_blank (replicate n (CHR '' '') @ dec_int i @ post) = dec_int i @ post"
      using dropWhile_blanks [of "replicate n (CHR '' '')" is_blank "dec_int i @ post"] c by auto
    have neg: "(dec_int i @ post \<noteq> [] \<and> hd (dec_int i @ post) = CHR ''-'') = (i < 0)"
      using hd_dec_digits_is_digit [of "nat i"] digit_not_sign by (auto simp: dec_int_def hd_append)
    have mag: "(if i < 0 then tl (dec_int i @ post) else dec_int i @ post) = dec_digits (nat \<bar>i\<bar>) @ post"
      by (simp add: dec_int_def)
    have ds: "takeWhile is_digit (dec_digits (nat \<bar>i\<bar>) @ post) = dec_digits (nat \<bar>i\<bar>)"
        "dropWhile is_digit (dec_digits (nat \<bar>i\<bar>) @ post) = post"
      using assms(4) by (cases post; auto)+
    have st: "stoll (dec_digits (nat \<bar>i\<bar>)) = Some \<bar>i\<bar>" using stoll_dec_digits [of "nat \<bar>i\<bar>"] i by simp
    show ?thesis
      unfolding try_rewrite_home_flag_def cut option.case prod.case Let_def sp neg mag ds st
      using i by (auto simp: report_def push_bit_eq_mult)
  qed
  have "bit (drop_bit 8 (flag OR 256) AND 3) 0" by (simp add: bit_and_iff bit_drop_bit_eq bit_or_iff)
  then have "drop_bit 8 (flag OR 256) AND 3 \<noteq> 0" by (metis bit_0_eq bot_apply bot_bool_def)
  moreover have "- (2 ^ 63) < flag OR 256" using assms(2) or_greater_eq [of 256 flag] by simp
  moreover have "flag OR 256 < 2 ^ 63"
  proof (cases "0 \<le> flag")
    case True
    then show ?thesis using OR_upper [of flag 63 256] assms(3) by simp
  next
    case False
    then have "flag OR 256 < 0" by (simp add: or_negative_int_iff)
    also have "(0 :: int) < 2 ^ 63" by simp
    finally show ?thesis .
  qed
  ultimately show ?thesis using one [OF assms(2,3)] one [of "flag OR 256"] assms(2,3)
    unfolding report_def [symmetric] Let_def by auto
qed

text \<open>What an ordered map tells of a key after its first entry is erased.\<close>

lemma map_of_without_first:
  fixes k :: "'k::linorder"
  assumes "sorted_wrt (<) (map fst ((k, v) # r))" "fst ` set ((k, v) # r) = insert c A" "c \<notin> A"
    and "map_of ((k, v) # r) c = Some x"
  shows "map_of r c = (if \<forall>k \<in> A. c < k then None else Some x)"
proof -
  have less: "\<forall>k' \<in> fst ` set r. k < k'" using assms(1) by auto
  have kr: "insert k (fst ` set r) = insert c A" using assms(2) by simp
  have "k = c \<longleftrightarrow> (\<forall>k \<in> A. c < k)"
  proof
    assume "k = c"
    have "y \<in> fst ` set r" if "y \<in> A" for y
      using kr that assms(3) \<open>k = c\<close> by (metis insertE insertI2)
    then show "\<forall>k \<in> A. c < k" using less \<open>k = c\<close> by (metis bspec)
  next
    assume a: "\<forall>k \<in> A. c < k"
    show "k = c"
    proof (rule ccontr)
      assume ne: "k \<noteq> c"
      from kr ne have in_r: "c \<in> fst ` set r" by (metis insertE insertI1)
      from kr ne have in_A: "k \<in> A" by (metis insertE insertI1)
      show False using less_trans [OF less [THEN bspec, OF in_r] a [THEN bspec, OF in_A]] by simp
    qed
  qed
  moreover have "map_of r c = (if k = c then None else Some x)"
  proof (cases "k = c")
    case True
    have "c \<notin> fst ` set r" unfolding True [symmetric] using less by (metis bspec less_irrefl)
    then show ?thesis using True by (simp add: map_of_eq_None_iff)
  next
    case False
    then show ?thesis using assms(4) by simp
  qed
  ultimately show ?thesis by argo
qed

text \<open>
  C32. The table of synthetic ids keeps at most 16 prints, but not the latest ones: an id that has
  just been entered is looked up again unless the table was full and the id, a hash, comes before
  all others; then the print that is running is the one that is erased. The table stays in order.
\<close>

theorem synthetic_subtask_kept:
  assumes "sorted_wrt (<) (map fst m)" "length m \<le> 16"
  shows "lookup_synthetic_subtask (remember_subtask cover_id sc m) cover_id =
      (if length m = 16 \<and> (\<forall>k \<in> fst ` set m. cover_id < k) then None else Some sc) \<and>
    length (remember_subtask cover_id sc m) \<le> 16 \<and> sorted_wrt (<) (map fst (remember_subtask cover_id sc m))"
proof -
  let ?m = "map_assign cover_id sc m"
  have s: "sorted_wrt (<) (map fst ?m)" using assms(1) by (simp add: map_assign_sorted)
  have keys: "fst ` set ?m = insert cover_id (fst ` set m)" by (rule map_assign_keys)
  have dist: "distinct (map fst x)" if "sorted_wrt (<) (map fst x)" for x :: subtasks
    using that by (simp add: strict_sorted_iff)
  have card: "card (fst ` set x) = length x" if "sorted_wrt (<) (map fst x)" for x :: subtasks
    using distinct_card [OF dist [OF that]] by simp
  have len: "length ?m = (if cover_id \<in> fst ` set m then length m else length m + 1)"
    using card [OF s] card [OF assms(1)] unfolding keys by (simp add: card_insert_if split: if_splits)
  have here: "map_of ?m cover_id = Some sc" using assms(1) by (simp add: map_of_map_assign)
  have drop: "sorted_wrt (<) (map fst (drop n ?m))" for n
    using s sorted_wrt_drop [of "(<)" "map fst ?m" n] by (simp add: drop_map)
  show ?thesis
  proof (cases "length ?m \<le> 16")
    case True
    then have "\<not> (length m = 16 \<and> (\<forall>k \<in> fst ` set m. cover_id < k))" using len by (auto split: if_splits)
    then show ?thesis using True here s by (auto simp: remember_subtask_def lookup_synthetic_subtask_def)
  next
    case False
    then have full: "length m = 16" "cover_id \<notin> fst ` set m" "length ?m = 17" using len assms(2) by (auto split: if_splits)
    obtain k v r where r: "?m = (k, v) # r" using full(3) by (cases ?m) auto
    have rem: "remember_subtask cover_id sc m = r" using full(3) r by (simp add: remember_subtask_def)
    have "map_of r cover_id = (if \<forall>k \<in> fst ` set m. cover_id < k then None else Some sc)"
      by (rule map_of_without_first [of k v r]) (use s keys here full(2) r in simp_all)
    then have "lookup_synthetic_subtask r cover_id = (if length m = 16 \<and> (\<forall>k \<in> fst ` set m. cover_id < k) then None else Some sc)"
      using full(1) unfolding lookup_synthetic_subtask_def by argo
    moreover have "sorted_wrt (<) (map fst r)" "length r = 16" using drop [of 1] full(3) r by simp_all
    ultimately show ?thesis unfolding rem by simp
  qed
qed

definition demo_subtask :: subtask_cover where
  "demo_subtask = \<lparr>sc_subtask_name = ''n'', sc_plate_idx = 1, sc_version = []\<rparr>"

theorem synthetic_subtask_kept_witness:
  "lookup_synthetic_subtask (remember_subtask ''lan-00'' demo_subtask (map (\<lambda>i. (''lan-'' @ [digit_char i, CHR ''1''], demo_subtask)) [0..<10]
     @ map (\<lambda>i. (''lan-'' @ [CHR ''a'', digit_char i], demo_subtask)) [0..<6])) ''lan-00'' = None"
proof -
  let ?m = "map (\<lambda>i. (''lan-'' @ [digit_char i, CHR ''1''], demo_subtask)) [0..<10] @ map (\<lambda>i. (''lan-'' @ [CHR ''a'', digit_char i], demo_subtask)) [0..<6]"
  have "sorted_wrt (<) (map fst ?m)" by code_simp
  moreover have "length ?m = 16 \<and> (\<forall>k \<in> fst ` set ?m. ''lan-00'' < k)" by code_simp
  ultimately show ?thesis using synthetic_subtask_kept [of ?m "''lan-00''" demo_subtask] by simp
qed

end
