(* ===== verification/Firmware_Cache.thy ===== *)
theory Firmware_Cache
  imports Json_Lite
begin

text \<open>
  Model of the firmware bookkeeping of \<open>src/agent.cpp\<close> (\<open>ModuleFw\<close>, \<open>DeviceFw\<close>,
  \<open>parse_module_into\<close>, \<open>update_fw_state\<close>, \<open>version_compare\<close>, \<open>render_firmware_json\<close>): every
  status report is searched for module versions, and the report for the slicer is rendered from
  what was found. \<open>std::map\<close>s are association lists in the order of the keys.
\<close>

section \<open>State\<close>

record module_fw =
  fw_name :: string
  cur_ver :: string
  new_ver :: string
  product_name :: string
  fw_sn :: string

type_synonym device_fw = "(string \<times> module_fw) list"

definition new_module :: module_fw where
  "new_module = \<lparr>fw_name = [], cur_ver = [], new_ver = [], product_name = [], fw_sn = []\<rparr>"

definition if_given :: "string \<Rightarrow> string \<Rightarrow> string" where
  "if_given s old = (if s \<noteq> [] then s else old)"

definition parse_module_into :: "device_fw \<Rightarrow> json \<Rightarrow> device_fw" where
  "parse_module_into dev item =
     (let name = as_string (find_path item ''name'')
      in if \<not> is_object item \<or> name = [] then dev
         else let m0 = (case map_of dev name of None \<Rightarrow> new_module | Some m \<Rightarrow> m)\<lparr>fw_name := name\<rparr>;
                  m1 = m0\<lparr>cur_ver := if_given (as_string (find_path item ''sw_ver'')) (cur_ver m0)\<rparr>;
                  m2 = m1\<lparr>new_ver := if_given (as_string (find_path item ''sw_new_ver'')) (new_ver m1)\<rparr>;
                  alt_nv = as_string (find_path item ''new_ver'');
                  m3 = (if alt_nv \<noteq> [] \<and> new_ver m2 = [] then m2\<lparr>new_ver := alt_nv\<rparr> else m2);
                  alt_cur = as_string (find_path item ''cur_ver'');
                  m4 = (if alt_cur \<noteq> [] \<and> cur_ver m3 = [] then m3\<lparr>cur_ver := alt_cur\<rparr> else m3);
                  m5 = m4\<lparr>product_name := if_given (as_string (find_path item ''product_name'')) (product_name m4)\<rparr>
              in map_assign name (m5\<lparr>fw_sn := if_given (as_string (find_path item ''sn'')) (fw_sn m5)\<rparr>) dev)"

definition update_fw_state :: "device_fw \<Rightarrow> string \<Rightarrow> device_fw" where
  "update_fw_state dev payload =
     (if str_find ''sw_ver'' payload = None \<and> str_find ''new_ver_list'' payload = None then dev
      else case parse payload of
        None \<Rightarrow> dev
      | Some v \<Rightarrow>
          let dev1 = (if as_string (find_path v ''info.command'') = ''get_version''
                      then foldl parse_module_into dev (as_array (find_path v ''info.module'')) else dev)
          in foldl parse_module_into dev1 (as_array (find_path v ''print.upgrade_state.new_ver_list'')))"

text \<open>\<open>device_fw_[dev_id]\<close>, which enters an empty state for a new device, and its update.\<close>

definition harvest_firmware :: "(string \<times> device_fw) list \<Rightarrow> string \<Rightarrow> string \<Rightarrow> (string \<times> device_fw) list" where
  "harvest_firmware st dev_id patched =
     map_assign dev_id (update_fw_state (case map_of st dev_id of None \<Rightarrow> [] | Some d \<Rightarrow> d) patched) st"

definition has_firmware_data :: "(string \<times> device_fw) list \<Rightarrow> string \<Rightarrow> bool" where
  "has_firmware_data st dev_id = (case map_of st dev_id of None \<Rightarrow> False | Some d \<Rightarrow> d \<noteq> [])"

section \<open>Versions\<close>

text \<open>
  The scan of a version, with the numbers found so far. \<open>None\<close>: the scan does not end, as at a
  character that is neither a digit nor a dot, where no step is made and a 0 is entered, or an
  \<open>int\<close> overflows.
\<close>

partial_function (option) version_parts :: "int list \<Rightarrow> string \<Rightarrow> int list option" where
  [code]: "version_parts out s =
     (case s of
        [] \<Rightarrow> Some out
      | c # cs \<Rightarrow>
          if c = CHR ''.'' then version_parts out cs
          else let n = dec_val (takeWhile is_digit s)
               in if 2 ^ 31 \<le> n then None else version_parts (out @ [int n]) (dropWhile is_digit s))"

definition part_at :: "int list \<Rightarrow> nat \<Rightarrow> int" where
  "part_at p i = (if i < length p then p ! i else 0)"

definition version_compare :: "string \<Rightarrow> string \<Rightarrow> int option" where
  "version_compare a b =
     (if a = b \<or> a = [] \<or> b = [] then Some 0
      else case (version_parts [] a, version_parts [] b) of
        (Some pa, Some pb) \<Rightarrow>
          Some (case find (\<lambda>i. part_at pa i \<noteq> part_at pb i) [0..<max (length pa) (length pb)] of
             None \<Rightarrow> 0
           | Some i \<Rightarrow> if part_at pa i < part_at pb i then - 1 else 1)
      | _ \<Rightarrow> None)"

section \<open>The report\<close>

definition dq :: "string \<Rightarrow> string" where
  "dq s = CHR 0x22 # s @ [CHR 0x22]"

text \<open>The text written so far, and whether no entry was written yet.\<close>

definition emit_fw_entry :: "string \<times> bool \<Rightarrow> string \<Rightarrow> string \<Rightarrow> string \<times> bool" where
  "emit_fw_entry dst version description =
     ((if snd dst then fst dst else fst dst @ '','')
        @ ''{'' @ dq ''version'' @ '':'' @ escape version
        @ '','' @ dq ''url'' @ '':'' @ dq [] @ '','' @ dq ''description'' @ '':'' @ escape description @ ''}'', False)"

definition product_slug :: "string \<Rightarrow> string" where
  "product_slug product =
     (let has = (\<lambda>s. str_find s product \<noteq> None)
      in if has ''X1'' then ''x1'' else if has ''P2'' then ''p1'' else if has ''P1'' then ''p1''
         else if has ''A1'' then ''a1'' else if has ''H2'' then ''h2d'' else if has ''N7'' then ''n7''
         else ''all'')"

definition notes_url :: "string \<Rightarrow> string" where
  "notes_url product = ''https://bambulab.com/en/support/firmware-download/'' @ product_slug product"

definition installed_text :: "string \<Rightarrow> string" where
  "installed_text url = ''Currently installed firmware. Full changelog at '' @ url @ ''.''"

definition available_text :: "string \<Rightarrow> string \<Rightarrow> string" where
  "available_text ver url =
     ''New firmware version '' @ ver @ '' is available.'' @ [CHR 0x0A, CHR 0x0A] @ ''Release notes: '' @ url
       @ [CHR 0x0A, CHR 0x0A] @ ''Click '' @ [CHR 0x27] @ ''Update'' @ [CHR 0x27] @ '' to install; the printer already ''
       @ ''knows which package to download. Do not turn off '' @ ''the printer during the update (~10 minutes).''"

definition ams_text :: "string \<Rightarrow> string" where
  "ams_text url = ''AMS firmware. Release notes: '' @ url"

definition is_ams :: "string \<Rightarrow> bool" where
  "is_ams key = (key = ''ams'' \<or> starts_with ''ams/'' key)"

text \<open>
  \<open>None\<close> when the comparison of versions does not return. A device that is not known has no
  modules.
\<close>

definition render_firmware_json :: "(string \<times> device_fw) list \<Rightarrow> string \<Rightarrow> string option" where
  "render_firmware_json st dev_id =
     (let snap = (case map_of st dev_id of None \<Rightarrow> [] | Some d \<Rightarrow> d);
          url = notes_url (case map_of snap ''ota'' of None \<Rightarrow> [] | Some m \<Rightarrow> product_name m);
          body = ''{'' @ dq ''devices'' @ '':[{'' @ dq ''dev_id'' @ '':'' @ escape dev_id @ '','' @ dq ''firmware'' @ '':['';
          ota = (case map_of snap ''ota'' of
             None \<Rightarrow> Some (body, True)
           | Some m \<Rightarrow>
               let d = (if cur_ver m \<noteq> [] then emit_fw_entry (body, True) (cur_ver m) (installed_text url) else (body, True))
               in if new_ver m = [] then Some d
                  else (case version_compare (new_ver m) (cur_ver m) of
                     None \<Rightarrow> None
                   | Some c \<Rightarrow> Some (if 0 < c then emit_fw_entry d (new_ver m) (available_text (new_ver m) url) else d)))
      in case ota of
           None \<Rightarrow> None
         | Some (body1, _) \<Rightarrow>
             let ams_fw = fst (foldl (\<lambda>d (key, m).
                     if \<not> is_ams key then d
                     else let advertised = (if new_ver m \<noteq> [] then new_ver m else cur_ver m)
                          in if advertised = [] then d else emit_fw_entry d advertised (ams_text url)) ([], True) snap)
             in Some (body1 @ ''],'' @ dq ''ams'' @ '':['' @
                  (if ams_fw \<noteq> [] then ''{'' @ dq ''firmware'' @ '':['' @ ams_fw @ '']}'' else []) @ '']}]}''))"

section \<open>Comparing versions\<close>

fun split_dots :: "string \<Rightarrow> string list" where
  "split_dots [] = [[]]"
| "split_dots (c # cs) =
     (if c = CHR ''.'' then [] # split_dots cs else (c # hd (split_dots cs)) # tl (split_dots cs))"

text \<open>Dotted numbers that fit an \<open>int\<close>; empty segments do not count.\<close>

definition version_numbers :: "string \<Rightarrow> int list" where
  "version_numbers s = map (\<lambda>t. int (dec_val t)) (filter (\<lambda>t. t \<noteq> []) (split_dots s))"

definition is_version :: "string \<Rightarrow> bool" where
  "is_version s = (\<forall>t \<in> set (split_dots s). (\<forall>c \<in> set t. is_digit c) \<and> dec_val t < 2 ^ 31)"

lemma split_dots_nonempty [simp]: "split_dots s \<noteq> []"
  by (cases s) auto

lemma split_dots_append:
  "CHR ''.'' \<notin> set t \<Longrightarrow> split_dots (t @ u) = (t @ hd (split_dots u)) # tl (split_dots u)"
  by (induction t) auto

lemma digit_not_dot: "is_digit c \<Longrightarrow> c \<noteq> CHR ''.''"
  by (auto simp: is_digit_def code_def)

lemma no_dot_in_digits: "CHR ''.'' \<notin> set (takeWhile is_digit s)"
  using set_takeWhileD digit_not_dot by fastforce

lemma split_number:
  assumes "dropWhile is_digit s = [] \<or> hd (dropWhile is_digit s) = CHR ''.''"
  shows "split_dots s = takeWhile is_digit s # tl (split_dots (dropWhile is_digit s))"
    "hd (split_dots (dropWhile is_digit s)) = []"
proof -
  show h: "hd (split_dots (dropWhile is_digit s)) = []" using assms by (cases "dropWhile is_digit s") (auto simp del: dropWhile_eq_Nil_conv)
  show "split_dots s = takeWhile is_digit s # tl (split_dots (dropWhile is_digit s))"
    using split_dots_append [OF no_dot_in_digits, of s "dropWhile is_digit s"] h by simp
qed

text \<open>Behind the digits of a version there is a dot or nothing.\<close>

lemma version_after_digits:
  assumes "\<forall>t \<in> set (split_dots s). \<forall>c \<in> set t. is_digit c"
  shows "dropWhile is_digit s = [] \<or> hd (dropWhile is_digit s) = CHR ''.''"
proof (rule ccontr)
  assume a: "\<not> ?thesis"
  then obtain c u where c: "dropWhile is_digit s = c # u" "c \<noteq> CHR ''.''" by (cases "dropWhile is_digit s") auto
  then have "\<not> is_digit c" by (simp add: dropWhile_eq_Cons_conv)
  moreover have "(takeWhile is_digit s @ c # hd (split_dots u)) \<in> set (split_dots s)"
    using split_dots_append [OF no_dot_in_digits, of s "c # u"] c takeWhile_dropWhile_id [of is_digit s] by simp
  ultimately show False using assms by fastforce
qed

lemma version_numbers_digits:
  assumes "dropWhile is_digit s = [] \<or> hd (dropWhile is_digit s) = CHR ''.''" "takeWhile is_digit s \<noteq> []"
  shows "version_numbers s = int (dec_val (takeWhile is_digit s)) # version_numbers (dropWhile is_digit s)"
proof -
  have e: "split_dots (dropWhile is_digit s) = [] # tl (split_dots (dropWhile is_digit s))"
    using split_number(2) [OF assms(1)] by (metis list.collapse split_dots_nonempty)
  have r: "version_numbers (dropWhile is_digit s) =
      map (\<lambda>t. int (dec_val t)) (filter (\<lambda>t. t \<noteq> []) (tl (split_dots (dropWhile is_digit s))))"
    unfolding version_numbers_def by (subst e) simp
  have "version_numbers s = map (\<lambda>t. int (dec_val t)) (filter (\<lambda>t. t \<noteq> [])
      (takeWhile is_digit s # tl (split_dots (dropWhile is_digit s))))"
    unfolding version_numbers_def by (subst split_number(1) [OF assms(1)]) (rule refl)
  then show ?thesis using assms(2) by (simp add: r)
qed

lemma is_version_digits:
  assumes "dropWhile is_digit s = [] \<or> hd (dropWhile is_digit s) = CHR ''.''"
  shows "is_version s \<longleftrightarrow> dec_val (takeWhile is_digit s) < 2 ^ 31 \<and> is_version (dropWhile is_digit s)"
proof -
  have e: "split_dots (dropWhile is_digit s) = [] # tl (split_dots (dropWhile is_digit s))"
    using split_number(2) [OF assms] by (metis list.collapse split_dots_nonempty)
  have "\<forall>c \<in> set (takeWhile is_digit s). is_digit c" by (auto dest: set_takeWhileD)
  moreover have "is_version (dropWhile is_digit s) \<longleftrightarrow>
      (\<forall>t \<in> set (tl (split_dots (dropWhile is_digit s))). (\<forall>c \<in> set t. is_digit c) \<and> dec_val t < 2 ^ 31)"
    unfolding is_version_def by (subst e) (simp add: dec_val_def)
  ultimately show ?thesis unfolding is_version_def by (subst split_number(1) [OF assms]) simp
qed

lemma version_dot:
  "is_version (CHR ''.'' # s) = is_version s" "version_numbers (CHR ''.'' # s) = version_numbers s"
  by (simp_all add: is_version_def version_numbers_def dec_val_def)

lemma version_parts_scans: "is_version s \<Longrightarrow> version_parts out s = Some (out @ version_numbers s)"
proof (induction "length s" arbitrary: s out rule: less_induct)
  case less
  show ?case
  proof (cases s)
    case Nil
    then show ?thesis by (simp add: version_parts.simps version_numbers_def)
  next
    case (Cons c cs)
    show ?thesis
    proof (cases "c = CHR ''.''")
      case True
      have "version_parts out cs = Some (out @ version_numbers cs)"
        using less.hyps [of cs] less.prems Cons True version_dot by simp
      then show ?thesis using Cons True version_dot by (subst version_parts.simps) simp
    next
      case False
      have a: "dropWhile is_digit s = [] \<or> hd (dropWhile is_digit s) = CHR ''.''"
        using less.prems by (intro version_after_digits) (simp add: is_version_def)
      then have d: "is_digit c" using Cons False by (cases "is_digit c") auto
      have v: "\<not> 2 ^ 31 \<le> dec_val (takeWhile is_digit s)" "is_version (dropWhile is_digit s)"
        using is_version_digits [OF a] less.prems by (simp_all add: not_le)
      have "length (dropWhile is_digit s) < length s" using Cons d by (simp add: le_imp_less_Suc length_dropWhile_le)
      then have "version_parts (out @ [int (dec_val (takeWhile is_digit s))]) (dropWhile is_digit s)
          = Some ((out @ [int (dec_val (takeWhile is_digit s))]) @ version_numbers (dropWhile is_digit s))"
        using less.hyps v(2) by blast
      moreover have "version_numbers s = int (dec_val (takeWhile is_digit s)) # version_numbers (dropWhile is_digit s)"
        using Cons d by (intro version_numbers_digits [OF a]) simp
      ultimately show ?thesis using v(1) unfolding version_parts.simps [of out s]
        by (simp only: Cons list.case False if_False Let_def) simp
    qed
  qed
qed

text \<open>A scan that returns has met nothing but digits and dots: at any other character it repeats.\<close>

lemma version_parts_returns: "version_parts out s = Some r \<Longrightarrow> is_version s"
proof (rule version_parts.raw_induct [where P = "\<lambda>out s r. is_version s"])
  fix rec :: "int list \<Rightarrow> string \<Rightarrow> int list option" and out s r
  assume IH: "\<And>out s r. rec out s = Some r \<Longrightarrow> is_version s"
  assume step: "(case s of [] \<Rightarrow> Some out
      | c # cs \<Rightarrow> if c = CHR ''.'' then rec out cs
          else let n = dec_val (takeWhile is_digit s)
               in if 2 ^ 31 \<le> n then None else rec (out @ [int n]) (dropWhile is_digit s)) = Some r"
  show "is_version s"
  proof (cases s)
    case Nil
    then show ?thesis by (simp add: is_version_def dec_val_def)
  next
    case (Cons c cs)
    show ?thesis
    proof (cases "c = CHR ''.''")
      case True
      then show ?thesis using step IH Cons version_dot by auto
    next
      case False
      then have *: "dec_val (takeWhile is_digit s) < 2 ^ 31" "is_version (dropWhile is_digit s)"
        using step IH [of _ "dropWhile is_digit s"] unfolding Cons by (auto simp: Let_def not_le split: if_splits)
      show ?thesis
      proof (cases "is_digit c")
        case True
        have "dropWhile is_digit (dropWhile is_digit s) = dropWhile is_digit s" by simp
        then have "dropWhile is_digit s = [] \<or> hd (dropWhile is_digit s) = CHR ''.''"
          using version_after_digits [of "dropWhile is_digit s"] *(2) by (simp add: is_version_def)
        then show ?thesis using is_version_digits * by blast
      next
        case False
        then show ?thesis using * Cons by simp
      qed
    qed
  qed
qed

text \<open>Comparing the numbers, the shorter list filled up with zeros.\<close>

definition fill :: "nat \<Rightarrow> int list \<Rightarrow> int list" where
  "fill n p = p @ replicate (n - length p) 0"

definition order_sign :: "int list \<Rightarrow> int list \<Rightarrow> int" where
  "order_sign p q =
     (let n = max (length p) (length q)
      in if fill n p < fill n q then - 1 else if fill n q < fill n p then 1 else 0)"

lemma find_map: "find P (map f xs) = map_option f (find (P \<circ> f) xs)"
  by (induction xs) auto

lemma first_difference:
  fixes xs ys :: "int list"
  assumes "length xs = length ys"
  shows "(case find (\<lambda>i. xs ! i \<noteq> ys ! i) [0..<length xs] of None \<Rightarrow> 0 | Some i \<Rightarrow> if xs ! i < ys ! i then - 1 else 1) =
    (if xs < ys then - 1 else if ys < xs then 1 else (0::int))"
  using assms
proof (induction rule: list_induct2)
  case (Cons x xs y ys)
  have u: "[0..<length (x # xs)] = 0 # map Suc [0..<length xs]" by (simp add: upt_conv_Cons map_Suc_upt del: upt_Suc)
  show ?case
  proof (cases "x = y")
    case True
    have f: "find (\<lambda>i. (x # xs) ! i \<noteq> (y # ys) ! i) [0..<length (x # xs)] =
        map_option Suc (find (\<lambda>i. xs ! i \<noteq> ys ! i) [0..<length xs])"
      unfolding u using True by (simp add: find_map comp_def)
    show ?thesis using Cons.IH True unfolding f by (cases "find (\<lambda>i. xs ! i \<noteq> ys ! i) [0..<length xs]") (auto split: if_splits)
  next
    case False
    then show ?thesis unfolding u by auto
  qed
qed simp

lemma part_at_fill: "i < n \<Longrightarrow> part_at p i = fill n p ! i"
  by (auto simp: part_at_def fill_def nth_append)

lemma version_order:
  "(case find (\<lambda>i. part_at pa i \<noteq> part_at pb i) [0..<max (length pa) (length pb)] of
     None \<Rightarrow> 0 | Some i \<Rightarrow> if part_at pa i < part_at pb i then - 1 else 1) = order_sign pa pb"
proof -
  let ?n = "max (length pa) (length pb)"
  have e: "find (\<lambda>i. part_at pa i \<noteq> part_at pb i) [0..<?n] = find (\<lambda>i. fill ?n pa ! i \<noteq> fill ?n pb ! i) [0..<?n]"
    by (rule find_cong) (auto simp: part_at_fill)
  have l: "length (fill ?n pa) = ?n" "length (fill ?n pb) = ?n" by (auto simp: fill_def)
  show ?thesis
  proof (cases "find (\<lambda>i. fill ?n pa ! i \<noteq> fill ?n pb ! i) [0..<?n]")
    case None
    then show ?thesis using first_difference [of "fill ?n pa" "fill ?n pb"] l by (simp add: e order_sign_def)
  next
    case (Some i)
    then have "i < ?n" by (auto simp: find_Some_iff)
    then show ?thesis using Some first_difference [of "fill ?n pa" "fill ?n pb"] l
      by (simp add: e order_sign_def part_at_fill [of i ?n])
  qed
qed

lemma version_compare_spec:
  "version_compare a b =
    (if a = b \<or> a = [] \<or> b = [] then Some 0
     else if is_version a \<and> is_version b then Some (order_sign (version_numbers a) (version_numbers b))
     else None)"
proof -
  have p: "version_parts [] s = (if is_version s then Some (version_numbers s) else None)" for s
    using version_parts_scans [of s "[]"] version_parts_returns [of "[]" s] by (cases "version_parts [] s") auto
  show ?thesis unfolding version_compare_def p by (auto simp: version_order)
qed

section \<open>The text of the report\<close>

definition fw_entry :: "string \<times> string \<Rightarrow> json" where
  "fw_entry e = JObject [(''version'', JString (fst e)), (''url'', JString []), (''description'', JString (snd e))]"

lemma escape_names:
  "escape ''version'' = dq ''version''" "escape ''url'' = dq ''url''" "escape ''description'' = dq ''description''"
  "escape ''devices'' = dq ''devices''" "escape ''dev_id'' = dq ''dev_id''" "escape ''firmware'' = dq ''firmware''"
  "escape ''ams'' = dq ''ams''" "escape [] = dq []"
  by code_simp+

lemma join_comma_snoc: "join_comma (xs @ [x]) = (if xs = [] then x else join_comma xs @ '','' @ x)"
  by (induction xs rule: join_comma.induct) auto

definition entries_text :: "(string \<times> string) list \<Rightarrow> string" where
  "entries_text es = join_comma (map (\<lambda>e. dump (fw_entry e)) es)"

lemma emit_entry:
  "emit_fw_entry (b @ entries_text es, es = []) v d = (b @ entries_text (es @ [(v, d)]), es @ [(v, d)] = [])"
  by (simp add: emit_fw_entry_def entries_text_def join_comma_snoc fw_entry_def escape_names)

lemma entries_text_Nil [simp]: "entries_text [] = []"
  by (simp add: entries_text_def)

lemma entries_text_empty: "entries_text es = [] \<longleftrightarrow> es = []"
  by (cases es rule: rev_cases) (auto simp: entries_text_def join_comma_snoc fw_entry_def)

text \<open>What the report lists: version and description of the printer's firmware and of its AMS units.\<close>

definition ota_entries :: "device_fw \<Rightarrow> (string \<times> string) list" where
  "ota_entries snap =
     (case map_of snap ''ota'' of
        None \<Rightarrow> []
      | Some m \<Rightarrow>
          let url = notes_url (product_name m)
          in (if cur_ver m \<noteq> [] then [(cur_ver m, installed_text url)] else []) @
             (if new_ver m \<noteq> [] \<and> version_compare (new_ver m) (cur_ver m) = Some 1
              then [(new_ver m, available_text (new_ver m) url)] else []))"

definition ams_versions :: "device_fw \<Rightarrow> string list" where
  "ams_versions snap =
     filter (\<lambda>v. v \<noteq> []) (map (\<lambda>(k, m). if new_ver m \<noteq> [] then new_ver m else cur_ver m) (filter (\<lambda>(k, m). is_ams k) snap))"

definition ams_entries :: "device_fw \<Rightarrow> (string \<times> string) list" where
  "ams_entries snap =
     map (\<lambda>v. (v, ams_text (notes_url (case map_of snap ''ota'' of None \<Rightarrow> [] | Some m \<Rightarrow> product_name m)))) (ams_versions snap)"

lemma ams_loop:
  "foldl (\<lambda>d (key, m).
       if \<not> is_ams key then d
       else let advertised = (if new_ver m \<noteq> [] then new_ver m else cur_ver m)
            in if advertised = [] then d else emit_fw_entry d advertised t) ([], True) snap
   = (entries_text (map (\<lambda>v. (v, t)) (ams_versions snap)), map (\<lambda>v. (v, t)) (ams_versions snap) = [])"
proof (induction snap rule: rev_induct)
  case Nil
  show ?case by (simp add: ams_versions_def)
next
  case (snoc km snap)
  obtain k m where km: "km = (k, m)" by (cases km)
  let ?a = "if new_ver m \<noteq> [] then new_ver m else cur_ver m"
  have v: "ams_versions (snap @ [km]) = ams_versions snap @ (if is_ams k \<and> ?a \<noteq> [] then [?a] else [])"
    by (auto simp: ams_versions_def km)
  show ?case using emit_entry [of "[]" "map (\<lambda>v. (v, t)) (ams_versions snap)" ?a t]
    unfolding foldl_append snoc v by (simp add: km Let_def)
qed

text \<open>The report as a value, with its members in the order they are written.\<close>

definition report_value :: "string \<Rightarrow> (string \<times> string) list \<Rightarrow> (string \<times> string) list \<Rightarrow> json" where
  "report_value dev_id ota ams =
     JObject [(''devices'', JArray [JObject [(''dev_id'', JString dev_id),
       (''firmware'', JArray (map fw_entry ota)),
       (''ams'', JArray (if ams = [] then [] else [JObject [(''firmware'', JArray (map fw_entry ams))]]))]])]"

lemma report_text:
  "dump (report_value dev_id ota ams) =
    ''{'' @ dq ''devices'' @ '':[{'' @ dq ''dev_id'' @ '':'' @ escape dev_id @ '','' @ dq ''firmware'' @ '':['' @ entries_text ota
      @ ''],'' @ dq ''ams'' @ '':['' @ (if entries_text ams \<noteq> [] then ''{'' @ dq ''firmware'' @ '':['' @ entries_text ams @ '']}'' else [])
      @ '']}]}''"
  by (simp add: report_value_def entries_text_empty escape_names) (simp add: entries_text_def comp_def)

definition ota_hangs :: "device_fw \<Rightarrow> bool" where
  "ota_hangs snap =
     (case map_of snap ''ota'' of None \<Rightarrow> False | Some m \<Rightarrow> new_ver m \<noteq> [] \<and> version_compare (new_ver m) (cur_ver m) = None)"

text \<open>The same, in the order of the keys.\<close>

definition sorted_entry :: "string \<times> string \<Rightarrow> json" where
  "sorted_entry e = JObject [(''description'', JString (snd e)), (''url'', JString []), (''version'', JString (fst e))]"

lemma read_entry_back: "read_back (fw_entry e) = sorted_entry e"
proof -
  have "''url'' < (''version'' :: string)" "''description'' < (''url'' :: string)" "''description'' < (''version'' :: string)" by code_simp+
  then show ?thesis by (simp add: fw_entry_def sorted_entry_def order.asym)
qed

lemma report_read:
  "parse (dump (report_value dev_id ota ams)) =
    Some (JObject [(''devices'', JArray [JObject [
      (''ams'', JArray (if ams = [] then [] else [JObject [(''firmware'', JArray (map sorted_entry ams))]])),
      (''dev_id'', JString dev_id),
      (''firmware'', JArray (map sorted_entry ota))]])])"
proof -
  have o: "''dev_id'' < (''firmware'' :: string)" "''ams'' < (''firmware'' :: string)" "''ams'' < (''dev_id'' :: string)" by code_simp+
  have "fits kMaxNestingDepth (report_value dev_id ota ams)" "int_exact (report_value dev_id ota ams)"
    by (simp_all add: report_value_def fw_entry_def kMaxNestingDepth_def)
  moreover have "read_back \<circ> fw_entry = sorted_entry" by (auto simp: read_entry_back)
  ultimately show ?thesis using o by (simp add: parse_dump_any report_value_def order.asym del: dump.simps)
qed

lemma version_compare_sign: "version_compare a b = Some c \<Longrightarrow> 0 < c \<longleftrightarrow> c = 1"
  by (auto simp: version_compare_def split: if_splits option.splits)

lemma render_text:
  assumes "snap = (case map_of st dev_id of None \<Rightarrow> [] | Some d \<Rightarrow> d)"
  shows "render_firmware_json st dev_id =
    (if ota_hangs snap then None else Some (dump (report_value dev_id (ota_entries snap) (ams_entries snap))))"
proof -
  let ?b = "''{'' @ dq ''devices'' @ '':[{'' @ dq ''dev_id'' @ '':'' @ escape dev_id @ '','' @ dq ''firmware'' @ '':[''"
  let ?p = "case map_of snap ''ota'' of None \<Rightarrow> [] | Some m \<Rightarrow> product_name m"
  have ota: "(case map_of snap ''ota'' of
             None \<Rightarrow> Some (?b, True)
           | Some m \<Rightarrow>
               let d = (if cur_ver m \<noteq> [] then emit_fw_entry (?b, True) (cur_ver m) (installed_text (notes_url ?p)) else (?b, True))
               in if new_ver m = [] then Some d
                  else (case version_compare (new_ver m) (cur_ver m) of
                     None \<Rightarrow> None
                   | Some c \<Rightarrow> Some (if 0 < c then emit_fw_entry d (new_ver m) (available_text (new_ver m) (notes_url ?p)) else d)))
     = (if ota_hangs snap then None else Some (?b @ entries_text (ota_entries snap), ota_entries snap = []))"
  proof (cases "map_of snap ''ota''")
    case (Some m)
    let ?e = "if cur_ver m \<noteq> [] then [(cur_ver m, installed_text (notes_url (product_name m)))] else []"
    have d: "(if cur_ver m \<noteq> [] then emit_fw_entry (?b, True) (cur_ver m) (installed_text (notes_url (product_name m))) else (?b, True))
        = (?b @ entries_text ?e, ?e = [])"
      using emit_entry [of ?b "[]"] by simp
    show ?thesis unfolding Some option.case Let_def d ota_hangs_def ota_entries_def
      using emit_entry [of ?b ?e "new_ver m" "available_text (new_ver m) (notes_url (product_name m))"] version_compare_sign [of "new_ver m" "cur_ver m"]
      by (auto split: option.split)
  qed (simp add: ota_hangs_def ota_entries_def)
  show ?thesis
    unfolding render_firmware_json_def assms(1) [symmetric] Let_def ota [unfolded Let_def] ams_loop [unfolded Let_def]
    by (simp add: report_text ams_entries_def del: dump.simps)
qed

section \<open>What the cache learns\<close>

text \<open>The reply to \<open>get_version\<close> for a list of modules, and what a module's entry becomes with it.\<close>

definition module_json :: "module_fw \<Rightarrow> json" where
  "module_json m = JObject [(''name'', JString (fw_name m)), (''product_name'', JString (product_name m)), (''sn'', JString (fw_sn m)),
     (''sw_new_ver'', JString (new_ver m)), (''sw_ver'', JString (cur_ver m))]"

definition version_reply :: "module_fw list \<Rightarrow> json" where
  "version_reply ms = JObject [(''info'', JObject [(''command'', JString ''get_version''), (''module'', JArray (map module_json ms))])]"

definition merged :: "module_fw option \<Rightarrow> module_fw \<Rightarrow> module_fw" where
  "merged old m =
     (let o1 = (case old of None \<Rightarrow> new_module | Some x \<Rightarrow> x)
      in \<lparr>fw_name = fw_name m, cur_ver = if_given (cur_ver m) (cur_ver o1), new_ver = if_given (new_ver m) (new_ver o1),
          product_name = if_given (product_name m) (product_name o1), fw_sn = if_given (fw_sn m) (fw_sn o1)\<rparr>)"

lemma module_fields:
  "find_path (module_json m) ''name'' = JString (fw_name m)" "find_path (module_json m) ''sw_ver'' = JString (cur_ver m)"
  "find_path (module_json m) ''sw_new_ver'' = JString (new_ver m)" "find_path (module_json m) ''new_ver'' = JNull"
  "find_path (module_json m) ''cur_ver'' = JNull" "find_path (module_json m) ''product_name'' = JString (product_name m)"
  "find_path (module_json m) ''sn'' = JString (fw_sn m)"
  by (simp_all add: module_json_def find_path_key path_sep_def)

lemma all_fields_set:
  "m\<lparr>fw_name := a, cur_ver := b, new_ver := c, product_name := d, fw_sn := e\<rparr> =
    \<lparr>fw_name = a, cur_ver = b, new_ver = c, product_name = d, fw_sn = e\<rparr>"
  by (cases m) simp

lemma parse_module_json:
  assumes "fw_name m \<noteq> []"
  shows "parse_module_into dev (module_json m) = map_assign (fw_name m) (merged (map_of dev (fw_name m)) m) dev"
proof -
  have "is_object (module_json m)" by (simp add: module_json_def)
  then show ?thesis using assms unfolding parse_module_into_def module_fields
    by (cases "map_of dev (fw_name m)") (simp_all add: merged_def Let_def all_fields_set)
qed

lemma modules_learned:
  assumes "sorted_wrt (<) (map fst dev)" "distinct (map fw_name ms)" "\<forall>m \<in> set ms. fw_name m \<noteq> []"
  shows "map_of (foldl parse_module_into dev (map module_json ms)) k =
      (case find (\<lambda>m. fw_name m = k) ms of None \<Rightarrow> map_of dev k | Some m \<Rightarrow> Some (merged (map_of dev k) m))"
  using assms
proof (induction ms arbitrary: dev)
  case (Cons m ms)
  let ?dev = "parse_module_into dev (module_json m)"
  have d: "?dev = map_assign (fw_name m) (merged (map_of dev (fw_name m)) m) dev"
    using Cons.prems(3) by (intro parse_module_json) simp
  have "sorted_wrt (<) (map fst ?dev)" unfolding d using Cons.prems(1) by (rule map_assign_sorted)
  then have IH: "map_of (foldl parse_module_into ?dev (map module_json ms)) k =
      (case find (\<lambda>m. fw_name m = k) ms of None \<Rightarrow> map_of ?dev k | Some m \<Rightarrow> Some (merged (map_of ?dev k) m))"
    using Cons.IH Cons.prems by simp
  have m: "map_of ?dev k = (if k = fw_name m then Some (merged (map_of dev (fw_name m)) m) else map_of dev k)"
    unfolding d using Cons.prems(1) by (simp add: map_of_map_assign)
  show ?case
  proof (cases "fw_name m = k")
    case True
    then have "fw_name x \<noteq> k" if "x \<in> set ms" for x using Cons.prems(2) that by (auto simp: image_iff)
    then have "find (\<lambda>m. fw_name m = k) ms = None" by (simp add: find_None_iff)
    then show ?thesis using IH m True by simp
  next
    case False
    then show ?thesis using IH m by (auto split: option.split)
  qed
qed simp

lemma find_in_middle: "str_find p (a @ p @ b) \<noteq> None"
proof
  assume "str_find p (a @ p @ b) = None"
  then have "\<not> starts_with p (drop (length a) (a @ p @ b))" unfolding str_find_None by (elim allE [where x = "length a"]) simp
  then show False by simp
qed

lemma version_reply_dumpable: "dumpable (version_reply ms)"
proof -
  have "sorted_wrt (<) [''name'', ''product_name'', ''sn'', ''sw_new_ver'', ''sw_ver'']" "sorted_wrt (<) [''command'', ''module'']" by code_simp+
  then have "well_keyed (version_reply ms)" by (simp add: version_reply_def module_json_def sorted_wrt1 del: sorted_wrt.simps(2))
  then show ?thesis by (simp add: dumpable_def version_reply_def module_json_def kMaxNestingDepth_def)
qed

lemma update_from_reply:
  assumes "ms \<noteq> []"
  shows "update_fw_state dev (dump (version_reply ms)) = foldl parse_module_into dev (map module_json ms)"
proof -
  have p: "parse (dump (version_reply ms)) = Some (version_reply ms)" by (rule json.read_print [OF version_reply_dumpable])
  obtain m ms' where ms: "ms = m # ms'" using assms by (cases ms) auto
  have e: "escape ''sw_ver'' = [CHR 0x22] @ ''sw_ver'' @ [CHR 0x22]" by code_simp
  let ?pre = "CHR 0x7B # escape ''name'' @ '':'' @ escape (fw_name m) @ '','' @ escape ''product_name'' @ '':'' @ escape (product_name m)
    @ '','' @ escape ''sn'' @ '':'' @ escape (fw_sn m) @ '','' @ escape ''sw_new_ver'' @ '':'' @ escape (new_ver m) @ '','' @ [CHR 0x22]"
  have d: "dump (module_json m) = ?pre @ ''sw_ver'' @ [CHR 0x22] @ '':'' @ escape (cur_ver m) @ ''}''"
    by (simp add: module_json_def e)
  obtain r where r: "join_comma (map dump (map module_json ms)) = dump (module_json m) @ r"
    unfolding ms by (cases ms') auto
  have "dump (version_reply ms) = (CHR 0x7B # escape ''info'' @ '':{'' @ escape ''command'' @ '':'' @ escape ''get_version'' @ '',''
      @ escape ''module'' @ '':['') @ join_comma (map dump (map module_json ms)) @ '']}}''"
    by (simp add: version_reply_def)
  then obtain x y where w: "dump (version_reply ms) = x @ ''sw_ver'' @ y" unfolding r d by (metis append.assoc)
  obtain i where s: "str_find ''sw_ver'' (dump (version_reply ms)) = Some i"
    using find_in_middle [of "''sw_ver''" x y] unfolding w by (cases "str_find ''sw_ver'' (x @ ''sw_ver'' @ y)") simp_all
  have f: "find_path (version_reply ms) ''info.command'' = JString ''get_version''"
    "find_path (version_reply ms) ''info.module'' = JArray (map module_json ms)"
    "find_path (version_reply ms) ''print.upgrade_state.new_ver_list'' = JNull"
    using find_path_dot [of "''info''" "version_reply ms" "''command''"] find_path_dot [of "''info''" "version_reply ms" "''module''"]
      find_path_dot [of "''print''" "version_reply ms" "''upgrade_state.new_ver_list''"]
    by (simp_all add: version_reply_def find_path_key path_sep_def)
  show ?thesis by (simp add: update_fw_state_def p f s)
qed

section \<open>Properties\<close>

text \<open>
  C33. Versions are compared as their lists of numbers, filled up with zeros; but the comparison
  returns only for equal or empty texts and for two versions of digits and dots whose numbers fit an
  \<open>int\<close>. With any other character in one of them it never ends.
\<close>

theorem version_compare_decides:
  "version_compare a b =
    (if a = b \<or> a = [] \<or> b = [] then Some 0
     else if is_version a \<and> is_version b then Some (order_sign (version_numbers a) (version_numbers b))
     else None)"
  by (rule version_compare_spec)

text \<open>
  C34. The report that is rendered for a device is JSON: the slicer reads back the identifier of
  the device, the entries of the printer's firmware and those of its AMS units, with all texts
  unchanged, whatever characters they hold.
\<close>

theorem firmware_report_read:
  assumes "snap = (case map_of st dev_id of None \<Rightarrow> [] | Some d \<Rightarrow> d)"
    and "\<And>m. map_of snap ''ota'' = Some m \<Longrightarrow> is_version (new_ver m) \<and> is_version (cur_ver m)"
  shows "\<exists>text. render_firmware_json st dev_id = Some text \<and> parse text =
    Some (JObject [(''devices'', JArray [JObject [
      (''ams'', JArray (if ams_entries snap = [] then [] else [JObject [(''firmware'', JArray (map sorted_entry (ams_entries snap)))]])),
      (''dev_id'', JString dev_id),
      (''firmware'', JArray (map sorted_entry (ota_entries snap)))]])])"
proof -
  have "\<not> ota_hangs snap"
    using assms(2) by (auto simp: ota_hangs_def version_compare_spec split: option.split)
  then have "render_firmware_json st dev_id = Some (dump (report_value dev_id (ota_entries snap) (ams_entries snap)))"
    using render_text [OF assms(1)] by simp
  then show ?thesis using report_read by blast
qed

text \<open>Firmware and an AMS unit; the version of the unit has a character JSON has to escape.\<close>

definition demo_modules :: "module_fw list" where
  "demo_modules = [\<lparr>fw_name = ''ota'', cur_ver = ''01.08'', new_ver = ''01.09'', product_name = ''P2S'', fw_sn = ''7''\<rparr>,
     \<lparr>fw_name = ''ams/0'', cur_ver = [CHR 0x22], new_ver = [], product_name = [], fw_sn = []\<rparr>]"

theorem firmware_report_read_witness:
  "\<exists>body. render_firmware_json [(''D'', [(''ams/0'', demo_modules ! 1), (''ota'', hd demo_modules)])] ''D'' = Some body \<and>
    as_string (find_path (the (parse body)) ''devices[0].firmware[1].version'') = ''01.09'' \<and>
    as_string (find_path (the (parse body)) ''devices[0].ams[0].firmware[0].version'') = [CHR 0x22]"
proof -
  let ?snap = "[(''ams/0'', demo_modules ! 1), (''ota'', hd demo_modules)]"
  have "is_version ''01.09'' \<and> is_version ''01.08''" by code_simp
  then have v: "map_of ?snap ''ota'' = Some m \<Longrightarrow> is_version (new_ver m) \<and> is_version (cur_ver m)" for m
    by (auto simp: demo_modules_def)
  have e: "map fst (ota_entries ?snap) = [''01.08'', ''01.09'']" "map fst (ams_entries ?snap) = [[CHR 0x22]]" by code_simp+
  obtain body where t: "render_firmware_json [(''D'', ?snap)] ''D'' = Some body" "parse body =
    Some (JObject [(''devices'', JArray [JObject [
      (''ams'', JArray (if ams_entries ?snap = [] then [] else [JObject [(''firmware'', JArray (map sorted_entry (ams_entries ?snap)))]])),
      (''dev_id'', JString ''D''),
      (''firmware'', JArray (map sorted_entry (ota_entries ?snap)))]])])"
    using firmware_report_read [of ?snap "[(''D'', ?snap)]" "''D''"] v by auto
  obtain d1 d2 d3 where "ota_entries ?snap = [(''01.08'', d1), (''01.09'', d2)]" "ams_entries ?snap = [([CHR 0x22], d3)]"
    using e by (auto simp: map_eq_Cons_conv)
  then have "as_string (find_path (the (parse body)) ''devices[0].firmware[1].version'') = ''01.09''"
      "as_string (find_path (the (parse body)) ''devices[0].ams[0].firmware[0].version'') = [CHR 0x22]"
    unfolding t(2) by (simp_all add: sorted_entry_def) code_simp+
  then show ?thesis using t(1) by blast
qed

text \<open>
  C35. The reply to \<open>get_version\<close> updates exactly the modules it names: each field that is given
  replaces the old one, the others are kept, and so are all modules that are not named.
\<close>

theorem version_reply_learned:
  assumes "sorted_wrt (<) (map fst dev)" "distinct (map fw_name ms)" "ms \<noteq> []" "\<forall>m \<in> set ms. fw_name m \<noteq> []"
  shows "map_of (update_fw_state dev (dump (version_reply ms))) k =
    (case find (\<lambda>m. fw_name m = k) ms of None \<Rightarrow> map_of dev k | Some m \<Rightarrow> Some (merged (map_of dev k) m))"
  using update_from_reply [OF assms(3)] modules_learned [OF assms(1,2,4)] by simp

theorem version_reply_learned_witness:
  "map_of (update_fw_state [(''ota'', new_module\<lparr>fw_name := ''ota'', cur_ver := ''01.07'', fw_sn := ''5''\<rparr>)] (dump (version_reply demo_modules))) ''ota'' =
    Some (hd demo_modules)"
  using version_reply_learned [of "[(''ota'', new_module\<lparr>fw_name := ''ota'', cur_ver := ''01.07'', fw_sn := ''5''\<rparr>)]" demo_modules "''ota''"]
  by (simp add: demo_modules_def merged_def if_given_def)

end
