(* ===== verification/Tutk_Packets.thy ===== *)
theory Tutk_Packets
  imports Obn_Prelude
begin

text \<open>
  Model of the packets of the TUTK AV protocol, the first part of
  \<open>src/camera/tutk/TutkSession.cpp\<close>: the login and IOCtrl packets, the tests on the start of
  a frame, the assembler of the legacy transport and the slice headers of the framed one.
\<close>

section \<open>Packets\<close>

definition kAccount :: string where "kAccount = ''admin''"
definition kAvVersion :: u16 where "kAvVersion = 0x000b"
definition kTypeFramed :: byte where "kTypeFramed = 0x0c"
definition kTypeHeartbeat :: byte where "kTypeHeartbeat = 0x09"
definition kTypeProbe :: byte where "kTypeProbe = 0x0a"
definition kTypeProbeAck :: byte where "kTypeProbeAck = 0x0b"
definition kUidLen :: nat where "kUidLen = 20"

definition kIoTypeIpcamStart :: u32 where "kIoTypeIpcamStart = 0x01ff"
definition kIoTypeIpcamStop :: u32 where "kIoTypeIpcamStop = 0x02ff"
definition kIoTypeCtrl :: u32 where "kIoTypeCtrl = 0x3001"

text \<open>The payload pointer of the login is at byte 24 of the packet.\<close>

definition build_av_login :: "byte \<Rightarrow> u32 \<Rightarrow> bool \<Rightarrow> string \<Rightarrow> string \<Rightarrow> bytes" where
  "build_av_login step nonce framed passwd uid_upper =
     (let pkt0 = replicate 570 0;
          pkt1 = put_at 2 (le16 kAvVersion) pkt0;
          pkt2 = put_at 16 (le16 546) pkt1;
          pkt3 = put_at 20 (le32 nonce) pkt2;
          pkt4 = put_at 24 (bytes_of_string kAccount) pkt3;
          pkt5 = put_at (24 + 257) (bytes_of_string (take 256 passwd)) pkt4
      in if framed then
           put_at (24 + 542) (le32 1) (put_at (24 + 536) (le32 3)
             (put_at (24 + 522) (le32 0x001f07fb) (put_at (24 + 518) (le32 4)
               (put_at (24 + 514) (le32 1)
                 (put_at 18 [if step = 0 then 1 else 0] (put_at 1 [step] pkt5))))))
         else
           put_at (24 + 542) (le32 2)
             (put_at (24 + 518) (bytes_of_string (take kUidLen uid_upper)) (put_at 0 [step] pkt5)))"

definition build_ioctrl_body :: "u32 \<Rightarrow> bytes \<Rightarrow> u16 \<Rightarrow> bytes" where
  "build_ioctrl_body io_type data index =
     (let out0 = replicate (24 + length data) 0;
          out1 = put_at 1 [0x70] out0;
          out2 = put_at 2 (le16 index) out1;
          out3 = put_at 4 (le32 1) out2;
          out4 = put_at 8 (le32 (of_nat (4 + length data))) out3;
          out5 = put_at 12 (le32 (ucast index)) out4;
          out6 = put_at 20 (le32 io_type) out5
      in put_at 24 data out6)"

definition starts_with_start_code :: "bytes \<Rightarrow> bool" where
  "starts_with_start_code p \<longleftrightarrow>
     3 \<le> length p \<and> p ! 0 = 0 \<and> p ! 1 = 0 \<and> p ! 2 = 1 \<or>
     4 \<le> length p \<and> p ! 0 = 0 \<and> p ! 1 = 0 \<and> p ! 2 = 0 \<and> p ! 3 = 1"

definition is_jpeg :: "bytes \<Rightarrow> bool" where
  "is_jpeg p \<longleftrightarrow> 2 \<le> length p \<and> p ! 0 = 0xff \<and> p ! 1 = 0xd8"

definition h264_is_keyframe :: "bytes \<Rightarrow> bool" where
  "h264_is_keyframe p =
     (let off = (if 4 \<le> length p \<and> p ! 2 = 0 then 4 else 3)
      in if length p \<le> off then False
         else let nal = (p ! off) AND 0x1f in nal = 5 \<or> nal = 7)"

section \<open>Legacy transport\<close>

record legacy_assembler =
  la_frame_no :: u32
  la_total :: u16
  la_slices :: "(u16 \<times> bytes) list"

definition new_assembler :: legacy_assembler where
  "new_assembler = \<lparr>la_frame_no = 0xffffffff, la_total = 0, la_slices = []\<rparr>"

definition legacy_add :: "u32 \<Rightarrow> u16 \<Rightarrow> u16 \<Rightarrow> bytes \<Rightarrow> legacy_assembler \<Rightarrow> bool \<times> legacy_assembler" where
  "legacy_add fno idx cnt data a =
     (let a1 = (if fno \<noteq> la_frame_no a
                then \<lparr>la_frame_no = fno, la_total = (if cnt \<noteq> 0 then cnt else 1), la_slices = []\<rparr>
                else a);
          a2 = a1\<lparr>la_slices := map_assign idx data (la_slices a1)\<rparr>
      in (unat (la_total a2) \<le> length (la_slices a2), a2))"

definition legacy_take :: "legacy_assembler \<Rightarrow> bytes \<times> legacy_assembler" where
  "legacy_take a = (concat (map snd (la_slices a)), new_assembler)"

section \<open>Slice headers\<close>

definition kSliceHeaderLen :: nat where "kSliceHeaderLen = 20"

record slice_header =
  sh_kind :: byte
  sh_count :: u16
  sh_index :: u16
  sh_info_len :: u16
  sh_len :: u16
  sh_frame_no :: u32

definition parse_slice_header :: "bytes \<Rightarrow> slice_header option" where
  "parse_slice_header p =
     (if length p < kSliceHeaderLen then None
      else let is_last = (p ! 1 = 1);
               count = get_le16 (drop 4 p);
               h = \<lparr>sh_kind = p ! 0, sh_count = count,
                     sh_index = (if is_last then count - 1 else get_le16 (drop 6 p)),
                     sh_info_len = (if is_last then get_le16 (drop 6 p) else 0),
                     sh_len = get_le16 (drop 8 p), sh_frame_no = get_le32 (drop 12 p)\<rparr>
           in if 0 < sh_count h \<and> sh_index h < sh_count h \<and> kSliceHeaderLen + unat (sh_len h) \<le> length p
              then Some h else None)"

section \<open>Lemmas: slice headers\<close>

lemma get_le16_append: "n + 2 \<le> length p \<Longrightarrow> get_le16 (drop n (p @ q)) = get_le16 (drop n p)"
  by (simp add: get_le16_def nth_append)

lemma get_le32_append: "n + 4 \<le> length p \<Longrightarrow> get_le32 (drop n (p @ q)) = get_le32 (drop n p)"
  by (simp add: get_le32_def nth_append)

text \<open>Bytes after the slice do not change how its header is read.\<close>

lemma parse_slice_header_append:
  assumes "parse_slice_header p = Some h"
  shows "parse_slice_header (p @ q) = Some h"
proof -
  have l: "20 \<le> length p" using assms by (simp add: parse_slice_header_def kSliceHeaderLen_def split: if_splits)
  then have "get_le16 (drop 4 (p @ q)) = get_le16 (drop 4 p)" "get_le16 (drop 6 (p @ q)) = get_le16 (drop 6 p)"
    "get_le16 (drop 8 (p @ q)) = get_le16 (drop 8 p)" "get_le32 (drop 12 (p @ q)) = get_le32 (drop 12 p)"
    "(p @ q) ! 1 = p ! 1"
    by (simp_all add: get_le16_append get_le32_append nth_append_left del: drop_append)
  moreover have "(p @ q) ! 0 = p ! 0" using l by (cases p) auto
  ultimately show ?thesis using assms
    unfolding parse_slice_header_def Let_def by (simp del: drop_append split: if_splits)
qed

text \<open>A slice as a data packet carries it: header and exactly the announced payload.\<close>

definition is_slice :: "bytes \<Rightarrow> bool" where
  "is_slice s = (case parse_slice_header s of None \<Rightarrow> False | Some h \<Rightarrow> length s = kSliceHeaderLen + unat (sh_len h))"

lemma is_slice_nonempty: "is_slice s \<Longrightarrow> s \<noteq> []"
  by (auto simp: is_slice_def kSliceHeaderLen_def split: option.splits)

section \<open>Lemmas: slices by index\<close>

lemma unat_u16: "n < 2 ^ 16 \<Longrightarrow> unat (of_nat n :: u16) = n"
  by (simp add: unat_of_nat)

lemma sorted_unat: "sorted_wrt (<) ws \<Longrightarrow> sorted_wrt (<) (map unat ws)"
  by (auto simp: sorted_wrt_map word_less_nat_alt elim: sorted_wrt_mono_rel [rotated])

lemma sorted_full:
  assumes "sorted_wrt (<) ks" "set ks \<subseteq> {..<n}" "length ks = n"
  shows "ks = [0..<n]"
proof -
  have d: "distinct ks" "sorted ks" using assms(1) by (simp_all add: strict_sorted_iff)
  have "card (set ks) = card {..<n}" unfolding distinct_card [OF d(1)] assms(3) by simp
  then have "set ks = {..<n}" by (rule card_subset_eq [OF finite_lessThan assms(2)])
  then show ?thesis using d sorted_upt [of 0 n] by (intro sorted_distinct_set_unique) (simp_all add: lessThan_atLeast0)
qed

text \<open>As many slices as the frame has are all of them, in order.\<close>

lemma all_slices:
  fixes m :: "(u16 \<times> bytes) list"
  assumes sorted: "sorted_wrt (<) (map fst m)"
    and vals: "\<forall>p \<in> set m. unat (fst p) < length parts \<and> snd p = parts ! unat (fst p)"
    and all: "length m = length parts"
  shows "map (\<lambda>p. unat (fst p)) m = [0..<length parts]" "map snd m = parts"
proof -
  have "sorted_wrt (<) (map (\<lambda>p. unat (fst p)) m)" using sorted_unat [OF sorted] by (simp add: comp_def)
  then show eq: "map (\<lambda>p. unat (fst p)) m = [0..<length parts]"
    using vals all by (intro sorted_full) auto
  have "map snd m = map ((!) parts) (map (\<lambda>p. unat (fst p)) m)" using vals by simp
  then show "map snd m = parts" unfolding eq map_nth .
qed

lemma map_assign_set: "set (map_assign k v m) \<subseteq> insert (k, v) (set m)"
  by (induction k v m rule: map_assign.induct) auto

lemma length_map_assign:
  "sorted_wrt (<) (map fst m) \<Longrightarrow> k \<notin> fst ` set m \<Longrightarrow> length (map_assign k v m) = Suc (length m)"
  by (induction k v m rule: map_assign.induct) auto

section \<open>Lemmas: the legacy assembler\<close>

text \<open>The slices of one frame with the indices of the list, and what \<open>add\<close> answers to each.\<close>

fun legacy_adds :: "u32 \<Rightarrow> bytes list \<Rightarrow> nat list \<Rightarrow> legacy_assembler \<Rightarrow> bool list \<times> legacy_assembler" where
  "legacy_adds fno parts [] a = ([], a)"
| "legacy_adds fno parts (i # is) a =
     (let (b, a1) = legacy_add fno (of_nat i) (of_nat (length parts)) (parts ! i) a;
          (bs, a2) = legacy_adds fno parts is a1
      in (b # bs, a2))"

definition legacy_inv :: "u32 \<Rightarrow> bytes list \<Rightarrow> nat set \<Rightarrow> legacy_assembler \<Rightarrow> bool" where
  "legacy_inv fno parts S a \<longleftrightarrow>
     la_frame_no a = fno \<and> unat (la_total a) = length parts \<and> sorted_wrt (<) (map fst (la_slices a)) \<and>
     (\<forall>p \<in> set (la_slices a). unat (fst p) < length parts \<and> snd p = parts ! unat (fst p)) \<and>
     fst ` set (la_slices a) = of_nat ` S \<and> length (la_slices a) = card S"

lemma legacy_add_inv:
  assumes parts: "length parts < 2 ^ 16" and i: "i < length parts" "i \<notin> S" and S: "S \<subseteq> {..<length parts}"
    and a: "legacy_inv fno parts S a"
  shows "fst (legacy_add fno (of_nat i) (of_nat (length parts)) (parts ! i) a) = (card (insert i S) = length parts)"
    "legacy_inv fno parts (insert i S) (snd (legacy_add fno (of_nat i) (of_nat (length parts)) (parts ! i) a))"
proof -
  let ?m = "map_assign (of_nat i) (parts ! i) (la_slices a)"
  have fin: "finite S" using S finite_subset by blast
  have u: "unat (of_nat j :: u16) = j" if "j < length parts" for j using that parts by (intro unat_u16) simp
  have "(of_nat i :: u16) \<notin> of_nat ` S" using u i S by (metis image_iff lessThan_iff subsetD)
  then have "length ?m = Suc (card S)"
    using a length_map_assign [of "la_slices a" "of_nat i"] by (simp add: legacy_inv_def)
  then have len: "length ?m = card (insert i S)" using fin i by simp
  have vals: "\<forall>p \<in> set ?m. unat (fst p) < length parts \<and> snd p = parts ! unat (fst p)"
  proof
    fix p assume "p \<in> set ?m"
    then have "p = (of_nat i, parts ! i) \<or> p \<in> set (la_slices a)"
      using subsetD [OF map_assign_set] by (simp only: insert_iff)
    then show "unat (fst p) < length parts \<and> snd p = parts ! unat (fst p)"
      using a i u [OF i(1)] unfolding legacy_inv_def by (elim disjE) (simp, blast)
  qed
  have "card (insert i S) \<le> length parts" using S i(1) card_mono [of "{..<length parts}" "insert i S"] by simp
  then show "fst (legacy_add fno (of_nat i) (of_nat (length parts)) (parts ! i) a) = (card (insert i S) = length parts)"
    using a len by (auto simp: legacy_add_def legacy_inv_def)
  have "snd (legacy_add fno (of_nat i) (of_nat (length parts)) (parts ! i) a) = a\<lparr>la_slices := ?m\<rparr>"
    using a by (simp add: legacy_add_def legacy_inv_def)
  then show "legacy_inv fno parts (insert i S) (snd (legacy_add fno (of_nat i) (of_nat (length parts)) (parts ! i) a))"
    using a vals len map_assign_sorted [of "la_slices a" "of_nat i" "parts ! i"] by (simp add: legacy_inv_def map_assign_keys)
qed

lemma legacy_adds_inv:
  assumes "length parts < 2 ^ 16" "distinct is" "set is \<inter> S = {}" "set is \<union> S = {..<length parts}" "is \<noteq> []"
    and "legacy_inv fno parts S a"
  shows "\<exists>a'. legacy_adds fno parts is a = (replicate (length is - 1) False @ [True], a') \<and>
    legacy_inv fno parts {..<length parts} a'"
  using assms
proof (induction "is" arbitrary: S a)
  case (Cons i "is")
  obtain b a1 where s: "legacy_add fno (of_nat i) (of_nat (length parts)) (parts ! i) a = (b, a1)" by fastforce
  have i: "i < length parts" "i \<notin> S" "S \<subseteq> {..<length parts}" using Cons.prems(3,4) by auto
  have b: "b = (card (insert i S) = length parts)" "legacy_inv fno parts (insert i S) a1"
    using legacy_add_inv [OF Cons.prems(1) i Cons.prems(6)] s by simp_all
  have all: "set is \<union> insert i S = {..<length parts}" "set is \<inter> insert i S = {}" "distinct is"
    using Cons.prems(2,3,4) by auto
  have fin: "finite (insert i S)" using finite_subset [OF i(3)] by simp
  have "card (set is \<union> insert i S) = length is + card (insert i S)"
    unfolding card_Un_disjoint [OF finite_set fin all(2)] distinct_card [OF all(3)] ..
  then have "length is + card (insert i S) = length parts" unfolding all(1) card_lessThan by (rule sym)
  then have b': "b = (is = [])" unfolding b(1) length_0_conv [symmetric] by linarith
  show ?case
  proof (cases "is = []")
    case True
    then show ?thesis using s b(2) b' all(1) by simp
  next
    case False
    then obtain a' where "legacy_adds fno parts is a1 = (replicate (length is - 1) False @ [True], a')"
        "legacy_inv fno parts {..<length parts} a'"
      using Cons.IH [OF Cons.prems(1) all(3,2,1) False b(2)] by blast
    then show ?thesis using s b' False by (cases "is") simp_all
  qed
qed simp

section \<open>Properties\<close>

text \<open>
  The slices of a frame of the legacy stream may come in any order: the assembler reports
  the frame complete with the last of them and not before, whatever was left of an earlier
  frame, and then yields the payloads in the order of their indices and starts afresh.
\<close>

lemma legacy_frame_assembled:
  assumes "parts \<noteq> []" "length parts < 2 ^ 16" "distinct is" "set is = {..<length parts}" "fno \<noteq> la_frame_no a"
  shows "\<exists>a'. legacy_adds fno parts is a = (replicate (length parts - 1) False @ [True], a') \<and>
    legacy_take a' = (concat parts, new_assembler)"
proof -
  let ?a = "\<lparr>la_frame_no = fno, la_total = of_nat (length parts), la_slices = []\<rparr>"
  have "unat (of_nat (length parts) :: u16) = length parts" using assms(2) by (rule unat_u16)
  moreover from this have "(of_nat (length parts) :: u16) \<noteq> 0" using assms(1) by (metis length_0_conv unat_0)
  ultimately have a: "legacy_inv fno parts {} ?a" "legacy_adds fno parts is a = legacy_adds fno parts is ?a" if "is \<noteq> []"
    using assms(5) that by (simp_all add: legacy_inv_def, cases "is", simp_all add: legacy_add_def)
  have len: "length is = length parts" using distinct_card [OF assms(3)] unfolding assms(4) card_lessThan by (rule sym)
  then have ne: "is \<noteq> []" using assms(1) by (metis length_0_conv)
  obtain a' where a': "legacy_adds fno parts is ?a = (replicate (length is - 1) False @ [True], a')"
      "legacy_inv fno parts {..<length parts} a'"
    using legacy_adds_inv [OF assms(2,3) Int_empty_right _ ne a(1) [OF ne]] unfolding assms(4) Un_empty_right by blast
  have "map snd (la_slices a') = parts"
    using a'(2) unfolding legacy_inv_def by (intro all_slices) auto
  then show ?thesis using a' a(2) [OF ne] len by (simp add: legacy_take_def)
qed

end
