(* ===== verification/Gf256.thy ===== *)
theory Gf256
  imports Obn_Prelude
begin

text \<open>
  Model of the arithmetic of \<open>src/camera/tutk/Fec.cpp\<close>: the field with 256 elements given by
  the polynomial \<open>0x11d\<close>, with multiplication, inverse and power by tables of exponentials and
  logarithms. The tables are built by the loops of the code; the type \<open>gf\<close> (a byte read as a
  field element) is shown to be a field, so that the library's algebra applies to it.
\<close>

section \<open>Tables\<close>

definition gf_next :: "u32 \<Rightarrow> u32" where
  "gf_next x = (let y = push_bit 1 x in if y AND 0x100 \<noteq> 0 then y XOR 0x11d else y)"

function gf_loop :: "nat \<Rightarrow> u32 \<Rightarrow> bytes \<Rightarrow> nat list \<Rightarrow> bytes \<times> nat list" where
  "gf_loop i x e l =
     (if 255 \<le> i then (e, l)
      else gf_loop (i + 1) (gf_next x) (e[i := ucast x]) (l[unat x := i]))"
  by pat_completeness auto
termination
  by (relation "measure (\<lambda>(i, x, e, l). 255 - i)") auto

declare gf_loop.simps [simp del]

definition gf_tables :: "bytes \<times> nat list" where
  "gf_tables =
     (let (e, l) = gf_loop 0 1 (replicate 512 0) (replicate 256 0)
      in (foldl (\<lambda>e i. e[i := e ! (i - 255)]) e [255..<512], l))"

definition gf_exp :: "nat \<Rightarrow> byte" where
  "gf_exp i = fst gf_tables ! i"

definition gf_log :: "byte \<Rightarrow> nat" where
  "gf_log a = snd gf_tables ! unat a"

definition gf_mul :: "byte \<Rightarrow> byte \<Rightarrow> byte" where
  "gf_mul a b = (if a \<noteq> 0 \<and> b \<noteq> 0 then gf_exp (gf_log a + gf_log b) else 0)"

definition gf_inv :: "byte \<Rightarrow> byte" where
  "gf_inv a = gf_exp (255 - gf_log a)"

definition gf_pow :: "byte \<Rightarrow> nat \<Rightarrow> byte" where
  "gf_pow a n = (if n = 0 then 1 else if a \<noteq> 0 then gf_exp (gf_log a * n mod 255) else 0)"

section \<open>Multiplication by two\<close>

definition xt :: "byte \<Rightarrow> byte" where
  "xt x = (push_bit 1 x XOR (if x AND 0x80 \<noteq> 0 then 0x1d else 0))"

text \<open>The powers of two, from the zeroth to the 255th.\<close>

definition orbit :: bytes where
  "orbit =
     [1, 2, 4, 8, 16, 32, 64, 128, 29, 58, 116, 232, 205, 135, 19, 38, 76, 152, 45, 90, 180, 117,
      234, 201, 143, 3, 6, 12, 24, 48, 96, 192, 157, 39, 78, 156, 37, 74, 148, 53, 106, 212, 181,
      119, 238, 193, 159, 35, 70, 140, 5, 10, 20, 40, 80, 160, 93, 186, 105, 210, 185, 111, 222, 161,
      95, 190, 97, 194, 153, 47, 94, 188, 101, 202, 137, 15, 30, 60, 120, 240, 253, 231, 211, 187,
      107, 214, 177, 127, 254, 225, 223, 163, 91, 182, 113, 226, 217, 175, 67, 134, 17, 34, 68, 136,
      13, 26, 52, 104, 208, 189, 103, 206, 129, 31, 62, 124, 248, 237, 199, 147, 59, 118, 236, 197,
      151, 51, 102, 204, 133, 23, 46, 92, 184, 109, 218, 169, 79, 158, 33, 66, 132, 21, 42, 84, 168,
      77, 154, 41, 82, 164, 85, 170, 73, 146, 57, 114, 228, 213, 183, 115, 230, 209, 191, 99, 198,
      145, 63, 126, 252, 229, 215, 179, 123, 246, 241, 255, 227, 219, 171, 75, 150, 49, 98, 196, 149,
      55, 110, 220, 165, 87, 174, 65, 130, 25, 50, 100, 200, 141, 7, 14, 28, 56, 112, 224, 221, 167,
      83, 166, 81, 162, 89, 178, 121, 242, 249, 239, 195, 155, 43, 86, 172, 69, 138, 9, 18, 36, 72,
      144, 61, 122, 244, 245, 247, 243, 251, 235, 203, 139, 11, 22, 44, 88, 176, 125, 250, 233, 207,
      131, 27, 54, 108, 216, 173, 71, 142, 1]"

lemma orbit_step: "map xt (butlast orbit) = tl orbit"
  by (simp add: orbit_def xt_def)

lemma orbit_returns: "list_all (\<lambda>x. x \<noteq> 1) (butlast (tl orbit))"
  by (simp add: orbit_def)

lemma orbit_ends: "length orbit = 256" "hd orbit = 1" "last orbit = 1"
  by (simp_all add: orbit_def)

lemma orbit_pow: "i < 256 \<Longrightarrow> (xt ^^ i) 1 = orbit ! i"
proof (induction i)
  case 0
  have "orbit \<noteq> []" using orbit_ends(1) by auto
  then show ?case using orbit_ends(2) by (simp add: hd_conv_nth)
next
  case (Suc i)
  have "map xt (butlast orbit) ! i = tl orbit ! i" by (simp add: orbit_step)
  moreover have "i < length (butlast orbit)" "i < length (tl orbit)" using Suc.prems orbit_ends by auto
  ultimately show ?case using Suc by (simp add: nth_butlast nth_tl)
qed

lemma and_0x80: "x AND 0x80 \<noteq> 0 \<longleftrightarrow> bit (x :: byte) 7"
  using and_exp_eq_0_iff_not_bit [of x 7] by simp

lemma xt_xor: "xt (a XOR b) = xt a XOR xt b"
  unfolding xt_def and_0x80 by (rule bit_word_eqI) (auto simp: bit_simps)

lemma xt_0 [simp]: "xt 0 = 0"
  by (simp add: xt_def)

lemma xtn_xor: "(xt ^^ n) (a XOR b) = (xt ^^ n) a XOR (xt ^^ n) b"
  by (induction n) (simp_all add: xt_xor)

lemma xtn_0 [simp]: "(xt ^^ n) 0 = 0"
  by (induction n) simp_all


lemma xtn_add: "(xt ^^ m) ((xt ^^ n) a) = (xt ^^ (m + n)) a"
  by (simp add: funpow_add)

lemma xor_eq_0: "a XOR b = 0 \<longleftrightarrow> a = (b :: 'a::len word)"
  by (metis xor.assoc xor.left_neutral xor_self_eq)

lemma xt_inject: "xt a = xt b \<longleftrightarrow> a = b"
proof
  assume "xt a = xt b"
  then have z: "xt (a XOR b) = 0" by (simp add: xt_xor)
  have "c = 0" if c: "xt c = 0" for c
  proof (cases "bit c 7")
    case True
    then have "push_bit 1 c XOR 0x1d = 0" using c by (simp only: xt_def and_0x80 if_True)
    then have "push_bit 1 c = 0x1d" by (simp only: xor_eq_0)
    moreover have "\<not> bit (push_bit 1 c) 0" by (simp only: bit_push_bit_iff) simp
    moreover have "bit (0x1d :: byte) 0" by simp
    ultimately show ?thesis by simp
  next
    case False
    then have s: "push_bit 1 c = 0" using c by (simp add: xt_def and_0x80)
    show ?thesis
    proof (rule bit_word_eqI)
      fix n :: nat assume "n < LENGTH(8)"
      then consider "n = 7" | "n < 7" by fastforce
      then show "bit c n = bit 0 n"
      proof cases
        case 2
        have "\<not> bit (push_bit 1 c) (Suc n)" unfolding s by simp
        with 2 show ?thesis unfolding bit_push_bit_iff by simp
      qed (use False in simp)
    qed
  qed
  from this [OF z] show "a = b" by (metis xor.assoc xor.right_neutral xor_self_eq)
qed simp

lemma xtn_inject: "(xt ^^ n) a = (xt ^^ n) b \<longleftrightarrow> a = b"
  by (induction n) (simp_all add: xt_inject)

lemma xt_255: "(xt ^^ 255) 1 = 1"
  using orbit_pow [of 255] orbit_ends last_conv_nth [of orbit] by force

lemma xt_order: "0 < i \<Longrightarrow> i < 255 \<Longrightarrow> (xt ^^ i) 1 \<noteq> 1"
proof -
  assume i: "0 < i" "i < 255"
  have "butlast (tl orbit) ! (i - 1) \<noteq> 1"
    using orbit_returns i orbit_ends(1) by (auto simp: list_all_length)
  then show ?thesis using orbit_pow [of i] i orbit_ends(1) by (simp add: nth_butlast nth_tl)
qed

lemma xt_inj_on: "inj_on (\<lambda>i. (xt ^^ i) 1) {..<255}"
proof (rule linorder_inj_onI)
  fix i j :: nat assume ij: "i < j" "i \<in> {..<255}" "j \<in> {..<255}"
  have "(xt ^^ j) 1 = (xt ^^ i) ((xt ^^ (j - i)) 1)" using ij by (simp add: xtn_add)
  then show "(xt ^^ i) 1 \<noteq> (xt ^^ j) 1" using xt_order [of "j - i"] ij xtn_inject [of i] by auto
qed auto

lemma xtn_nonzero: "(xt ^^ i) 1 \<noteq> 0"
  using xtn_inject [of i 1 0] by simp

lemma xt_surj: "a \<noteq> 0 \<Longrightarrow> \<exists>i<255. (xt ^^ i) 1 = a"
proof -
  assume a: "a \<noteq> 0"
  let ?A = "(\<lambda>i. (xt ^^ i) 1) ` {..<255 :: nat}"
  have c: "card (UNIV - {0 :: byte}) = 255" by (simp add: card_Diff_singleton card_word)
  have "card ?A = 255" using card_image [OF xt_inj_on] by simp
  moreover have "?A \<subseteq> UNIV - {0}" using xtn_nonzero by auto
  ultimately have "?A = UNIV - {0 :: byte}" using card_subset_eq [of "UNIV - {0 :: byte}" ?A] c by simp
  then show ?thesis using a by (metis (mono_tags, lifting) DiffI UNIV_I empty_iff imageE insert_iff lessThan_iff)
qed

lemma xtn_mod: "(xt ^^ i) a = (xt ^^ (i mod 255)) a"
proof -
  have c: "(xt ^^ 255) a = a" for a
  proof (cases "a = 0")
    case False
    then obtain j where j: "(xt ^^ j) 1 = a" using xt_surj by blast
    have "(xt ^^ 255) ((xt ^^ j) 1) = (xt ^^ j) ((xt ^^ 255) 1)" by (simp only: xtn_add add.commute)
    then show ?thesis using j xt_255 by simp
  qed simp
  have "(xt ^^ (255 * n)) a = a" for n
    by (induction n) (simp_all add: c funpow_add del: funpow.simps)
  then have "(xt ^^ (i mod 255)) ((xt ^^ (255 * (i div 255))) a) = (xt ^^ (i mod 255)) a" by simp
  then show ?thesis by (simp only: xtn_add mod_mult_div_eq)
qed

section \<open>The tables\<close>

lemma reduce_bits:
  assumes "s = 1" "e = 8" "bit b 7"
  shows "push_bit s (ucast (b :: byte) :: u32) XOR (2 ^ e XOR ucast (d :: byte)) = ucast (push_bit s b XOR d)"
proof (rule bit_word_eqI)
  fix n :: nat assume "n < LENGTH(32)"
  then show "bit (push_bit s (ucast b :: u32) XOR (2 ^ e XOR ucast d)) n = bit (ucast (push_bit s b XOR d) :: u32) n"
    unfolding bit_xor_iff bit_push_bit_iff bit_exp_iff bit_unsigned_iff
    using assms by (cases "n = 8") (auto dest: bit_imp_le_length)
qed

lemma shift_bits:
  assumes "s = 1" "\<not> bit b 7"
  shows "push_bit s (ucast (b :: byte) :: u32) = ucast (push_bit s b)"
proof (rule bit_word_eqI)
  fix n :: nat assume "n < LENGTH(32)"
  then show "bit (push_bit s (ucast b :: u32)) n = bit (ucast (push_bit s b) :: u32) n"
    unfolding bit_push_bit_iff bit_unsigned_iff
    using assms by (cases "n = 8") (auto dest: bit_imp_le_length)
qed

lemma gf_next_xt: "gf_next (ucast b) = ucast (xt b)"
proof -
  have k: "(0x11d :: u32) = 2 ^ 8 XOR ucast (0x1d :: byte)" by simp
  have p: "(0x100 :: u32) = 2 ^ 8" by simp
  have a: "push_bit 1 (ucast b :: u32) AND 0x100 \<noteq> 0 \<longleftrightarrow> bit b 7"
    unfolding p and_exp_eq_0_iff_not_bit bit_push_bit_iff bit_unsigned_iff by simp
  show ?thesis
    unfolding gf_next_def Let_def a xt_def and_0x80 k
    using reduce_bits [OF refl refl, of b "0x1d"] shift_bits [OF refl, of b] by (cases "bit b 7") (simp_all only: if_True if_False xor.right_neutral not_False_eq_True)
qed

lemma ucast_id32 [simp]: "ucast (ucast (x :: byte) :: u32) = x"
  by (rule bit_word_eqI) (auto simp: bit_simps)

definition tabs_ok :: "nat \<Rightarrow> bytes \<Rightarrow> nat list \<Rightarrow> bool" where
  "tabs_ok n e l \<longleftrightarrow> length e = 512 \<and> length l = 256 \<and>
     (\<forall>j<n. e ! j = (xt ^^ j) 1 \<and> l ! unat ((xt ^^ j) 1) = j)"

lemma tabs_ok_step:
  assumes "tabs_ok i e l" "i < 255"
  shows "tabs_ok (Suc i) (e[i := (xt ^^ i) 1]) (l[unat ((xt ^^ i) 1) := i])"
proof -
  have "unat ((xt ^^ i) 1) \<noteq> unat ((xt ^^ j) 1)" if "j < i" for j
    using inj_onD [OF xt_inj_on, of j i] that assms(2) by (auto dest: unsigned_word_eqI)
  moreover have "unat ((xt ^^ i) 1) < 256" using unsigned_less [of "(xt ^^ i) 1"] by simp
  ultimately show ?thesis using assms by (auto simp: tabs_ok_def less_Suc_eq nth_list_update)
qed

lemma gf_loop_ok:
  "tabs_ok i e l \<Longrightarrow> i \<le> 255 \<Longrightarrow> x = ucast ((xt ^^ i) 1) \<Longrightarrow> gf_loop i x e l = (e', l') \<Longrightarrow> tabs_ok 255 e' l'"
proof (induction i x e l rule: gf_loop.induct)
  case (1 i x e l)
  show ?case
  proof (cases "255 \<le> i")
    case True
    then have "i = 255" using "1.prems" by simp
    then show ?thesis using "1.prems" by (simp add: gf_loop.simps [of 255])
  next
    case False
    have u: "ucast (ucast ((xt ^^ i) 1) :: u32) = (xt ^^ i) 1" by (rule ucast_id32)
    have n: "unat (ucast ((xt ^^ i) 1) :: u32) = unat ((xt ^^ i) 1)"
      using unsigned_less [of "(xt ^^ i) 1", where 'a = nat]
      by (simp add: unsigned_ucast_eq unsigned_take_bit_eq take_bit_nat_eq_self del: funpow.simps)
    have x': "gf_next x = ucast ((xt ^^ (i + 1)) 1)" using "1.prems"(3) by (simp add: gf_next_xt)
    show ?thesis
      using "1.IH" [OF False _ _ x'] tabs_ok_step [OF "1.prems"(1)] "1.prems"(3,4) False u n
      by (simp add: gf_loop.simps [of i])
  qed
qed

lemma extend_exp:
  assumes "length e = 512" "\<forall>j<255. e ! j = (xt ^^ j) 1" "255 \<le> n" "n \<le> 512"
  shows "length (foldl (\<lambda>e i. e[i := e ! (i - 255)]) e [255..<n]) = 512 \<and>
    (\<forall>j<n. foldl (\<lambda>e i. e[i := e ! (i - 255)]) e [255..<n] ! j = (xt ^^ j) 1)"
  using assms(3,4)
proof (induction n rule: dec_induct)
  case base
  then show ?case using assms by simp
next
  case (step n)
  have "(xt ^^ (n - 255)) 1 = (xt ^^ n) 1"
    using xtn_mod [of n 1] xtn_mod [of "n - 255" 1] step.hyps by (simp add: le_mod_geq)
  then show ?case using step by (auto simp: nth_list_update less_Suc_eq)
qed

lemma gf_tables_ok:
  obtains e l where "gf_tables = (foldl (\<lambda>e i. e[i := e ! (i - 255)]) e [255..<512], l)" "tabs_ok 255 e l"
proof -
  obtain e l where el: "gf_loop 0 1 (replicate 512 0) (replicate 256 0) = (e, l)" by fastforce
  have "gf_tables = (foldl (\<lambda>e i. e[i := e ! (i - 255)]) e [255..<512], l)"
    unfolding gf_tables_def el Let_def by (simp only: prod.case)
  moreover have "tabs_ok 255 e l"
  proof (rule gf_loop_ok [OF _ _ _ el])
    show "tabs_ok 0 (replicate 512 0) (replicate 256 0)"
      unfolding tabs_ok_def length_replicate by blast
  qed simp_all
  ultimately show thesis by (rule that)
qed

lemma gf_exp_xt: "i < 512 \<Longrightarrow> gf_exp i = (xt ^^ i) 1"
proof -
  assume i: "i < 512"
  obtain e l where t: "gf_tables = (foldl (\<lambda>e i. e[i := e ! (i - 255)]) e [255..<512], l)" and ok: "tabs_ok 255 e l"
    by (rule gf_tables_ok)
  have e: "length e = 512" "\<forall>j<255. e ! j = (xt ^^ j) 1" using ok unfolding tabs_ok_def by blast+
  have "\<forall>j<512. foldl (\<lambda>e i. e[i := e ! (i - 255)]) e [255..<512] ! j = (xt ^^ j) 1"
    by (rule conjunct2 [OF extend_exp [OF e]]) simp_all
  then show ?thesis using i unfolding gf_exp_def t fst_conv by blast
qed

lemma gf_log_ok:
  assumes "a \<noteq> 0"
  shows "gf_log a < 255" "(xt ^^ gf_log a) 1 = a"
proof -
  obtain i where i: "i < 255" "(xt ^^ i) 1 = a" using xt_surj [OF assms] by blast
  obtain e l where t: "gf_tables = (foldl (\<lambda>e i. e[i := e ! (i - 255)]) e [255..<512], l)" and ok: "tabs_ok 255 e l"
    by (rule gf_tables_ok)
  have "gf_log a = i" using i ok unfolding gf_log_def t snd_conv tabs_ok_def by blast
  with i show "gf_log a < 255" "(xt ^^ gf_log a) 1 = a" by simp_all
qed

lemma gf_mul_xt: "b \<noteq> 0 \<Longrightarrow> gf_mul a b = (xt ^^ gf_log b) a"
proof (cases "a = 0")
  case False
  assume b: "b \<noteq> 0"
  have "gf_mul a b = (xt ^^ (gf_log a + gf_log b)) 1"
    using False b gf_log_ok [OF False] gf_log_ok [OF b] by (simp add: gf_mul_def gf_exp_xt)
  also have "\<dots> = (xt ^^ gf_log b) ((xt ^^ gf_log a) 1)" by (simp add: xtn_add add.commute)
  finally show ?thesis using gf_log_ok [OF False] by simp
qed (simp add: gf_mul_def)

lemma gf_mul_0 [simp]: "gf_mul a 0 = 0" "gf_mul 0 a = 0"
  by (simp_all add: gf_mul_def)

lemma gf_mul_commute: "gf_mul a b = gf_mul b a"
  by (simp add: gf_mul_def add.commute)

lemma gf_mul_xor: "gf_mul (a XOR b) c = gf_mul a c XOR gf_mul b c"
  by (cases "c = 0") (simp_all add: gf_mul_xt xtn_xor)

lemma gf_mul_assoc: "gf_mul (gf_mul a b) c = gf_mul a (gf_mul b c)"
proof (cases "b = 0 \<or> c = 0")
  case False
  have "gf_mul (gf_mul a b) c = (xt ^^ gf_log c) ((xt ^^ gf_log b) a)" using False by (simp add: gf_mul_xt)
  also have "\<dots> = (xt ^^ (gf_log b + gf_log c)) a" by (simp add: xtn_add add.commute)
  finally have l: "gf_mul (gf_mul a b) c = (xt ^^ ((gf_log b + gf_log c) mod 255)) a" by (simp add: xtn_mod [symmetric])
  have bc: "gf_mul b c = (xt ^^ ((gf_log b + gf_log c) mod 255)) 1"
    using False gf_log_ok [of b] gf_log_ok [of c] by (simp add: gf_mul_def gf_exp_xt xtn_mod [symmetric])
  then have nz: "gf_mul b c \<noteq> 0" using xtn_nonzero by simp
  have "gf_log (gf_mul b c) = (gf_log b + gf_log c) mod 255"
    using gf_log_ok [OF nz] bc inj_onD [OF xt_inj_on, of "gf_log (gf_mul b c)" "(gf_log b + gf_log c) mod 255"] by simp
  then show ?thesis using l nz by (simp add: gf_mul_xt)
qed auto

lemma gf_mul_1: "gf_mul a 1 = a"
proof -
  have "gf_log 1 = 0" using gf_log_ok [of 1] inj_onD [OF xt_inj_on, of "gf_log 1" 0] by simp
  then show ?thesis by (simp add: gf_mul_xt)
qed

lemma gf_mul_inv: "a \<noteq> 0 \<Longrightarrow> gf_mul (gf_inv a) a = 1"
  using gf_log_ok [of a] xt_255 by (simp add: gf_mul_xt gf_inv_def gf_exp_xt xtn_add)

section \<open>The field\<close>

datatype gf = Gf (un_gf: byte)

instantiation gf :: field
begin

definition zero_gf :: gf where "zero_gf = Gf 0"
definition one_gf :: gf where "one_gf = Gf 1"
definition plus_gf :: "gf \<Rightarrow> gf \<Rightarrow> gf" where "plus_gf a b = Gf (un_gf a XOR un_gf b)"
definition minus_gf :: "gf \<Rightarrow> gf \<Rightarrow> gf" where "minus_gf a b = Gf (un_gf a XOR un_gf b)"
definition uminus_gf :: "gf \<Rightarrow> gf" where "uminus_gf a = a"
definition times_gf :: "gf \<Rightarrow> gf \<Rightarrow> gf" where "times_gf a b = Gf (gf_mul (un_gf a) (un_gf b))"
definition inverse_gf :: "gf \<Rightarrow> gf" where
  "inverse_gf a = (if un_gf a = 0 then Gf 0 else Gf (gf_inv (un_gf a)))"
definition divide_gf :: "gf \<Rightarrow> gf \<Rightarrow> gf" where
  "divide_gf a b = Gf (gf_mul (un_gf a) (un_gf (inverse b)))"

instance
proof
  fix a b c :: gf
  show "a + b + c = a + (b + c)" by (simp add: plus_gf_def xor.assoc)
  show "a + b = b + a" by (simp add: plus_gf_def xor.commute)
  show "0 + a = a" by (simp add: plus_gf_def zero_gf_def)
  show "- a + a = 0" by (simp add: plus_gf_def zero_gf_def uminus_gf_def)
  show "a - b = a + - b" by (simp add: plus_gf_def minus_gf_def uminus_gf_def)
  show "a * b * c = a * (b * c)" by (simp add: times_gf_def gf_mul_assoc)
  show "a * b = b * a" by (simp add: times_gf_def gf_mul_commute)
  show "1 * a = a" by (simp add: times_gf_def one_gf_def gf_mul_commute [of 1] gf_mul_1)
  show "(a + b) * c = a * c + b * c" by (simp add: times_gf_def plus_gf_def gf_mul_xor)
  show "(0 :: gf) \<noteq> 1" by (simp add: zero_gf_def one_gf_def)
  show "inverse (0 :: gf) = 0" by (simp add: inverse_gf_def zero_gf_def)
  show "a \<noteq> 0 \<Longrightarrow> inverse a * a = 1"
    by (cases a) (simp add: inverse_gf_def times_gf_def zero_gf_def one_gf_def gf_mul_inv)
  show "a div b = a * inverse b" by (simp add: divide_gf_def times_gf_def)
qed

end

lemma gf_add_self [simp]: "(a :: gf) + a = 0"
  by (simp add: plus_gf_def zero_gf_def)

lemma gf_minus [simp]: "- (a :: gf) = a"
  by (simp add: uminus_gf_def)

lemma gf_inverse: "a \<noteq> 0 \<Longrightarrow> Gf (gf_inv (un_gf a)) = inverse a"
  by (cases a) (simp add: inverse_gf_def zero_gf_def)

lemma Gf_mul: "Gf (gf_mul a b) = Gf a * Gf b"
  by (simp add: times_gf_def)

lemma gf_pow_power: "Gf (gf_pow a n) = Gf a ^ n"
proof (cases "a = 0")
  case True
  then show ?thesis by (cases n) (simp_all add: gf_pow_def one_gf_def zero_gf_def [symmetric])
next
  case False
  have "Gf a ^ n = Gf ((xt ^^ (gf_log a * n)) 1)"
  proof (induction n)
    case (Suc n)
    then have "Gf a ^ Suc n = Gf (gf_mul ((xt ^^ (gf_log a * n)) 1) a)"
      by (simp add: Gf_mul mult.commute)
    also have "\<dots> = Gf ((xt ^^ (gf_log a + gf_log a * n)) 1)" using False by (simp add: gf_mul_xt xtn_add)
    finally show ?case by (simp add: add.commute)
  qed (simp add: one_gf_def)
  also have "\<dots> = Gf (gf_exp (gf_log a * n mod 255))"
    using gf_exp_xt [of "gf_log a * n mod 255"] xtn_mod [of "gf_log a * n" 1]
    by (simp add: less_le_trans [OF mod_less_divisor])
  finally show ?thesis using False by (auto simp: gf_pow_def one_gf_def)
qed

section \<open>Properties\<close>

text \<open>
  C17. The tables make a field of the bytes, with XOR as addition: multiplication is
  associative and commutative, distributes over XOR, has 1 as unit and an inverse for every
  byte but 0; the power function is repeated multiplication.
\<close>

theorem gf256_field:
  "gf_mul (gf_mul a b) c = gf_mul a (gf_mul b c) \<and> gf_mul a b = gf_mul b a \<and>
   gf_mul (a XOR b) c = gf_mul a c XOR gf_mul b c \<and> gf_mul a 1 = a \<and>
   (a = 0 \<or> gf_mul (gf_inv a) a = 1) \<and> gf_pow a 0 = 1 \<and> gf_pow a (Suc n) = gf_mul a (gf_pow a n)"
proof -
  have "Gf (gf_pow a (Suc n)) = Gf (gf_mul a (gf_pow a n))" by (simp add: gf_pow_power Gf_mul)
  then have "gf_pow a (Suc n) = gf_mul a (gf_pow a n)" by simp
  moreover have "a = 0 \<or> gf_mul (gf_inv a) a = 1" using gf_mul_inv by blast
  moreover have "gf_pow a 0 = 1" by (simp add: gf_pow_def)
  ultimately show ?thesis
    by (intro conjI gf_mul_assoc gf_mul_xor gf_mul_1 gf_mul_commute)
qed

text \<open>
  C18. The tables compute the product of polynomials over the two-element field modulo
  \<open>x^8 + x^4 + x^3 + x^2 + 1\<close>: multiplying by 2 is a shift with reduction, and a product is
  the sum of the shifts selected by the bits of one factor.
\<close>

theorem gf_mul_shift_and_add:
  "gf_mul a (push_bit 1 b XOR (if bit b 7 then 0x1d else 0))
     = (let p = gf_mul a b in push_bit 1 p XOR (if bit p 7 then 0x1d else 0)) \<and>
   gf_mul a (b XOR c) = gf_mul a b XOR gf_mul a c \<and> gf_mul a 1 = a"
proof -
  have "gf_mul a (xt b) = xt (gf_mul a b)"
  proof (cases "a = 0")
    case False
    then have "gf_mul a (xt b) = (xt ^^ gf_log a) (xt b)" by (simp add: gf_mul_commute [of a] gf_mul_xt)
    also have "\<dots> = xt ((xt ^^ gf_log a) b)" by (simp add: funpow_swap1)
    finally show ?thesis using False by (simp add: gf_mul_commute [of a] gf_mul_xt)
  qed simp
  then have "gf_mul a (push_bit 1 b XOR (if bit b 7 then 0x1d else 0))
     = (let p = gf_mul a b in push_bit 1 p XOR (if bit p 7 then 0x1d else 0))"
    unfolding xt_def and_0x80 Let_def .
  moreover have "gf_mul a (b XOR c) = gf_mul a b XOR gf_mul a c"
    using gf_mul_xor [of b c a] by (simp add: gf_mul_commute [of _ a])
  ultimately show ?thesis using gf_mul_1 by blast
qed

end
