(* ===== verification/Fec.thy ===== *)
theory Fec
  imports Gf256
begin

text \<open>
  Model of the erasure code of \<open>src/camera/tutk/Fec.cpp\<close>: Gauss-Jordan inversion, the rows of
  the systematic generator matrix, encoding of a parity block and recovery of lost data blocks.
  Bytes of blocks and matrix entries are field elements (\<open>gf\<close>); \<open>^=\<close> is their addition.
  The matrix under inversion and the growing inverse are kept as one list of pairs of rows,
  since the code swaps, scales and combines their rows together.
\<close>

section \<open>Inversion\<close>

type_synonym row = "gf list"
type_synonym aug_row = "row \<times> row"

definition scale_row :: "gf \<Rightarrow> aug_row \<Rightarrow> aug_row" where
  "scale_row f p = (map (\<lambda>x. x * f) (fst p), map (\<lambda>x. x * f) (snd p))"

text \<open>\<open>m[r][j] ^= g.mul(c, m[col][j])\<close> for every \<open>j\<close>, and the same for the inverse.\<close>

definition add_row :: "gf \<Rightarrow> aug_row \<Rightarrow> aug_row \<Rightarrow> aug_row" where
  "add_row c p q = (map2 (\<lambda>x y. x + c * y) (fst q) (fst p), map2 (\<lambda>x y. x + c * y) (snd q) (snd p))"

fun find_pivot :: "nat \<Rightarrow> nat \<Rightarrow> aug_row list \<Rightarrow> nat option" where
  "find_pivot col i [] = None"
| "find_pivot col i (p # ps) = (if col \<le> i \<and> fst p ! col \<noteq> 0 then Some i else find_pivot col (Suc i) ps)"

definition eliminate :: "nat \<Rightarrow> aug_row list \<Rightarrow> aug_row list" where
  "eliminate col a =
     map (\<lambda>r. if r = col \<or> fst (a ! r) ! col = 0 then a ! r else add_row (fst (a ! r) ! col) (a ! col) (a ! r))
       [0..<length a]"

definition invert_col :: "nat \<Rightarrow> aug_row list \<Rightarrow> aug_row list option" where
  "invert_col col a =
     (case find_pivot col 0 a of
        None \<Rightarrow> None
      | Some piv \<Rightarrow>
          (let b = a[piv := a ! col, col := a ! piv];
               f = Gf (gf_inv (un_gf (fst (b ! col) ! col)))
           in Some (eliminate col (b[col := scale_row f (b ! col)]))))"

lemma length_eliminate [simp]: "length (eliminate col a) = length a"
  by (simp add: eliminate_def)

lemma length_invert_col: "invert_col col a = Some b \<Longrightarrow> length b = length a"
  by (auto simp: invert_col_def Let_def split: option.splits)

text \<open>The loop over the columns from \<open>col\<close>; on a singular matrix it stops where it is.\<close>

function invert_cols :: "nat \<Rightarrow> aug_row list \<Rightarrow> bool \<times> aug_row list" where
  "invert_cols col a =
     (if length a \<le> col then (True, a)
      else (case invert_col col a of
         None \<Rightarrow> (False, a)
       | Some b \<Rightarrow> invert_cols (Suc col) b))"
  by pat_completeness auto
termination
  by (relation "measure (\<lambda>(col, a). length a - col)") (auto dest: length_invert_col)

declare invert_cols.simps [simp del]

definition unit_row :: "nat \<Rightarrow> nat \<Rightarrow> row" where
  "unit_row n i = (replicate n 0)[i := 1]"

text \<open>Success and the inverse, or failure and the matrix as far as it got.\<close>

definition invert :: "row list \<Rightarrow> bool \<times> row list" where
  "invert m =
     (let (ok, a) = invert_cols 0 (zip m (map (unit_row (length m)) [0..<length m]))
      in (ok, if ok then map snd a else map fst a))"

section \<open>The code\<close>

definition generator_row :: "nat \<Rightarrow> nat \<Rightarrow> row" where
  "generator_row k row =
     (if row < k then unit_row k row
      else let top = snd (invert (map (\<lambda>r. map (\<lambda>c. Gf (gf_pow (of_nat r) c)) [0..<k]) [0..<k]))
           in map (\<lambda>c. sum_list (map (\<lambda>j. Gf (gf_pow (of_nat row) j) * top ! j ! c) [0..<k])) [0..<k])"

definition fec_encode :: "gf list list \<Rightarrow> nat \<Rightarrow> gf list" where
  "fec_encode data row =
     (let k = length data; coef = generator_row k row
      in map (\<lambda>i. sum_list (map (\<lambda>c. coef ! c * data ! c ! i) [0..<k]))
           [0..<(if k = 0 then 0 else length (data ! 0))])"

definition recover :: "gf list list \<Rightarrow> nat \<Rightarrow> nat \<Rightarrow> bool \<times> gf list list" where
  "recover blocks k len =
     (if k = 0 \<or> length blocks < k \<or> 255 < k then (False, blocks)
      else let rows = take k (filter (\<lambda>i. length (blocks ! i) = len) [0..<length blocks])
           in if length rows < k then (False, blocks)
              else let (ok, m) = invert (map (generator_row k) rows)
                   in if \<not> ok then (False, blocks)
                      else (True,
                        map (\<lambda>d. if k \<le> d \<or> length (blocks ! d) = len then blocks ! d
                                  else map (\<lambda>i. sum_list (map (\<lambda>j. m ! d ! j * blocks ! (rows ! j) ! i) [0..<k]))
                                         [0..<len])
                          [0..<length blocks]))"

section \<open>Vectors\<close>

definition dot :: "gf list \<Rightarrow> gf list \<Rightarrow> gf" where
  "dot u v = sum_list (map2 (*) u v)"

definition mat_vec :: "row list \<Rightarrow> gf list \<Rightarrow> gf list" where
  "mat_vec m v = map (\<lambda>r. dot r v) m"

lemma dot_Nil [simp]: "dot [] v = 0" "dot u [] = 0"
  by (simp_all add: dot_def)

lemma dot_Cons [simp]: "dot (x # u) (y # v) = x * y + dot u v"
  by (simp add: dot_def)

lemma dot_scale: "dot (map (\<lambda>x. x * f) u) v = dot u v * f"
proof (induction u arbitrary: v)
  case (Cons x u)
  then show ?case by (cases v) (simp_all add: algebra_simps)
qed simp

lemma dot_add_scaled:
  "length u = length w \<Longrightarrow> dot (map2 (\<lambda>x y. x + c * y) u w) v = dot u v + c * dot w v"
proof (induction u w arbitrary: v rule: list_induct2)
  case (Cons x u y w)
  then show ?case by (cases v) (simp_all add: algebra_simps)
qed simp

lemma dot_zeros: "\<forall>x \<in> set u. x = 0 \<Longrightarrow> dot u v = 0"
proof (induction u arbitrary: v)
  case (Cons x u)
  then show ?case by (cases v) auto
qed simp

lemma dot_zeros_right: "\<forall>x \<in> set v. x = 0 \<Longrightarrow> dot u v = 0"
proof (induction v arbitrary: u)
  case (Cons x v)
  then show ?case by (cases u) auto
qed simp

lemma dot_unit: "i < n \<Longrightarrow> length v = n \<Longrightarrow> dot (unit_row n i) v = v ! i"
proof (induction n arbitrary: i v)
  case (Suc n)
  then obtain y w where v: "v = y # w" by (cases v) auto
  have z: "dot (replicate n 0) w = 0" by (rule dot_zeros) simp
  show ?case
  proof (cases i)
    case 0
    then show ?thesis using v z by (simp add: unit_row_def)
  next
    case (Suc j)
    then show ?thesis using Suc.prems Suc.IH [of j w] v by (simp add: unit_row_def)
  qed
qed simp

lemma dot_nth: "length u = length v \<Longrightarrow> dot u v = (\<Sum>i<length u. u ! i * v ! i)"
proof (induction u v rule: list_induct2)
  case (Cons x u y v)
  then show ?case by (simp add: sum.lessThan_Suc_shift del: sum.lessThan_Suc)
qed simp

lemma length_unit_row [simp]: "length (unit_row n i) = n"
  by (simp add: unit_row_def)

lemma sum_list_upt: "sum_list (map f [0..<n]) = (\<Sum>i<n. f i :: gf)"
  by (simp add: interv_sum_list_conv_sum_set_nat atLeast0LessThan)

section \<open>Row operations\<close>

definition aug_ok :: "nat \<Rightarrow> aug_row list \<Rightarrow> bool" where
  "aug_ok n a \<longleftrightarrow> length a = n \<and> (\<forall>p \<in> set a. length (fst p) = n \<and> length (snd p) = n)"

lemma aug_ok_row: "aug_ok n a \<Longrightarrow> r < n \<Longrightarrow> length (fst (a ! r)) = n \<and> length (snd (a ! r)) = n"
  by (simp add: aug_ok_def)

lemma find_pivot_Some:
  "find_pivot col i a = Some piv \<Longrightarrow> col \<le> piv \<and> i \<le> piv \<and> piv < i + length a \<and> fst (a ! (piv - i)) ! col \<noteq> 0"
proof (induction col i a rule: find_pivot.induct)
  case (2 col i p ps)
  show ?case
  proof (cases "col \<le> i \<and> fst p ! col \<noteq> 0")
    case False
    then have "Suc i \<le> piv" "col \<le> piv" "piv < Suc i + length ps" "fst (ps ! (piv - Suc i)) ! col \<noteq> 0"
      using 2 by (auto split: if_splits)
    then show ?thesis by (simp add: nth_Cons')
  qed (use 2 in auto)
qed simp

lemma find_pivot_None: "find_pivot col i a = None \<Longrightarrow> r < length a \<Longrightarrow> col \<le> i + r \<Longrightarrow> fst (a ! r) ! col = 0"
proof (induction col i a arbitrary: r rule: find_pivot.induct)
  case (2 col i p ps)
  then show ?case by (cases r) (auto split: if_splits)
qed simp

definition vanishes :: "(aug_row \<Rightarrow> gf) \<Rightarrow> aug_row list \<Rightarrow> bool" where
  "vanishes phi a \<longleftrightarrow> (\<forall>r < length a. phi (a ! r) = 0)"

text \<open>
  A linear functional on rows: it respects scaling and adding a multiple of another row. If it
  vanishes on all rows before a step of the inversion it does so after, and conversely.
\<close>

locale row_functional =
  fixes phi :: "aug_row \<Rightarrow> gf" and n :: nat
  assumes phi_scale: "phi (scale_row f p) = phi p * f"
    and phi_add: "length (fst p) = n \<Longrightarrow> length (snd p) = n \<Longrightarrow> length (fst q) = n \<Longrightarrow> length (snd q) = n \<Longrightarrow>
      phi (add_row c p q) = phi q + c * phi p"
begin

lemma vanishes_scale:
  "f \<noteq> 0 \<Longrightarrow> col < length a \<Longrightarrow> vanishes phi (a[col := scale_row f (a ! col)]) \<longleftrightarrow> vanishes phi a"
  by (auto simp: vanishes_def nth_list_update phi_scale)

lemma vanishes_eliminate:
  assumes "aug_ok n a" "col < n"
  shows "vanishes phi (eliminate col a) \<longleftrightarrow> vanishes phi a"
proof -
  have len: "length a = n" using assms(1) by (simp add: aug_ok_def)
  have phi: "phi (eliminate col a ! r) = (if r = col \<or> fst (a ! r) ! col = 0 then phi (a ! r)
      else phi (a ! r) + fst (a ! r) ! col * phi (a ! col))" if "r < n" for r
    using that assms aug_ok_row [OF assms(1) that] aug_ok_row [OF assms] len by (simp add: eliminate_def phi_add)
  have c: "phi (eliminate col a ! col) = phi (a ! col)" using phi [OF assms(2)] by simp
  show ?thesis
    unfolding vanishes_def length_eliminate len
    by (metis (no_types, lifting) c phi assms(2) add.right_neutral mult_zero_right)
qed

lemma vanishes_swap:
  assumes "i < length a" "j < length a"
  shows "vanishes phi (a[i := a ! j, j := a ! i]) \<longleftrightarrow> vanishes phi a"
proof -
  have "(\<forall>p \<in> set (a[i := a ! j, j := a ! i]). phi p = 0) \<longleftrightarrow> (\<forall>p \<in> set a. phi p = 0)"
    by (simp add: set_swap assms)
  then show ?thesis by (simp add: vanishes_def all_set_conv_all_nth)
qed

end

lemma scale_add_length [simp]:
  "length (fst (scale_row f p)) = length (fst p)" "length (snd (scale_row f p)) = length (snd p)"
  "length (fst (add_row c p q)) = min (length (fst q)) (length (fst p))"
  "length (snd (add_row c p q)) = min (length (snd q)) (length (snd p))"
  by (simp_all add: scale_row_def add_row_def)

lemma aug_ok_swap: "aug_ok n a \<Longrightarrow> i < n \<Longrightarrow> j < n \<Longrightarrow> aug_ok n (a[i := a ! j, j := a ! i])"
  by (simp add: aug_ok_def set_swap)

lemma aug_ok_scale: "aug_ok n a \<Longrightarrow> i < n \<Longrightarrow> aug_ok n (a[i := scale_row f (a ! i)])"
  by (auto simp: aug_ok_def dest!: subsetD [OF set_update_subset_insert])

lemma aug_ok_eliminate: "aug_ok n a \<Longrightarrow> col < n \<Longrightarrow> aug_ok n (eliminate col a)"
  by (auto simp: aug_ok_def eliminate_def)

text \<open>The columns before \<open>col\<close> are those of the identity.\<close>

definition cols_done :: "nat \<Rightarrow> nat \<Rightarrow> aug_row list \<Rightarrow> bool" where
  "cols_done n col a \<longleftrightarrow> (\<forall>r < n. \<forall>j < col. fst (a ! r) ! j = (if r = j then 1 else 0))"

lemma invert_col_cases:
  assumes "aug_ok n a" "col < n" "invert_col col a = Some b"
  obtains piv c f where "find_pivot col 0 a = Some piv" "col \<le> piv" "piv < n" "fst (a ! piv) ! col \<noteq> 0"
    "c = a[piv := a ! col, col := a ! piv]" "f \<noteq> 0" "fst (a ! piv) ! col * f = 1"
    "b = eliminate col (c[col := scale_row f (c ! col)])" "aug_ok n c" "aug_ok n (c[col := scale_row f (c ! col)])"
proof -
  obtain piv where p: "find_pivot col 0 a = Some piv"
    using assms(3) by (auto simp: invert_col_def split: option.splits)
  define c where "c = a[piv := a ! col, col := a ! piv]"
  have len: "length a = n" using assms(1) by (simp add: aug_ok_def)
  note pv = find_pivot_Some [OF p]
  have cc: "c ! col = a ! piv" using pv assms(2) len by (simp add: c_def)
  define f where "f = Gf (gf_inv (un_gf (fst (a ! piv) ! col)))"
  have f: "f = inverse (fst (a ! piv) ! col)" using pv by (simp add: f_def gf_inverse)
  have b: "b = eliminate col (c[col := scale_row f (c ! col)])"
    using assms(3) p cc unfolding invert_col_def c_def f_def Let_def by simp
  have ok: "aug_ok n c" unfolding c_def using pv len assms by (intro aug_ok_swap) auto
  show thesis
    using that [OF p _ _ _ c_def _ _ b ok aug_ok_scale [OF ok assms(2)]] pv len f by simp
qed

lemma invert_col_ok:
  assumes "aug_ok n a" "col < n" "cols_done n col a" "invert_col col a = Some b"
  shows "aug_ok n b" "cols_done n (Suc col) b"
proof -
  obtain piv c f where p: "col \<le> piv" "piv < n" and c: "c = a[piv := a ! col, col := a ! piv]"
    and f: "fst (a ! piv) ! col * f = 1" and b: "b = eliminate col (c[col := scale_row f (c ! col)])"
    and ok: "aug_ok n c" "aug_ok n (c[col := scale_row f (c ! col)])"
    using invert_col_cases [OF assms(1,2,4)] by metis
  show "aug_ok n b" unfolding b by (rule aug_ok_eliminate [OF ok(2) assms(2)])
  define d where "d = c[col := scale_row f (c ! col)]"
  note b = b [folded d_def] and ok = ok [folded d_def]
  have len: "length a = n" "length c = n" "length d = n" using assms(1) ok by (simp_all add: aug_ok_def)
  have dn: "d ! r = (if r = col then scale_row f (c ! col) else c ! r)" if "r < n" for r
    using that len by (auto simp: d_def)
  have cn: "c ! r = (if r = col then a ! piv else if r = piv then a ! col else a ! r)" if "r < n" for r
    using that p assms(2) len by (auto simp: c nth_list_update)
  have c0: "fst (c ! r) ! j = (if r = j then 1 else 0)" if "r < n" "j < col" for r j
    using that cn [OF that(1)] assms(2,3) p by (auto simp: cols_done_def)
  have d0: "fst (d ! r) ! j = (if r = j then 1 else 0)" if "r < n" "j < col" for r j
  proof (cases "r = col")
    case True
    have "fst (c ! col) ! j = 0" using c0 [of col j] that assms(2) by simp
    moreover have "j < length (fst (c ! col))" using aug_ok_row [OF ok(1) assms(2)] that assms(2) by simp
    ultimately show ?thesis using True that dn [OF assms(2)] by (simp add: scale_row_def)
  next
    case False
    then show ?thesis using c0 [OF that] dn [OF that(1)] by simp
  qed
  have dcc: "fst (d ! col) ! col = 1"
    using f cn [OF assms(2)] aug_ok_row [OF ok(1) assms(2)] dn [OF assms(2)] assms(2) by (simp add: scale_row_def)
  show "cols_done n (Suc col) b"
    unfolding cols_done_def
  proof (intro allI impI)
    fix r j assume r: "r < n" and j: "j < Suc col"
    have lr: "length (fst (d ! r)) = n" "length (fst (d ! col)) = n"
      using aug_ok_row [OF ok(2) r] aug_ok_row [OF ok(2) assms(2)] by auto
    have br: "b ! r = (if r = col \<or> fst (d ! r) ! col = 0 then d ! r else add_row (fst (d ! r) ! col) (d ! col) (d ! r))"
      using r len unfolding b eliminate_def by simp
    have el: "fst (add_row (fst (d ! r) ! col) (d ! col) (d ! r)) ! j
        = fst (d ! r) ! j + fst (d ! r) ! col * fst (d ! col) ! j"
      using lr j assms(2) unfolding add_row_def by simp
    show "fst (b ! r) ! j = (if r = j then 1 else 0)"
    proof (cases "j = col")
      case True
      then show ?thesis using br el dcc by (auto split: if_splits)
    next
      case False
      then have "j < col" using j by simp
      then show ?thesis using br el d0 [OF r] d0 [OF assms(2)] by auto
    qed
  qed
qed

context row_functional
begin

lemma vanishes_invert_col:
  assumes "aug_ok n a" "col < n" "invert_col col a = Some b"
  shows "vanishes phi b \<longleftrightarrow> vanishes phi a"
proof -
  obtain piv c f where p: "piv < n" and c: "c = a[piv := a ! col, col := a ! piv]" and f: "f \<noteq> 0"
    and b: "b = eliminate col (c[col := scale_row f (c ! col)])"
    and ok: "aug_ok n c" "aug_ok n (c[col := scale_row f (c ! col)])"
    using invert_col_cases [OF assms] by metis
  have len: "length a = n" "length c = n" using assms(1) ok(1) by (simp_all add: aug_ok_def)
  have "vanishes phi b \<longleftrightarrow> vanishes phi (c[col := scale_row f (c ! col)])"
    unfolding b by (rule vanishes_eliminate [OF ok(2) assms(2)])
  also have "\<dots> \<longleftrightarrow> vanishes phi c" using f len assms(2) by (intro vanishes_scale) simp_all
  also have "\<dots> \<longleftrightarrow> vanishes phi a" unfolding c using p len assms(2) by (intro vanishes_swap) simp_all
  finally show ?thesis .
qed

lemma vanishes_invert_cols:
  "aug_ok n a \<Longrightarrow> cols_done n col a \<Longrightarrow> invert_cols col a = (True, b) \<Longrightarrow>
   aug_ok n b \<and> cols_done n n b \<and> (vanishes phi b \<longleftrightarrow> vanishes phi a)"
proof (induction col a rule: invert_cols.induct)
  case (1 col a)
  have len: "length a = n" using "1.prems"(1) by (simp add: aug_ok_def)
  show ?case
  proof (cases "n \<le> col")
    case True
    then show ?thesis using "1.prems" len by (auto simp: invert_cols.simps [of col a] cols_done_def)
  next
    case False
    then obtain c where c: "invert_col col a = Some c"
      using "1.prems"(3) len by (auto simp: invert_cols.simps [of col a] split: option.splits)
    note ok = invert_col_ok [OF "1.prems"(1) _ "1.prems"(2) c]
    have "invert_cols (Suc col) c = (True, b)"
      using "1.prems"(3) c False len by (simp add: invert_cols.simps [of col a])
    then show ?thesis
      using "1.IH" [OF _ c] ok False len vanishes_invert_col [OF "1.prems"(1) _ c] by simp
  qed
qed

end

lemma functional_fst: "row_functional (\<lambda>p. dot (fst p) v) n"
  by unfold_locales (simp_all add: scale_row_def add_row_def dot_scale dot_add_scaled)

lemma functional_snd: "row_functional (\<lambda>p. dot (snd p) v) n"
  by unfold_locales (simp_all add: scale_row_def add_row_def dot_scale dot_add_scaled)

interpretation mrow: row_functional "\<lambda>p. dot (fst p) v" n for v n
  by (rule functional_fst)

interpretation irow: row_functional "\<lambda>p. dot (snd p) v" n for v n
  by (rule functional_snd)

interpretation both: row_functional "\<lambda>p. dot (fst p) v + dot (snd p) w" n for v w n
  by unfold_locales
    (simp_all add: scale_row_def add_row_def dot_scale dot_add_scaled, simp_all add: algebra_simps)

section \<open>Inversion of a matrix without kernel\<close>

definition no_kernel :: "nat \<Rightarrow> row list \<Rightarrow> bool" where
  "no_kernel n m \<longleftrightarrow> (\<forall>v. length v = n \<longrightarrow> (\<forall>r \<in> set m. dot r v = 0) \<longrightarrow> (\<forall>x \<in> set v. x = 0))"

lemma kernel_vector:
  assumes "aug_ok n a" "col < n" "cols_done n col a" "find_pivot col 0 a = None"
  shows "\<not> no_kernel n (map fst a)"
proof -
  let ?m = "\<lambda>r i. fst (a ! r) ! i"
  define v where "v = map (\<lambda>i. if i < col then ?m i col else if i = col then 1 else 0) [0..<n]"
  have len: "length a = n" using assms(1) by (simp add: aug_ok_def)
  have "dot (fst (a ! r)) v = 0" if r: "r < n" for r
  proof -
    have "dot (fst (a ! r)) v = (\<Sum>i<n. ?m r i * v ! i)"
      using dot_nth [of "fst (a ! r)" v] aug_ok_row [OF assms(1) r] by (simp add: v_def)
    also have "\<dots> = (\<Sum>i<Suc col. ?m r i * v ! i)"
      using assms(2) by (intro sum.mono_neutral_right) (auto simp: v_def)
    also have "\<dots> = (\<Sum>i<col. (if r = i then 1 else 0) * ?m i col) + ?m r col"
      using assms(2,3) r by (simp add: v_def cols_done_def)
    also have "\<dots> = 0"
    proof (cases "r < col")
      case True
      have "(\<Sum>i<col. (if r = i then 1 else 0) * ?m i col) = ?m r col"
        using True by (simp add: sum.If_cases if_distrib [of "\<lambda>x. x * _"] cong: if_cong)
      then show ?thesis by simp
    next
      case False
      then have "(\<Sum>i<col. (if r = i then 1 else 0) * ?m i col) = 0" by (intro sum.neutral) auto
      then show ?thesis using find_pivot_None [OF assms(4), of r] False r len by simp
    qed
    finally show ?thesis .
  qed
  moreover have "length v = n" "v ! col = 1" using assms(2) by (simp_all add: v_def)
  ultimately show ?thesis using assms(2) len unfolding no_kernel_def
    by (auto simp: all_set_conv_all_nth intro!: exI [of _ v])
qed

lemma no_kernel_vanishes:
  assumes "aug_ok n a"
  shows "no_kernel n (map fst a) \<longleftrightarrow> (\<forall>v. length v = n \<longrightarrow> vanishes (\<lambda>p. dot (fst p) v) a \<longrightarrow> (\<forall>x \<in> set v. x = 0))"
  by (simp add: no_kernel_def vanishes_def all_set_conv_all_nth)

lemma invert_cols_succeeds:
  "aug_ok n a \<Longrightarrow> cols_done n col a \<Longrightarrow> no_kernel n (map fst a) \<Longrightarrow> \<exists>b. invert_cols col a = (True, b)"
proof (induction col a rule: invert_cols.induct)
  case (1 col a)
  have len: "length a = n" using "1.prems"(1) by (simp add: aug_ok_def)
  show ?case
  proof (cases "n \<le> col")
    case True
    then show ?thesis using len by (simp add: invert_cols.simps [of col a])
  next
    case False
    then have col: "col < n" by simp
    have "find_pivot col 0 a \<noteq> None" using kernel_vector [OF "1.prems"(1) col "1.prems"(2)] "1.prems"(3) by blast
    then obtain c where c: "invert_col col a = Some c"
      by (auto simp: invert_col_def Let_def)
    note ok = invert_col_ok [OF "1.prems"(1) col "1.prems"(2) c]
    have "no_kernel n (map fst c)"
      using "1.prems"(3) mrow.vanishes_invert_col [OF "1.prems"(1) col c]
      unfolding no_kernel_vanishes [OF "1.prems"(1)] no_kernel_vanishes [OF ok(1)] by blast
    then show ?thesis using "1.IH" [OF _ c] ok c False len by (simp add: invert_cols.simps [of col a])
  qed
qed

lemma mat_vec_nth [simp]: "r < length m \<Longrightarrow> mat_vec m v ! r = dot (m ! r) v"
  by (simp add: mat_vec_def)

lemma length_mat_vec [simp]: "length (mat_vec m v) = length m"
  by (simp add: mat_vec_def)

definition vadd :: "gf list \<Rightarrow> gf list \<Rightarrow> gf list" where
  "vadd u v = map2 (+) u v"

lemma dot_vadd: "length u = length v \<Longrightarrow> dot r (vadd u v) = dot r u + dot r v"
proof (induction u v arbitrary: r rule: list_induct2)
  case (Cons x u y v)
  then show ?case by (cases r) (simp_all add: vadd_def algebra_simps)
qed (simp add: vadd_def)

text \<open>Both one-sided inverses, as maps on vectors.\<close>

definition inverse_of :: "nat \<Rightarrow> row list \<Rightarrow> row list \<Rightarrow> bool" where
  "inverse_of n m s \<longleftrightarrow> length s = n \<and> (\<forall>r \<in> set s. length r = n) \<and>
     (\<forall>v. length v = n \<longrightarrow> mat_vec s (mat_vec m v) = v \<and> mat_vec m (mat_vec s v) = v)"

lemma invert_correct:
  assumes "length m = n" "\<forall>r \<in> set m. length r = n" "no_kernel n m"
  shows "\<exists>s. invert m = (True, s) \<and> inverse_of n m s"
proof -
  define a where "a = zip m (map (unit_row n) [0..<n])"
  have an: "a ! r = (m ! r, unit_row n r)" if "r < n" for r using that assms(1) by (simp add: a_def)
  have ok: "aug_ok n a" using assms(1,2) by (auto simp: aug_ok_def a_def in_set_zip)
  have fa: "map fst a = m" using assms(1) by (simp add: a_def)
  have d0: "cols_done n 0 a" by (simp add: cols_done_def)
  obtain b where b: "invert_cols 0 a = (True, b)"
    using invert_cols_succeeds [OF ok d0] assms(3) fa by auto
  have okb: "aug_ok n b" "cols_done n n b" using mrow.vanishes_invert_cols [OF ok d0 b] by blast+
  have lens: "length a = n" "length b = n" using ok okb(1) by (simp_all add: aug_ok_def)
  define s where "s = map snd b"
  have inv: "invert m = (True, s)" using b assms(1) by (simp add: invert_def a_def [symmetric] s_def)
  have ls: "length s = n" "\<forall>r \<in> set s. length r = n" using okb(1) by (auto simp: s_def aug_ok_def)
  have fb: "fst (b ! r) = unit_row n r" if "r < n" for r
    using that okb(2) aug_ok_row [OF okb(1) that]
    by (intro nth_equalityI) (auto simp: cols_done_def unit_row_def nth_list_update)
  have left: "mat_vec s (mat_vec m v) = v" if v: "length v = n" for v
  proof -
    have "vanishes (\<lambda>p. dot (fst p) v + dot (snd p) (mat_vec m v)) a"
      using an lens v assms(1) by (simp add: vanishes_def dot_unit)
    then have "vanishes (\<lambda>p. dot (fst p) v + dot (snd p) (mat_vec m v)) b"
      using both.vanishes_invert_cols [OF ok d0 b] by blast
    then have "v ! r + dot (s ! r) (mat_vec m v) = 0" if "r < n" for r
      using that lens fb v by (simp add: vanishes_def dot_unit s_def)
    then have "dot (s ! r) (mat_vec m v) = v ! r" if "r < n" for r
      using that by (metis add_eq_0_iff2 gf_minus)
    then show ?thesis using v ls by (intro nth_equalityI) auto
  qed
  have ker: "\<forall>x \<in> set w. x = 0" if w: "length w = n" and z: "\<forall>x \<in> set (mat_vec s w). x = 0" for w
  proof -
    have "vanishes (\<lambda>p. dot (snd p) w) b" using z lens by (auto simp: vanishes_def s_def mat_vec_def)
    then have "vanishes (\<lambda>p. dot (snd p) w) a" using irow.vanishes_invert_cols [OF ok d0 b] by blast
    then show ?thesis using an lens w by (auto simp: vanishes_def dot_unit all_set_conv_all_nth)
  qed
  have right: "mat_vec m (mat_vec s v) = v" if v: "length v = n" for v
  proof -
    let ?u = "mat_vec m (mat_vec s v)"
    have lu: "length ?u = n" using assms(1) by simp
    have "dot (s ! r) (vadd ?u v) = 0" if "r < n" for r
    proof -
      have "dot (s ! r) ?u = mat_vec s ?u ! r" using that ls by simp
      also have "\<dots> = dot (s ! r) v" using left [of "mat_vec s v"] that ls by simp
      finally show ?thesis using dot_vadd [of ?u v "s ! r"] lu v by simp
    qed
    then have "\<forall>x \<in> set (mat_vec s (vadd ?u v)). x = 0" using ls by (auto simp: all_set_conv_all_nth)
    then have "\<forall>x \<in> set (vadd ?u v). x = 0" using ker [of "vadd ?u v"] lu v by (simp add: vadd_def)
    then have "?u ! r + v ! r = 0" if "r < n" for r
      using that lu v by (auto simp: vadd_def all_set_conv_all_nth)
    then have "?u ! r = v ! r" if "r < n" for r using that by (metis add_eq_0_iff2 gf_minus)
    then show ?thesis using lu v by (intro nth_equalityI) auto
  qed
  show ?thesis using inv ls left right unfolding inverse_of_def by blast
qed

section \<open>Polynomials and Vandermonde rows\<close>

fun peval :: "gf list \<Rightarrow> gf \<Rightarrow> gf" where
  "peval [] x = 0"
| "peval (c # cs) x = c + x * peval cs x"

text \<open>The quotient of the division by \<open>x - a\<close>.\<close>

fun quot :: "gf \<Rightarrow> gf list \<Rightarrow> gf list" where
  "quot a [] = []"
| "quot a (c # cs) = peval (c # cs) a # quot a cs"

lemma length_quot [simp]: "length (quot a cs) = length cs"
  by (induction cs) auto

lemma peval_divide: "peval (c # cs) x = (x - a) * peval (quot a cs) x + peval (c # cs) a"
proof (induction cs arbitrary: c)
  case (Cons d ds)
  have ring: "c + x * ((x - a) * q + p) = (x - a) * (p + x * q) + (c + a * p)" for q p
    by (simp add: algebra_simps del: gf_minus)
  show ?case
    unfolding peval.simps(2) [of c] quot.simps(2) Cons.IH [of d]
    unfolding peval.simps(2) [of "peval (d # ds) a"] by (rule ring)
qed simp

lemma quot_zero: "\<forall>x \<in> set (quot a cs). x = 0 \<Longrightarrow> \<forall>x \<in> set cs. x = 0"
proof (induction cs)
  case (Cons c cs)
  then have "\<forall>x \<in> set cs. x = 0" by simp
  moreover from this have "peval cs a = 0" by (induction cs) auto
  ultimately show ?case using Cons.prems by simp
qed simp

lemma roots_zero:
  "distinct xs \<Longrightarrow> length xs = length cs \<Longrightarrow> \<forall>x \<in> set xs. peval cs x = 0 \<Longrightarrow> \<forall>c \<in> set cs. c = 0"
proof (induction "length cs" arbitrary: cs xs)
  case (Suc n)
  obtain c ds where cs: "cs = c # ds" using Suc.hyps(2) by (cases cs) auto
  obtain a ys where xs: "xs = a # ys" using Suc.prems(2) Suc.hyps(2) by (cases xs) auto
  have a: "peval (c # ds) a = 0" using Suc.prems(3) cs xs by simp
  have "peval (quot a ds) y = 0" if "y \<in> set ys" for y
  proof -
    have y: "peval (c # ds) y = 0" using Suc.prems(3) cs xs that by auto
    have "(y - a) * peval (quot a ds) y = 0"
      using peval_divide [of c ds y a] unfolding y a by simp
    moreover have "y - a \<noteq> 0" using Suc.prems(1) xs that by auto
    ultimately show ?thesis by simp
  qed
  then have "\<forall>x \<in> set (quot a ds). x = 0"
    using Suc.hyps(1) [of "quot a ds" ys] Suc.hyps(2) Suc.prems cs xs by simp
  then have "\<forall>x \<in> set ds. x = 0" by (rule quot_zero)
  moreover from this have "peval ds a = 0" by (induction ds) auto
  ultimately show ?case using a cs by simp
qed simp

definition vander :: "nat \<Rightarrow> gf \<Rightarrow> row" where
  "vander k x = map (\<lambda>c. x ^ c) [0..<k]"

lemma peval_sum: "peval cs x = (\<Sum>i<length cs. x ^ i * cs ! i)"
proof (induction cs)
  case (Cons c cs)
  then show ?case by (simp add: sum.lessThan_Suc_shift sum_distrib_left mult.assoc del: sum.lessThan_Suc)
qed simp

lemma dot_vander: "length v = k \<Longrightarrow> dot (vander k x) v = peval v x"
  by (simp add: dot_nth peval_sum vander_def)

definition point :: "nat \<Rightarrow> gf" where
  "point r = Gf (of_nat r)"

lemma point_inject: "r < 256 \<Longrightarrow> s < 256 \<Longrightarrow> point r = point s \<longleftrightarrow> r = s"
  by (simp add: point_def of_nat_eq_iff take_bit_nat_eq_self word_of_nat_eq_iff)

section \<open>The generator\<close>

definition top_matrix :: "nat \<Rightarrow> row list" where
  "top_matrix k = map (\<lambda>r. vander k (point r)) [0..<k]"

lemma top_matrix_code: "map (\<lambda>r. map (\<lambda>c. Gf (gf_pow (of_nat r) c)) [0..<k]) [0..<k] = top_matrix k"
  by (simp add: top_matrix_def vander_def point_def gf_pow_power)

lemma no_kernel_points:
  assumes "distinct rows" "length rows = k" "\<forall>r \<in> set rows. r < 256"
    and "\<And>v. length v = k \<Longrightarrow> length (f v) = k"
    and "\<And>v. length v = k \<Longrightarrow> \<forall>x \<in> set (f v). x = 0 \<Longrightarrow> \<forall>x \<in> set v. x = 0"
    and "\<And>r v. r \<in> set rows \<Longrightarrow> length v = k \<Longrightarrow> dot (g r) v = peval (f v) (point r)"
  shows "no_kernel k (map g rows)"
  unfolding no_kernel_def
proof (intro allI impI)
  fix v :: "gf list" assume v: "length v = k" "\<forall>r \<in> set (map g rows). dot r v = 0"
  have "inj_on point (set rows)" 
  proof (rule inj_onI)
    fix x y assume "x \<in> set rows" "y \<in> set rows" "point x = point y"
    then show "x = y" using point_inject [of x y] assms(3) by blast
  qed
  then have d: "distinct (map point rows)" using assms(1) by (simp only: distinct_map)
  have z: "\<forall>x \<in> set (map point rows). peval (f v) x = 0"
  proof
    fix x assume "x \<in> set (map point rows)"
    then obtain r where r: "r \<in> set rows" "x = point r" by auto
    then show "peval (f v) x = 0" using v(2) assms(6) [OF r(1) v(1)] by simp
  qed
  have l: "length (map point rows) = length (f v)"
    unfolding length_map assms(2) assms(4) [OF v(1)] by (rule refl)
  show "\<forall>x \<in> set v. x = 0" by (rule assms(5) [OF v(1) roots_zero [OF d l z]])
qed

lemma top_inverse:
  assumes "k \<le> 256"
  obtains s where "invert (top_matrix k) = (True, s)" "inverse_of k (top_matrix k) s"
proof -
  have "no_kernel k (map (\<lambda>r. vander k (point r)) [0..<k])"
    by (rule no_kernel_points [where f = "\<lambda>v. v"]) (use assms in \<open>auto simp: dot_vander\<close>)
  then have "no_kernel k (top_matrix k)" by (simp add: top_matrix_def)
  moreover have "length (top_matrix k) = k" "\<forall>r \<in> set (top_matrix k). length r = k"
    by (auto simp: top_matrix_def vander_def)
  ultimately show thesis using invert_correct [of "top_matrix k" k] that by blast
qed

lemma length_generator_row [simp]: "length (generator_row k row) = k"
  by (simp add: generator_row_def Let_def)

text \<open>
  The generator evaluates, at the point of the row, the polynomial of degree less than \<open>k\<close>
  that takes the data as its values at the first \<open>k\<close> points.
\<close>

lemma generator_row_dot:
  assumes "k \<le> 256" "invert (top_matrix k) = (True, s)" "inverse_of k (top_matrix k) s" "length v = k"
  shows "dot (generator_row k row) v = peval (mat_vec s v) (point row)"
proof (cases "row < k")
  case True
  have "v ! row = mat_vec (top_matrix k) (mat_vec s v) ! row"
    using assms(3,4) by (simp add: inverse_of_def)
  also have "\<dots> = dot (vander k (point row)) (mat_vec s v)" using True by (simp add: top_matrix_def)
  also have "\<dots> = peval (mat_vec s v) (point row)" using assms(3) by (simp add: dot_vander inverse_of_def)
  finally show ?thesis using True assms(4) by (simp add: generator_row_def dot_unit)
next
  case False
  have ls: "length s = k" "\<And>j. j < k \<Longrightarrow> length (s ! j) = k" using assms(3) by (auto simp: inverse_of_def)
  let ?x = "point row"
  have g: "generator_row k row ! c = (\<Sum>j<k. ?x ^ j * s ! j ! c)" if "c < k" for c
    unfolding generator_row_def Let_def top_matrix_code
    using False that assms(2) by (simp add: gf_pow_power point_def sum_list_upt)
  have "dot (generator_row k row) v = (\<Sum>c<k. (\<Sum>j<k. ?x ^ j * s ! j ! c) * v ! c)"
    using dot_nth [of "generator_row k row" v] assms(4) g by simp
  also have "\<dots> = (\<Sum>j<k. \<Sum>c<k. ?x ^ j * (s ! j ! c * v ! c))"
    unfolding sum_distrib_right by (subst sum.swap) (simp add: mult.assoc)
  also have "\<dots> = (\<Sum>j<k. ?x ^ j * dot (s ! j) v)"
    using ls assms(4) by (simp add: dot_nth sum_distrib_left)
  also have "\<dots> = peval (mat_vec s v) ?x" using ls by (simp add: peval_sum)
  finally show ?thesis .
qed

lemma generator_invertible:
  assumes "k \<le> 256" "distinct rows" "length rows = k" "\<forall>r \<in> set rows. r < 256"
  obtains s where "invert (map (generator_row k) rows) = (True, s)" "inverse_of k (map (generator_row k) rows) s"
proof -
  obtain t where t: "invert (top_matrix k) = (True, t)" "inverse_of k (top_matrix k) t"
    using top_inverse [OF assms(1)] by blast
  have "\<forall>x \<in> set v. x = 0" if v: "length v = k" "\<forall>x \<in> set (mat_vec t v). x = 0" for v
  proof -
    have "v = mat_vec (top_matrix k) (mat_vec t v)" using t(2) v(1) by (simp add: inverse_of_def)
    moreover have "\<forall>x \<in> set (mat_vec m (mat_vec t v)). x = 0" for m
      using dot_zeros_right [OF v(2)] by (auto simp: mat_vec_def)
    ultimately show ?thesis by metis
  qed
  then have "no_kernel k (map (generator_row k) rows)"
    using assms generator_row_dot [OF assms(1) t] t(2)
    by (intro no_kernel_points [where f = "mat_vec t"]) (auto simp: inverse_of_def)
  then show thesis using invert_correct [of "map (generator_row k) rows" k] assms(3) that by auto
qed

section \<open>Recovery\<close>

text \<open>Block \<open>i\<close> of a group: data, then parity.\<close>

definition group_block :: "gf list list \<Rightarrow> nat \<Rightarrow> gf list" where
  "group_block data i = (if i < length data then data ! i else fec_encode data i)"

lemma encode_nth:
  assumes "\<forall>b \<in> set data. length b = len" "data \<noteq> []" "i < len"
  shows "fec_encode data row ! i = dot (generator_row (length data) row) (map (\<lambda>b. b ! i) data)"
    "length (fec_encode data row) = len"
  using assms by (simp_all add: fec_encode_def Let_def sum_list_upt dot_nth)

lemma length_encode: "\<forall>b \<in> set data. length b = len \<Longrightarrow> data \<noteq> [] \<Longrightarrow> length (fec_encode data row) = len"
  by (simp add: fec_encode_def Let_def)

lemma group_block_nth:
  assumes "\<forall>b \<in> set data. length b = len" "data \<noteq> []" "i < len"
  shows "group_block data row ! i = dot (generator_row (length data) row) (map (\<lambda>b. b ! i) data)"
proof (cases "row < length data")
  case True
  then show ?thesis using dot_unit [of row "length data" "map (\<lambda>b. b ! i) data"]
    by (simp add: group_block_def generator_row_def)
next
  case False
  then show ?thesis using encode_nth(1) [OF assms] by (simp add: group_block_def)
qed

lemma recover_ok:
  assumes k: "0 < k" "k \<le> 255" "length data = k" and data: "\<forall>b \<in> set data. length b = len"
    and n: "length blocks \<le> 256"
    and blocks: "\<forall>i < length blocks. length (blocks ! i) = len \<longrightarrow> blocks ! i = group_block data i"
    and enough: "k \<le> length (filter (\<lambda>i. length (blocks ! i) = len) [0..<length blocks])"
  shows "\<exists>out. recover blocks k len = (True, out) \<and> take k out = data \<and> drop k out = drop k blocks"
proof -
  define rows where "rows = take k (filter (\<lambda>i. length (blocks ! i) = len) [0..<length blocks])"
  have lr: "length rows = k" using enough by (simp add: rows_def)
  have rs: "r < length blocks" "length (blocks ! r) = len" if "r \<in> set rows" for r
    using in_set_takeD [OF that [unfolded rows_def]] by simp_all
  have dr: "distinct rows" by (simp add: rows_def distinct_filter)
  have kb: "k \<le> length blocks"
    using enough length_filter_le [of "\<lambda>i. length (blocks ! i) = len" "[0..<length blocks]"] by simp
  have small: "k \<le> 256" "\<forall>r \<in> set rows. r < 256" using k n rs by (auto dest: less_le_trans)
  obtain s where s: "invert (map (generator_row k) rows) = (True, s)"
      "inverse_of k (map (generator_row k) rows) s"
    using generator_invertible [OF small(1) dr lr small(2)] by blast
  have ls: "length s = k" "\<And>d. d < k \<Longrightarrow> length (s ! d) = k" using s(2) by (auto simp: inverse_of_def)
  have ne: "data \<noteq> []" using k by auto
  have restore: "(\<Sum>j<k. s ! d ! j * blocks ! (rows ! j) ! i) = data ! d ! i" if "d < k" "i < len" for d i
  proof -
    let ?v = "map (\<lambda>b. b ! i) data"
    have "blocks ! (rows ! j) ! i = mat_vec (map (generator_row k) rows) ?v ! j" if "j < k" for j
      using group_block_nth [OF data ne \<open>i < len\<close>, of "rows ! j"] rs [of "rows ! j"] blocks that lr k by simp
    then have "(\<Sum>j<k. s ! d ! j * blocks ! (rows ! j) ! i) = dot (s ! d) (mat_vec (map (generator_row k) rows) ?v)"
      using ls that lr by (simp add: dot_nth)
    also have "\<dots> = mat_vec s (mat_vec (map (generator_row k) rows) ?v) ! d" using ls that by simp
    also have "\<dots> = ?v ! d" using s(2) k unfolding inverse_of_def by simp
    finally show ?thesis using that k by simp
  qed
  define out where "out = map (\<lambda>d. if k \<le> d \<or> length (blocks ! d) = len then blocks ! d
      else map (\<lambda>i. sum_list (map (\<lambda>j. s ! d ! j * blocks ! (rows ! j) ! i) [0..<k])) [0..<len]) [0..<length blocks]"
  have "recover blocks k len = (True, out)"
    using k kb lr s(1) unfolding recover_def rows_def [symmetric] out_def by simp
  moreover have "take k out = data"
  proof (rule nth_equalityI)
    show "length (take k out) = length data" using kb k by (simp add: out_def)
    fix d assume "d < length (take k out)"
    then have d: "d < k" by simp
    have "length (data ! d) = len" using data d k by simp
    moreover have "blocks ! d = data ! d" if "length (blocks ! d) = len"
      using blocks [rule_format, of d] that d kb k by (simp add: group_block_def)
    moreover have "map (\<lambda>i. sum_list (map (\<lambda>j. s ! d ! j * blocks ! (rows ! j) ! i) [0..<k])) [0..<len] = data ! d"
      using calculation(1) restore [OF d] unfolding sum_list_upt by (intro nth_equalityI) simp_all
    ultimately show "take k out ! d = data ! d" using d kb by (simp add: out_def)
  qed
  moreover have "drop k out = drop k blocks"
    using kb by (intro nth_equalityI) (auto simp: out_def)
  ultimately show ?thesis by blast
qed

section \<open>Properties\<close>

text \<open>
  C19. Gauss-Jordan inversion succeeds on every square matrix that maps no vector but zero to
  zero, and the result is its inverse from both sides.
\<close>

theorem invert_is_inverse:
  "length m = n \<Longrightarrow> (\<forall>r \<in> set m. length r = n) \<Longrightarrow> no_kernel n m \<Longrightarrow>
   \<exists>s. invert m = (True, s) \<and> (\<forall>v. length v = n \<longrightarrow> mat_vec s (mat_vec m v) = v \<and> mat_vec m (mat_vec s v) = v)"
  using invert_correct by (fastforce simp: inverse_of_def)

theorem invert_is_inverse_witness:
  "\<exists>s. invert [[0, 1], [1, 1]] = (True, s) \<and> mat_vec [[0, 1], [1, 1]] (mat_vec s [1, 0]) = [1, 0]"
proof -
  have "no_kernel 2 [[0, 1], [1, 1]]"
    by (auto simp: no_kernel_def numeral_2_eq_2 length_Suc_conv)
  from invert_is_inverse [OF _ _ this] show ?thesis by fastforce
qed

text \<open>
  C20. The code is an erasure code with no waste: from any \<open>k\<close> blocks of a group of \<open>k\<close> data
  blocks and at most \<open>256 - k\<close> parity blocks, in whatever positions the others are missing,
  recovery restores all data blocks and leaves the parity blocks as they are.
\<close>

theorem recover_restores_data:
  assumes "0 < k" "k \<le> 255" "length data = k" "\<forall>b \<in> set data. length b = len" "length blocks \<le> 256"
    and "\<forall>i < length blocks. length (blocks ! i) = len \<longrightarrow> blocks ! i = (if i < k then data ! i else fec_encode data i)"
    and "k \<le> length (filter (\<lambda>i. length (blocks ! i) = len) [0..<length blocks])"
  shows "\<exists>out. recover blocks k len = (True, out) \<and> take k out = data \<and> drop k out = drop k blocks"
  using recover_ok [OF assms(1,2,3,4,5) _ assms(7)] assms(3,6) by (simp add: group_block_def)

theorem recover_restores_data_witness:
  "\<exists>out. recover [[], [0, 1], fec_encode [[1, 1], [0, 1]] 2] 2 2 = (True, out) \<and> take 2 out = [[1, 1], [0, 1]]"
proof -
  have l: "length (fec_encode [[1, 1], [0, 1]] 2) = 2" by (rule length_encode) simp_all
  have "\<exists>out. recover [[], [0, 1], fec_encode [[1, 1], [0, 1]] 2] 2 2 = (True, out) \<and>
      take 2 out = [[1, 1], [0, 1]] \<and> drop 2 out = drop 2 [[], [0, 1], fec_encode [[1, 1], [0, 1]] 2]"
    by (rule recover_restores_data) (use l in \<open>auto simp: less_Suc_eq numeral_eq_Suc nth_Cons'\<close>)
  then show ?thesis by blast
qed

end
