(* ===== verification/Fec_Receiver.thy ===== *)
theory Fec_Receiver
  imports Tutk_Packets Fec "HOL-Library.Multiset"
begin

text \<open>
  Model of \<open>FecReceiver\<close> of \<open>src/camera/tutk/TutkSession.cpp\<close>: stream packets come in
  groups of \<open>k\<close> data packets, each with one slice, and \<open>m\<close> parity packets. The callback
  \<open>on_slice\<close> is the list of slices it is called with. The trace output is left out.
\<close>

section \<open>Groups of packets\<close>

record fec_group =
  g_k :: byte
  g_m :: byte
  g_blocks :: "bytes list"
  g_data_have :: int
  g_parity_have :: int
  g_max_data :: int
  g_len :: nat
  g_closed :: bool

definition new_group :: fec_group where
  "new_group = \<lparr>g_k = 0, g_m = 0, g_blocks = [], g_data_have = 0, g_parity_have = 0,
                 g_max_data = -1, g_len = 0, g_closed = False\<rparr>"

record fec_receiver =
  fr_recovered :: int
  fr_lost :: int
  fr_groups :: "(u16 \<times> fec_group) list"
  fr_newest :: u16
  fr_have_newest :: bool

definition new_receiver :: fec_receiver where
  "new_receiver = \<lparr>fr_recovered = 0, fr_lost = 0, fr_groups = [], fr_newest = 0, fr_have_newest = False\<rparr>"

definition kKeepGroups :: int where "kKeepGroups = 8"

text \<open>Counters of the receiver: packets recovered and packets lost.\<close>

type_synonym counts = "int \<times> int"

definition close_lost :: "fec_group \<Rightarrow> counts \<Rightarrow> fec_group \<times> counts" where
  "close_lost g c = (g\<lparr>g_closed := True\<rparr>, (fst c, snd c + (uint (g_k g) - g_data_have g)))"

fun advance_groups :: "u16 \<Rightarrow> counts \<Rightarrow> (u16 \<times> fec_group) list \<Rightarrow> counts \<times> (u16 \<times> fec_group) list" where
  "advance_groups newest c [] = (c, [])"
| "advance_groups newest c ((gn, g) # gs) =
     (let age = sint (newest - gn);
          (g', c') = (if 0 < age \<and> \<not> g_closed g then close_lost g c else (g, c));
          (c'', gs') = advance_groups newest c' gs
      in (c'', if kKeepGroups < age \<or> age < - kKeepGroups then gs' else (gn, g') # gs'))"

definition advance :: "u16 \<Rightarrow> fec_receiver \<Rightarrow> fec_receiver" where
  "advance grp r =
     (let (c, gs) = advance_groups grp (fr_recovered r, fr_lost r) (fr_groups r)
      in r\<lparr>fr_recovered := fst c, fr_lost := snd c, fr_newest := grp, fr_groups := gs\<rparr>)"

text \<open>\<open>std::vector::resize\<close> with zero bytes.\<close>

definition resize :: "nat \<Rightarrow> bytes \<Rightarrow> bytes" where
  "resize n b = take n b @ replicate (n - length b) 0"

fun recovered_slices :: "counts \<Rightarrow> bytes list \<Rightarrow> counts \<times> bytes list" where
  "recovered_slices c [] = (c, [])"
| "recovered_slices c (b # bs) =
     (case parse_slice_header b of
        None \<Rightarrow> recovered_slices (fst c, snd c + 1) bs
      | Some h \<Rightarrow> (let (c', ss) = recovered_slices (fst c + 1, snd c) bs
                  in (c', take (kSliceHeaderLen + unat (sh_len h)) b # ss)))"

definition group_recover :: "fec_group \<Rightarrow> counts \<Rightarrow> fec_group \<times> counts \<times> bytes list" where
  "group_recover g c =
     (let k = unat (g_k g);
          padded = map (\<lambda>(i, b). if i < k \<and> b \<noteq> [] then resize (g_len g) b else b) (enumerate 0 (g_blocks g));
          g' = g\<lparr>g_closed := True\<rparr>;
          (ok, out) = recover (map (map Gf) padded) k (g_len g)
      in if \<not> ok then (g', (fst c, snd c + (uint (g_k g) - g_data_have g)), [])
         else let missing = filter (\<lambda>i. g_blocks g ! i = []) [0..<k];
                  (c', ss) = recovered_slices c (map (\<lambda>i. map un_gf (out ! i)) missing)
              in (g', c', ss))"

text \<open>One packet of a group that is still open: stored, and what is handed on at once.\<close>

definition group_store :: "byte \<Rightarrow> byte \<Rightarrow> bytes \<Rightarrow> fec_group \<Rightarrow> (fec_group \<times> bytes list) option" where
  "group_store idx k body g =
     (if idx < k
      then Some (g\<lparr>g_blocks := (g_blocks g)[unat idx := body], g_data_have := g_data_have g + 1,
                  g_max_data := max (g_max_data g) (uint idx)\<rparr>, [body])
      else if length body < kSliceHeaderLen then None
      else let len = unat (get_le16 (drop 8 body))
           in if len = 0 \<or> length body < kSliceHeaderLen + len \<or> g_len g \<noteq> 0 \<and> g_len g \<noteq> len then None
              else Some (g\<lparr>g_len := len,
                           g_blocks := (g_blocks g)[unat idx := take len (drop kSliceHeaderLen body)],
                           g_parity_have := g_parity_have g + 1\<rparr>, []))"

definition group_add ::
  "byte \<Rightarrow> byte \<Rightarrow> byte \<Rightarrow> bytes \<Rightarrow> fec_group \<Rightarrow> counts \<Rightarrow> fec_group \<times> counts \<times> bytes list" where
  "group_add idx k m body g0 c =
     (let g = (if g_blocks g0 = []
               then g0\<lparr>g_k := k, g_m := m, g_blocks := replicate (unat k + unat m) []\<rparr> else g0)
      in if g_closed g \<or> g_k g \<noteq> k \<or> g_m g \<noteq> m \<or> g_blocks g ! unat idx \<noteq> [] \<or> body = [] then (g, c, [])
         else case group_store idx k body g of
                None \<Rightarrow> (g, c, [])
              | Some (g1, ss) \<Rightarrow>
                  if g_data_have g1 = uint (g_k g1) then (g1\<lparr>g_closed := True\<rparr>, c, ss)
                  else if g_len g1 \<noteq> 0 \<and> uint (g_k g1) \<le> g_data_have g1 + g_parity_have g1
                  then (let (g2, c', ss') = group_recover g1 c in (g2, c', ss @ ss'))
                  else if unat idx + 1 = unat k + unat m
                  then (let (g2, c') = close_lost g1 c in (g2, c', ss))
                  else (g1, c, ss))"

definition fec_add ::
  "u16 \<Rightarrow> byte \<Rightarrow> byte \<Rightarrow> byte \<Rightarrow> bytes \<Rightarrow> fec_receiver \<Rightarrow> fec_receiver \<times> bytes list" where
  "fec_add grp idx k m body r =
     (let d = sint (grp - fr_newest r)
      in if k = 0 \<or> unat k + unat m \<le> unat idx \<or> fr_have_newest r \<and> d < - kKeepGroups then (r, [])
         else let r1 = (if fr_have_newest r then (if 0 < d then advance grp r else r)
                        else r\<lparr>fr_have_newest := True, fr_newest := grp\<rparr>);
                  g0 = (case map_of (fr_groups r1) grp of None \<Rightarrow> new_group | Some g \<Rightarrow> g);
                  (g, c, ss) = group_add idx k m body g0 (fr_recovered r1, fr_lost r1)
              in (r1\<lparr>fr_recovered := fst c, fr_lost := snd c,
                     fr_groups := map_assign grp g (fr_groups r1)\<rparr>, ss))"

definition has_holes :: "fec_receiver \<Rightarrow> bool" where
  "has_holes r \<longleftrightarrow>
     (\<exists>p \<in> set (fr_groups r). \<not> g_closed (snd p) \<and> g_data_have (snd p) < g_max_data (snd p) + 1)"

section \<open>Lemmas: a group\<close>

lemma recovered_slices_padded:
  "\<forall>s \<in> set ss. is_slice s \<Longrightarrow>
   recovered_slices c (map (\<lambda>s. s @ replicate (n - length s) 0) ss) = ((fst c + int (length ss), snd c), ss)"
proof (induction ss arbitrary: c)
  case (Cons s ss)
  then obtain h where h: "parse_slice_header s = Some h" "length s = kSliceHeaderLen + unat (sh_len h)"
    by (auto simp: is_slice_def split: option.splits)
  show ?case
    using Cons parse_slice_header_append [OF h(1), of "replicate (n - length s) 0"] by (simp add: h(2) [symmetric])
qed simp

text \<open>
  The packets of a group as the printer sends them: the slices themselves, then parity bodies,
  a 20-byte header with the coded length at [8] and the parity of the padded slices.
\<close>

definition pad :: "nat \<Rightarrow> bytes \<Rightarrow> bytes" where
  "pad len s = s @ replicate (len - length s) 0"

definition parity_block :: "bytes list \<Rightarrow> nat \<Rightarrow> nat \<Rightarrow> bytes" where
  "parity_block data len i = map un_gf (fec_encode (map (\<lambda>s. map Gf (pad len s)) data) i)"

definition group_packet :: "(nat \<Rightarrow> bytes) \<Rightarrow> bytes list \<Rightarrow> nat \<Rightarrow> nat \<Rightarrow> bytes" where
  "group_packet hdr data len i =
     (if i < length data then data ! i else put_at 8 (le16 (of_nat len)) (hdr i) @ parity_block data len i)"

definition group_ok :: "(nat \<Rightarrow> bytes) \<Rightarrow> bytes list \<Rightarrow> nat \<Rightarrow> nat \<Rightarrow> bool" where
  "group_ok hdr data len m \<longleftrightarrow>
     data \<noteq> [] \<and> length data + m \<le> 255 \<and> 0 < len \<and> len < 2 ^ 16 \<and>
     (\<forall>s \<in> set data. is_slice s \<and> length s \<le> len) \<and>
     (\<forall>i \<in> {length data..<length data + m}. length (hdr i) = kSliceHeaderLen)"

text \<open>The open group after the packets with the indices in \<open>S\<close>.\<close>

definition group_inv :: "bytes list \<Rightarrow> nat \<Rightarrow> nat \<Rightarrow> nat set \<Rightarrow> fec_group \<Rightarrow> bool" where
  "group_inv data len m S g \<longleftrightarrow>
     (let k = length data in
      g_k g = of_nat k \<and> g_m g = of_nat m \<and> \<not> g_closed g \<and>
      g_blocks g = map (\<lambda>i. if i \<in> S then (if i < k then data ! i else parity_block data len i) else []) [0..<k + m] \<and>
      g_data_have g = int (card (S \<inter> {..<k})) \<and> g_parity_have g = int (card (S \<inter> {k..})) \<and>
      g_len g = (if S \<inter> {k..} = {} then 0 else len))"

lemma un_gf_Gf [simp]: "un_gf \<circ> Gf = id" "Gf \<circ> un_gf = id"
  by (auto simp: fun_eq_iff)

lemma length_pad: "length s \<le> len \<Longrightarrow> length (pad len s) = len"
  by (simp add: pad_def)

lemma length_parity_block:
  assumes "group_ok hdr data len m"
  shows "length (parity_block data len i) = len"
proof -
  have "length (fec_encode (map (\<lambda>s. map Gf (pad len s)) data) i) = len"
    using assms by (intro length_encode) (auto simp: group_ok_def length_pad)
  then show ?thesis by (simp add: parity_block_def)
qed

lemma parity_packet:
  assumes ok: "group_ok hdr data len m" and i: "length data \<le> i" "i < length data + m"
  shows "get_le16 (drop 8 (group_packet hdr data len i)) = of_nat len"
    "length (group_packet hdr data len i) = kSliceHeaderLen + len"
    "drop kSliceHeaderLen (group_packet hdr data len i) = parity_block data len i"
proof -
  have h: "length (hdr i) = 20" using ok i by (simp add: group_ok_def kSliceHeaderLen_def)
  have p: "group_packet hdr data len i = take 8 (hdr i) @ le16 (of_nat len) @ drop 10 (hdr i) @ parity_block data len i"
    using i by (simp add: group_packet_def put_at_def)
  show "get_le16 (drop 8 (group_packet hdr data len i)) = of_nat len"
    unfolding p using h by (intro le16.dec_after) simp
  show "length (group_packet hdr data len i) = kSliceHeaderLen + len"
    "drop kSliceHeaderLen (group_packet hdr data len i) = parity_block data len i"
    using h length_parity_block [OF ok] by (simp_all add: p kSliceHeaderLen_def)
qed

lemma group_inv_new:
  "group_inv data len m {} (new_group\<lparr>g_k := of_nat (length data), g_m := of_nat m,
     g_blocks := replicate (length data + m) []\<rparr>)"
  by (simp add: group_inv_def new_group_def map_replicate_trivial)

text \<open>The indices of a group fit a byte.\<close>

lemma unat_byte: "n \<le> 255 \<Longrightarrow> unat (of_nat n :: byte) = n"
  by (simp add: unat_of_nat)

lemma uint_byte: "n \<le> 255 \<Longrightarrow> uint (of_nat n :: byte) = int n"
  by (metis of_nat_unat unat_byte)

lemma byte_less_iff: "i \<le> 255 \<Longrightarrow> j \<le> 255 \<Longrightarrow> (of_nat i :: byte) < of_nat j \<longleftrightarrow> i < j"
  by (simp add: word_less_nat_alt unat_byte)

text \<open>A packet that is not yet there is stored and keeps the invariant.\<close>

lemma group_store_inv:
  assumes ok: "group_ok hdr data len m" and inv: "group_inv data len m S g"
    and i: "i < length data + m" "i \<notin> S" and fin: "finite S"
  shows "\<exists>g1. group_store (of_nat i) (of_nat (length data)) (group_packet hdr data len i) g
      = Some (g1, if i < length data then [data ! i] else []) \<and> group_inv data len m (insert i S) g1"
proof -
  have k: "length data \<le> 255" "i \<le> 255" using ok i by (auto simp: group_ok_def)
  have blocks: "(map (\<lambda>j. if j \<in> S then B j else []) [0..<length data + m])[i := B i]
      = map (\<lambda>j. if j \<in> insert i S then B j else []) [0..<length data + m]" for B :: "nat \<Rightarrow> bytes"
    using i by (intro nth_equalityI) (auto simp: nth_list_update)
  note b = blocks [of "\<lambda>j. if j < length data then data ! j else parity_block data len j"]
  show ?thesis
  proof (cases "i < length data")
    case True
    have s: "insert i S \<inter> {..<length data} = insert i (S \<inter> {..<length data})"
      "insert i S \<inter> {length data..} = S \<inter> {length data..}" using True by auto
    show ?thesis using inv k b i fin True
      by (simp add: group_store_def group_inv_def Let_def byte_less_iff unat_byte group_packet_def s)
  next
    case False
    have s: "insert i S \<inter> {..<length data} = S \<inter> {..<length data}"
      "insert i S \<inter> {length data..} = insert i (S \<inter> {length data..})" using False by auto
    have l: "unat (of_nat len :: u16) = len" "len \<noteq> 0" using ok by (simp_all add: group_ok_def unat_of_nat)
    note p = parity_packet [OF ok _ i(1)]
    show ?thesis using inv k b i fin False p l length_parity_block [OF ok, of i]
      by (simp add: group_store_def group_inv_def Let_def byte_less_iff unat_byte s)
  qed
qed

definition stored_block :: "bytes list \<Rightarrow> nat \<Rightarrow> nat set \<Rightarrow> nat \<Rightarrow> bytes" where
  "stored_block data len S i =
     (if i \<in> S then (if i < length data then pad len (data ! i) else parity_block data len i) else [])"

lemma padded_blocks:
  assumes ok: "group_ok hdr data len m" and inv: "group_inv data len m S g" and len: "g_len g = len"
  shows "map (\<lambda>(i, b). if i < unat (g_k g) \<and> b \<noteq> [] then resize (g_len g) b else b) (enumerate 0 (g_blocks g))
    = map (stored_block data len S) [0..<length data + m]"
proof (rule nth_equalityI)
  show "length (map (\<lambda>(i, b). if i < unat (g_k g) \<and> b \<noteq> [] then resize (g_len g) b else b) (enumerate 0 (g_blocks g)))
    = length (map (stored_block data len S) [0..<length data + m])"
    using inv by (simp add: group_inv_def Let_def)
  fix i assume "i < length (map (\<lambda>(i, b). if i < unat (g_k g) \<and> b \<noteq> [] then resize (g_len g) b else b) (enumerate 0 (g_blocks g)))"
  then have i: "i < length data + m" using inv by (simp add: group_inv_def Let_def)
  have k: "unat (g_k g) = length data" using inv ok by (simp add: group_inv_def group_ok_def Let_def unat_byte)
  have b: "g_blocks g = map (\<lambda>i. if i \<in> S then (if i < length data then data ! i else parity_block data len i) else [])
      [0..<length data + m]" using inv by (simp add: group_inv_def Let_def)
  have "data ! i \<noteq> [] \<and> resize len (data ! i) = pad len (data ! i)" if "i < length data"
    using ok that is_slice_nonempty nth_mem [OF that] by (auto simp: group_ok_def resize_def pad_def)
  then show "map (\<lambda>(i, b). if i < unat (g_k g) \<and> b \<noteq> [] then resize (g_len g) b else b) (enumerate 0 (g_blocks g)) ! i
    = map (stored_block data len S) [0..<length data + m] ! i"
    using i len unfolding b k by (simp add: nth_enumerate_eq stored_block_def)
qed

lemma length_stored:
  assumes ok: "group_ok hdr data len m"
  shows "length (stored_block data len S i) = len \<longleftrightarrow> i \<in> S"
  using ok length_parity_block [OF ok, of i] by (auto simp: stored_block_def group_ok_def length_pad)

text \<open>With \<open>k\<close> packets stored, what is handed on are the missing slices, in order.\<close>

lemma group_recover_inv:
  assumes ok: "group_ok hdr data len m" and inv: "group_inv data len m S g"
    and S: "S \<subseteq> {..<length data + m}" "length data \<le> card S" and len: "g_len g = len"
  shows "group_recover g c = (g\<lparr>g_closed := True\<rparr>,
      (fst c + int (length (filter (\<lambda>i. i \<notin> S) [0..<length data])), snd c),
      map ((!) data) (filter (\<lambda>i. i \<notin> S) [0..<length data]))"
proof -
  define D where "D = map (\<lambda>s. map Gf (pad len s)) data"
  define B where "B = map (map Gf) (map (stored_block data len S) [0..<length data + m])"
  have k: "unat (g_k g) = length data" using inv ok by (simp add: group_inv_def group_ok_def Let_def unat_byte)
  have lb: "length (B ! i) = len \<longleftrightarrow> i \<in> S" if "i < length data + m" for i
    using that length_stored [OF ok] by (simp add: B_def)
  have have_B: "filter (\<lambda>i. length (B ! i) = len) [0..<length B] = filter (\<lambda>i. i \<in> S) [0..<length data + m]"
    by (rule filter_cong) (auto simp: lb, simp_all add: B_def)
  have "card S = length (filter (\<lambda>i. i \<in> S) [0..<length data + m])"
    using S(1) by (subst distinct_card [symmetric]) (auto intro!: arg_cong [where f = card])
  then have enough: "length data \<le> length (filter (\<lambda>i. length (B ! i) = len) [0..<length B])"
    using S(2) have_B by simp
  have "\<exists>out. recover B (length data) len = (True, out) \<and> take (length data) out = D \<and> drop (length data) out = drop (length data) B"
  proof (rule recover_ok [OF _ _ _ _ _ _ enough])
    show "0 < length data" "length data \<le> 255" "length D = length data" "\<forall>b \<in> set D. length b = len" "length B \<le> 256"
      using ok by (auto simp: group_ok_def D_def B_def length_pad)
    show "\<forall>i < length B. length (B ! i) = len \<longrightarrow> B ! i = group_block D i"
      using lb by (auto simp: B_def stored_block_def group_block_def D_def parity_block_def)
  qed
  then obtain out where out: "recover B (length data) len = (True, out)" "take (length data) out = D" by blast
  have oi: "map un_gf (out ! i) = data ! i @ replicate (len - length (data ! i)) 0" if "i < length data" for i
  proof -
    have "out ! i = D ! i" using out(2) that by (metis nth_take)
    then show ?thesis using that by (simp add: D_def pad_def)
  qed
  have missing: "filter (\<lambda>i. g_blocks g ! i = []) [0..<length data] = filter (\<lambda>i. i \<notin> S) [0..<length data]"
    using inv ok is_slice_nonempty by (intro filter_cong) (auto simp: group_inv_def Let_def group_ok_def)
  have blocks: "map (\<lambda>i. map un_gf (out ! i)) (filter (\<lambda>i. i \<notin> S) [0..<length data])
      = map (\<lambda>s. s @ replicate (len - length s) 0) (map ((!) data) (filter (\<lambda>i. i \<notin> S) [0..<length data]))"
    using oi by simp
  have slices: "\<forall>s \<in> set (map ((!) data) (filter (\<lambda>i. i \<notin> S) [0..<length data])). is_slice s"
    using ok by (auto simp: group_ok_def)
  show ?thesis
    unfolding group_recover_def Let_def k padded_blocks [OF ok inv len, unfolded k len] B_def [symmetric] len out(1)
      missing blocks prod.case recovered_slices_padded [OF slices, of c len] by simp
qed

text \<open>The packets of a group one by one, as the receiver hands them to it.\<close>

fun group_adds :: "(nat \<Rightarrow> bytes) \<Rightarrow> nat \<Rightarrow> nat \<Rightarrow> nat list \<Rightarrow> fec_group \<Rightarrow> counts \<Rightarrow> fec_group \<times> counts \<times> bytes list" where
  "group_adds pkt k m [] g c = (g, c, [])"
| "group_adds pkt k m (i # is) g c =
     (let (g1, c1, s1) = group_add (of_nat i) (of_nat k) (of_nat m) (pkt i) g c;
          (g2, c2, s2) = group_adds pkt k m is g1 c1
      in (g2, c2, s1 @ s2))"

lemma group_adds_closed:
  "g_closed g \<Longrightarrow> g_blocks g \<noteq> [] \<Longrightarrow> group_adds pkt k m is g c = (g, c, [])"
  by (induction "is") (simp_all add: group_add_def Let_def)

lemma group_packet_nonempty:
  assumes ok: "group_ok hdr data len m" and i: "i < length data + m"
  shows "group_packet hdr data len i \<noteq> []"
proof (cases "i < length data")
  case True
  then show ?thesis using ok is_slice_nonempty by (simp add: group_packet_def group_ok_def)
next
  case False
  then show ?thesis using parity_packet(2) [OF ok _ i] by (auto simp: kSliceHeaderLen_def)
qed

lemma card_split: "finite S \<Longrightarrow> card (S \<inter> {..<k}) + card (S \<inter> {k..}) = card (S :: nat set)"
  by (subst card_Un_disjoint [symmetric]) (auto intro!: arg_cong [where f = card])

lemma group_add_step:
  assumes ok: "group_ok hdr data len m" and k_def: "k = length data" and inv: "group_inv data len m S g"
    and i: "i < k + m" "i \<notin> S" and fin: "finite S"
  obtains g1 where "group_inv data len m (insert i S) g1"
    "group_add (of_nat i) (of_nat k) (of_nat m) (group_packet hdr data len i) g c =
      (let s = (if i < k then [data ! i] else []) in
       if card (insert i S \<inter> {..<k}) = k then (g1\<lparr>g_closed := True\<rparr>, c, s)
       else if insert i S \<inter> {k..} \<noteq> {} \<and> k \<le> card (insert i S)
       then (let (g2, c', ss') = group_recover g1 c in (g2, c', s @ ss'))
       else if i + 1 = k + m then (let (g2, c') = close_lost g1 c in (g2, c', s)) else (g1, c, s))"
proof -
  have b: "k \<le> 255" "m \<le> 255" "i \<le> 255" "k \<noteq> 0" "len \<noteq> 0"
    using ok i by (auto simp: group_ok_def k_def)
  obtain g1 where st: "group_store (of_nat i) (of_nat k) (group_packet hdr data len i) g
      = Some (g1, if i < k then [data ! i] else [])" and inv1: "group_inv data len m (insert i S) g1"
    using group_store_inv [OF ok inv] i fin unfolding k_def by blast
  have g: "g_blocks g \<noteq> []" "\<not> g_closed g" "g_k g = of_nat k" "g_m g = of_nat m" "g_blocks g ! i = []"
    using inv i b by (auto simp: group_inv_def Let_def k_def [symmetric])
  have g1: "g_k g1 = of_nat k" "g_data_have g1 = int (card (insert i S \<inter> {..<k}))"
    "g_parity_have g1 = int (card (insert i S \<inter> {k..}))" "g_len g1 = (if insert i S \<inter> {k..} = {} then 0 else len)"
    using inv1 by (simp_all add: group_inv_def Let_def k_def)
  have full: "int k \<le> g_data_have g1 + g_parity_have g1 \<longleftrightarrow> k \<le> card (insert i S)"
    using card_split [OF finite.insertI [OF fin], of i k] unfolding g1 by linarith
  show thesis
  proof (rule that [OF inv1])
    show "group_add (of_nat i) (of_nat k) (of_nat m) (group_packet hdr data len i) g c =
      (let s = (if i < k then [data ! i] else []) in
       if card (insert i S \<inter> {..<k}) = k then (g1\<lparr>g_closed := True\<rparr>, c, s)
       else if insert i S \<inter> {k..} \<noteq> {} \<and> k \<le> card (insert i S)
       then (let (g2, c', ss') = group_recover g1 c in (g2, c', s @ ss'))
       else if i + 1 = k + m then (let (g2, c') = close_lost g1 c in (g2, c', s)) else (g1, c, s))"
      using g st group_packet_nonempty [OF ok i(1) [unfolded k_def]] full b g1
      by (simp add: group_add_def Let_def unat_byte uint_byte del: card_insert_disjoint)
  qed
qed

lemma mset_data: "image_mset ((!) data) (mset_set {..<length data}) = mset data"
proof -
  have "mset data = mset (map ((!) data) [0..<length data])" by (simp add: map_nth)
  then show ?thesis by (simp add: atLeast0LessThan mset_upt)
qed

lemma mset_missing:
  "mset (map ((!) data) (filter (\<lambda>i. i \<notin> S) [0..<length data])) +
   image_mset ((!) data) (mset_set (S \<inter> {..<length data})) = mset data"
proof -
  have "mset (filter (\<lambda>i. i \<notin> S) [0..<length data]) = mset_set ({..<length data} - S)"
    by (simp add: mset_upt filter_mset_mset_set atLeast0LessThan set_diff_eq)
  moreover have "mset_set ({..<length data} - S) + mset_set (S \<inter> {..<length data}) = mset_set {..<length data}"
    by (subst mset_set_Union [symmetric]) (auto intro!: arg_cong [where f = mset_set])
  ultimately show ?thesis
    by (metis image_mset_union mset_data mset_map)
qed

lemma group_adds_complete:
  assumes ok: "group_ok hdr data len m" and k: "k = length data"
    and inv: "group_inv data len m S g" and S: "S \<subseteq> {..<k + m}" "card S < k"
    and is_ok: "distinct is" "set is \<inter> S = {}" "set is \<subseteq> {..<k + m}" "k \<le> card S + length is"
    and last_ok: "k + m - 1 \<notin> set (take (k - 1 - card S) is)"
  shows "\<exists>g' c' ss. group_adds (group_packet hdr data len) k m is g c = (g', c', ss) \<and>
    mset ss + image_mset ((!) data) (mset_set (S \<inter> {..<k})) = mset data"
  using assms
proof (induction "is" arbitrary: S g c)
  case (Cons i "is")
  let ?S = "insert i S" and ?s = "if i < k then [data ! i] else []"
  have fin: "finite S" using Cons.prems(4) finite_subset by blast
  have i: "i < k + m" "i \<notin> S" using Cons.prems(7,8) by auto
  have cS: "card ?S = Suc (card S)" using fin i by simp
  have head: "mset ?s + image_mset ((!) data) (mset_set (S \<inter> {..<k})) = image_mset ((!) data) (mset_set (?S \<inter> {..<k}))"
    using fin i by (auto simp: Int_insert_left)
  obtain g1 where g1: "group_inv data len m ?S g1" and
    step: "group_add (of_nat i) (of_nat k) (of_nat m) (group_packet hdr data len i) g c =
      (let s = ?s in
       if card (?S \<inter> {..<k}) = k then (g1\<lparr>g_closed := True\<rparr>, c, s)
       else if ?S \<inter> {k..} \<noteq> {} \<and> k \<le> card ?S then (let (g2, c', ss') = group_recover g1 c in (g2, c', s @ ss'))
       else if i + 1 = k + m then (let (g2, c') = close_lost g1 c in (g2, c', s)) else (g1, c, s))"
    by (rule group_add_step [OF ok k Cons.prems(3) i fin])
  have ne: "g_blocks g1 \<noteq> []" using g1 i k by (auto simp: group_inv_def Let_def)
  have closed: "group_adds (group_packet hdr data len) k m (i # is) g c = (g1\<lparr>g_closed := True\<rparr>, d, ss)"
    if "group_add (of_nat i) (of_nat k) (of_nat m) (group_packet hdr data len i) g c = (g1\<lparr>g_closed := True\<rparr>, d, ss)"
    for d ss using group_adds_closed [of "g1\<lparr>g_closed := True\<rparr>"] ne by (simp add: that)
  consider (all) "card (?S \<inter> {..<k}) = k" | (enough) "card (?S \<inter> {..<k}) \<noteq> k" "card ?S = k"
    | (few) "card (?S \<inter> {..<k}) \<noteq> k" "card ?S < k" using cS Cons.prems(5) by linarith
  then show ?case
  proof cases
    case all
    then have "?S \<inter> {..<k} = {..<k}" by (intro card_subset_eq) auto
    then have "mset ?s + image_mset ((!) data) (mset_set (S \<inter> {..<k})) = mset data"
      using head mset_data [of data] k by simp
    moreover have "group_add (of_nat i) (of_nat k) (of_nat m) (group_packet hdr data len i) g c = (g1\<lparr>g_closed := True\<rparr>, c, ?s)"
      unfolding step by (simp only: Let_def all refl if_True)
    ultimately show ?thesis using closed [of c ?s] by (intro exI conjI)
  next
    case enough
    have par: "?S \<inter> {k..} \<noteq> {}" using enough card_split [of ?S k] fin by (auto simp: card_eq_0_iff)
    have "group_recover g1 c = (g1\<lparr>g_closed := True\<rparr>,
      (fst c + int (length (filter (\<lambda>i. i \<notin> ?S) [0..<length data])), snd c),
      map ((!) data) (filter (\<lambda>i. i \<notin> ?S) [0..<length data]))"
      using g1 enough(2) par Cons.prems(4) i k by (intro group_recover_inv [OF ok]) (auto simp: group_inv_def Let_def)
    then have "group_add (of_nat i) (of_nat k) (of_nat m) (group_packet hdr data len i) g c =
      (g1\<lparr>g_closed := True\<rparr>, (fst c + int (length (filter (\<lambda>i. i \<notin> ?S) [0..<length data])), snd c),
       ?s @ map ((!) data) (filter (\<lambda>i. i \<notin> ?S) [0..<length data]))"
      unfolding step using enough par by (simp only: Let_def if_False if_True simp_thms order.refl prod.case)
    moreover have "mset (?s @ map ((!) data) (filter (\<lambda>i. i \<notin> ?S) [0..<length data]))
      + image_mset ((!) data) (mset_set (S \<inter> {..<k})) = mset data"
      unfolding mset_append mset_missing [of data ?S, symmetric] k [symmetric] head [symmetric] by (simp only: ac_simps)
    ultimately show ?thesis using closed by (intro exI conjI)
  next
    case few
    have "take (k - 1 - card S) (i # is) = i # take (k - 1 - card ?S) is"
      using few cS by (simp add: take_Cons')
    then have last_rest: "k + m - 1 \<notin> set (take (k - 1 - card ?S) is)" and "i \<noteq> k + m - 1"
      using Cons.prems(10) by simp_all
    then have "i + 1 \<noteq> k + m" by linarith
    then have one: "group_add (of_nat i) (of_nat k) (of_nat m) (group_packet hdr data len i) g c = (g1, c, ?s)"
      unfolding step using few by (simp only: Let_def if_False not_le [symmetric] simp_thms)
    have h: "?S \<subseteq> {..<k + m}" "distinct is" "set is \<inter> ?S = {}" "set is \<subseteq> {..<k + m}" "k \<le> card ?S + length is"
      using Cons.prems(4,6,7,8,9) cS i by auto
    obtain g' c' ss where rest: "group_adds (group_packet hdr data len) k m is g1 c = (g', c', ss)"
      "mset ss + image_mset ((!) data) (mset_set (?S \<inter> {..<k})) = mset data"
      using Cons.IH [OF ok k g1 h(1) few(2) h(2-5) last_rest, of c] by (elim exE conjE)
    then have "group_adds (group_packet hdr data len) k m (i # is) g c = (g', c', ?s @ ss)"
      by (simp only: group_adds.simps one Let_def prod.case)
    moreover have "mset (?s @ ss) + image_mset ((!) data) (mset_set (S \<inter> {..<k})) = mset data"
      unfolding rest(2) [symmetric] head [symmetric] mset_append by (simp only: ac_simps)
    ultimately show ?thesis by (intro exI conjI)
  qed
qed simp

section \<open>Lemmas: the receiver\<close>

text \<open>Advancing keeps exactly the groups in the window.\<close>

lemma advance_groups_keys:
  "map fst (snd (advance_groups n c gs)) =
   filter (\<lambda>gn. \<not> (kKeepGroups < sint (n - gn) \<or> sint (n - gn) < - kKeepGroups)) (map fst gs)"
proof (induction gs arbitrary: c)
  case (Cons p gs)
  obtain gn g where p: "p = (gn, g)" by fastforce
  obtain g' c' where h: "(if 0 < sint (n - gn) \<and> \<not> g_closed g then close_lost g c else (g, c)) = (g', c')" by (meson prod.exhaust)
  obtain c'' gs' where r: "advance_groups n c' gs = (c'', gs')" by fastforce
  show ?case using Cons.IH [of c'] by (simp add: p h r Let_def)
qed simp

text \<open>
  The packets of one group, as the receiver gets them; between them come no packets of newer
  groups.
\<close>

fun fec_adds :: "u16 \<Rightarrow> (nat \<Rightarrow> bytes) \<Rightarrow> nat \<Rightarrow> nat \<Rightarrow> nat list \<Rightarrow> fec_receiver \<Rightarrow> fec_receiver \<times> bytes list" where
  "fec_adds grp pkt k m [] r = (r, [])"
| "fec_adds grp pkt k m (i # is) r =
     (let (r1, s1) = fec_add grp (of_nat i) (of_nat k) (of_nat m) (pkt i) r;
          (r2, s2) = fec_adds grp pkt k m is r1
      in (r2, s1 @ s2))"

definition receiver_ok :: "fec_receiver \<Rightarrow> bool" where
  "receiver_ok r \<longleftrightarrow> sorted_wrt (<) (map fst (fr_groups r))"

definition in_window :: "u16 \<Rightarrow> fec_receiver \<Rightarrow> bool" where
  "in_window grp r \<longleftrightarrow> fr_have_newest r \<and> - kKeepGroups \<le> sint (grp - fr_newest r) \<and> sint (grp - fr_newest r) \<le> 0"

definition group_of :: "u16 \<Rightarrow> fec_receiver \<Rightarrow> fec_group" where
  "group_of grp r = (case map_of (fr_groups r) grp of None \<Rightarrow> new_group | Some g \<Rightarrow> g)"

text \<open>What the receiver does before it looks at the group.\<close>

definition enter :: "u16 \<Rightarrow> fec_receiver \<Rightarrow> fec_receiver" where
  "enter grp r =
     (if fr_have_newest r then (if 0 < sint (grp - fr_newest r) then advance grp r else r)
      else r\<lparr>fr_have_newest := True, fr_newest := grp\<rparr>)"

lemma enter_window:
  assumes "fr_have_newest r \<longrightarrow> - kKeepGroups \<le> sint (grp - fr_newest r)" "receiver_ok r"
  shows "in_window grp (enter grp r)" "receiver_ok (enter grp r)"
    "map_of (fr_groups r) grp = None \<Longrightarrow> group_of grp (enter grp r) = new_group"
proof -
  obtain c gs where a: "advance_groups grp (fr_recovered r, fr_lost r) (fr_groups r) = (c, gs)" by fastforce
  have keys: "map fst gs = filter (\<lambda>gn. \<not> (kKeepGroups < sint (grp - gn) \<or> sint (grp - gn) < - kKeepGroups)) (map fst (fr_groups r))"
    using a advance_groups_keys [of grp "(fr_recovered r, fr_lost r)" "fr_groups r"] by simp
  then have "sorted_wrt (<) (map fst gs)" using assms(2) by (simp add: receiver_ok_def sorted_wrt_filter)
  then show "in_window grp (enter grp r)" "receiver_ok (enter grp r)"
    using assms a by (auto simp: in_window_def enter_def advance_def receiver_ok_def kKeepGroups_def)
  have "set (map fst gs) \<subseteq> set (map fst (fr_groups r))" unfolding keys by auto
  then have "map_of gs grp = None" if "map_of (fr_groups r) grp = None"
    using that by (auto simp: map_of_eq_None_iff)
  then show "map_of (fr_groups r) grp = None \<Longrightarrow> group_of grp (enter grp r) = new_group"
    using a by (simp add: enter_def advance_def group_of_def)
qed

lemma enter_idem: "in_window grp r \<Longrightarrow> enter grp r = r"
  by (simp add: in_window_def enter_def)

lemma fec_add_enter:
  assumes "fr_have_newest r \<longrightarrow> - kKeepGroups \<le> sint (grp - fr_newest r)" "receiver_ok r"
    and "k \<noteq> 0" "unat idx < unat k + unat m"
  shows "fec_add grp idx k m body r =
    (let r1 = enter grp r; (g, c, ss) = group_add idx k m body (group_of grp r1) (fr_recovered r1, fr_lost r1)
     in (r1\<lparr>fr_recovered := fst c, fr_lost := snd c, fr_groups := map_assign grp g (fr_groups r1)\<rparr>, ss))"
  using assms by (auto simp: fec_add_def enter_def group_of_def Let_def)

lemma fec_adds_group:
  assumes "in_window grp r" "receiver_ok r" "0 < k" "k + m \<le> 255" "set is \<subseteq> {..<k + m}"
  shows "snd (fec_adds grp pkt k m is r) = snd (snd (group_adds pkt k m is (group_of grp r) (fr_recovered r, fr_lost r)))"
  using assms
proof (induction "is" arbitrary: r)
  case (Cons i "is")
  obtain g c ss where g: "group_add (of_nat i) (of_nat k) (of_nat m) (pkt i) (group_of grp r) (fr_recovered r, fr_lost r) = (g, c, ss)"
    by (metis prod_cases3)
  define r1 where "r1 = r\<lparr>fr_recovered := fst c, fr_lost := snd c, fr_groups := map_assign grp g (fr_groups r)\<rparr>"
  have b: "i \<le> 255" "k \<le> 255" "m \<le> 255" "i < k + m" using Cons.prems by auto
  have "unat (of_nat k :: byte) \<noteq> 0" using b Cons.prems(3) by (simp add: unat_byte)
  then have k0: "(of_nat k :: byte) \<noteq> 0" by (metis unat_0)
  have w: "fr_have_newest r \<longrightarrow> - kKeepGroups \<le> sint (grp - fr_newest r)" using Cons.prems(1) by (simp add: in_window_def)
  have step: "fec_add grp (of_nat i) (of_nat k) (of_nat m) (pkt i) r = (r1, ss)"
    using fec_add_enter [OF w Cons.prems(2) k0, of "of_nat i" "of_nat m" "pkt i"] b enter_idem [OF Cons.prems(1)] g
    by (simp add: unat_byte r1_def)
  have r1: "in_window grp r1" "receiver_ok r1" "group_of grp r1 = g" "(fr_recovered r1, fr_lost r1) = c"
    using Cons.prems(1,2) map_assign_sorted [of "fr_groups r" grp g] map_of_map_assign [of "fr_groups r" grp g]
    by (simp_all add: in_window_def receiver_ok_def group_of_def r1_def)
  have "snd (fec_adds grp pkt k m is r1) = snd (snd (group_adds pkt k m is g c))"
    using Cons.IH [OF r1(1,2)] Cons.prems(3,4,5) r1(3,4) by simp
  then show ?case using step g
    by (cases "fec_adds grp pkt k m is r1"; cases "group_adds pkt k m is g c") simp
qed simp

text \<open>The first packet may open the group.\<close>

lemma fec_adds_enter:
  assumes "fr_have_newest r \<longrightarrow> - kKeepGroups \<le> sint (grp - fr_newest r)" "receiver_ok r"
    and "0 < k" "k + m \<le> 255" "set is \<subseteq> {..<k + m}" "is \<noteq> []"
  shows "fec_adds grp pkt k m is r = fec_adds grp pkt k m is (enter grp r)"
proof -
  obtain i js where "is": "is = i # js" using assms(6) by (cases "is") auto
  have b: "i \<le> 255" "k \<le> 255" "m \<le> 255" "i < k + m" using assms(4,5) "is" by auto
  have "unat (of_nat k :: byte) \<noteq> 0" using b assms(3) by (simp add: unat_byte)
  then have k0: "(of_nat k :: byte) \<noteq> 0" by (metis unat_0)
  have b': "unat (of_nat i :: byte) < unat (of_nat k :: byte) + unat (of_nat m :: byte)" using b by (simp add: unat_byte)
  note w = enter_window [OF assms(1,2)]
  have w': "fr_have_newest (enter grp r) \<longrightarrow> - kKeepGroups \<le> sint (grp - fr_newest (enter grp r))"
    using w(1) by (simp add: in_window_def)
  have "fec_add grp (of_nat i) (of_nat k) (of_nat m) (pkt i) r = fec_add grp (of_nat i) (of_nat k) (of_nat m) (pkt i) (enter grp r)"
    unfolding fec_add_enter [OF assms(1,2) k0 b'] fec_add_enter [OF w' w(2) k0 b'] enter_idem [OF w(1)] ..
  then show ?thesis unfolding "is" by simp
qed

section \<open>Properties\<close>

text \<open>
  C21. The printer sends the slices of a group of \<open>k\<close> and \<open>m\<close> parity packets. Of any \<open>k\<close> of
  these packets, in whatever order they come, as long as the last packet of the group is not
  among the first \<open>k - 1\<close>, the receiver hands on every slice of the group exactly once: those
  that arrived as they are, the others recomputed; further packets of the group add nothing.
\<close>

theorem fec_group_delivered:
  assumes "group_ok hdr data len m" "distinct is" "set is \<subseteq> {..<length data + m}" "length data \<le> length is"
    and "length data + m - 1 \<notin> set (take (length data - 1) is)"
    and "receiver_ok r" "fr_have_newest r \<longrightarrow> - kKeepGroups \<le> sint (grp - fr_newest r)" "map_of (fr_groups r) grp = None"
  shows "mset (snd (fec_adds grp (group_packet hdr data len) (length data) m is r)) = mset data"
proof -
  let ?k = "length data"
  have k: "0 < ?k" "?k + m \<le> 255" using assms(1) by (auto simp: group_ok_def)
  note w = enter_window [OF assms(7,6)]
  have "group_add (of_nat i) (of_nat ?k) (of_nat m) body new_group c = group_add (of_nat i) (of_nat ?k) (of_nat m) body
      (new_group\<lparr>g_k := of_nat ?k, g_m := of_nat m, g_blocks := replicate (?k + m) []\<rparr>) c" for i body c
    using k by (simp add: group_add_def new_group_def unat_byte)
  then have open_group: "group_adds pkt ?k m is new_group c = group_adds pkt ?k m is
      (new_group\<lparr>g_k := of_nat ?k, g_m := of_nat m, g_blocks := replicate (?k + m) []\<rparr>) c" if "is \<noteq> []" for pkt c
    using that by (cases "is") simp_all
  have ne: "is \<noteq> []" using assms(4) k by auto
  obtain g' c' ss where "group_adds (group_packet hdr data len) ?k m is new_group
      (fr_recovered (enter grp r), fr_lost (enter grp r)) = (g', c', ss)" "mset ss = mset data"
    using group_adds_complete [OF assms(1) refl group_inv_new, of "is" "(fr_recovered (enter grp r), fr_lost (enter grp r))"]
      k assms(2-5) open_group [OF ne] by auto
  then show ?thesis
    using fec_adds_enter [OF assms(7,6) k assms(3) ne] fec_adds_group [OF w(1,2) k assms(3)] w(3) assms(8) by simp
qed

definition demo_slice :: "byte \<Rightarrow> bytes" where
  "demo_slice b = [5, 0, 0, 0, 2, 0, 0, 0, 1, 0, 0, 0, 7, 0, 0, 0, 0, 0, 0, 0, b]"

theorem fec_group_delivered_witness:
  "mset (snd (fec_adds 9 (group_packet (\<lambda>i. replicate 20 0) [demo_slice 1, demo_slice 2] 21) 2 1 [0, 2] new_receiver))
   = {#demo_slice 1, demo_slice 2#}"
proof -
  have s: "is_slice (demo_slice b)" for b
    by (simp add: is_slice_def demo_slice_def parse_slice_header_def kSliceHeaderLen_def get_le16_def get_le32_def)
  have "group_ok (\<lambda>i. replicate 20 0) [demo_slice 1, demo_slice 2] 21 1"
    using s by (simp add: group_ok_def kSliceHeaderLen_def) (simp add: demo_slice_def)
  from fec_group_delivered [OF this, of "[0, 2]" new_receiver 9] show ?thesis
    by (simp add: new_receiver_def receiver_ok_def)
qed

end
