(* ===== verification/Frame_Queue.thy ===== *)
theory Frame_Queue
  imports Tutk_Packets
begin

text \<open>
  Model of \<open>FrameQueue\<close> of \<open>src/camera/tutk/TutkSession.cpp\<close>: slices are collected into
  frames, frames handed on in the order of their numbers, and after a lost frame only from the
  next key frame on. The callback \<open>emit\<close> is the list of what it is called with. Clock
  readings are steady-clock nanoseconds; a routine that reads the clock several times takes
  the readings as a sequence.
\<close>

section \<open>Frames\<close>

record video_frame =
  f_count :: u16
  f_info_len :: u16
  f_kind :: byte
  f_first :: int
  f_slices :: "(u16 \<times> bytes) list"

definition new_frame :: video_frame where
  "new_frame = \<lparr>f_count = 0, f_info_len = 0, f_kind = 0, f_first = 0, f_slices = []\<rparr>"

record frame_queue =
  fq_dropped :: int
  fq_any_frame :: bool
  fq_pending :: "(u32 \<times> video_frame) list"
  fq_next :: u32
  fq_have_next :: bool
  fq_need_key :: bool

definition new_queue :: "bool \<Rightarrow> frame_queue" where
  "new_queue any_frame = \<lparr>fq_dropped = 0, fq_any_frame = any_frame, fq_pending = [], fq_next = 0,
                           fq_have_next = False, fq_need_key = True\<rparr>"

definition ms :: "int \<Rightarrow> int" where
  "ms n = 1000000 * n"

definition frame_add :: "int \<Rightarrow> slice_header \<Rightarrow> bytes \<Rightarrow> frame_queue \<Rightarrow> frame_queue" where
  "frame_add now h payload q =
     (if fq_have_next q \<and> sint (sh_frame_no h - fq_next q) < 0 then q
      else let f0 = (case map_of (fq_pending q) (sh_frame_no h) of None \<Rightarrow> new_frame | Some f \<Rightarrow> f);
               f1 = (if f_slices f0 = [] then f0\<lparr>f_count := sh_count h, f_first := now\<rparr> else f0);
               f2 = (if sh_count h \<noteq> f_count f1 then f1
                     else f1\<lparr>f_info_len := (if sh_info_len h \<noteq> 0 then sh_info_len h else f_info_len f1),
                             f_kind := sh_kind h,
                             f_slices := map_assign (sh_index h) (take (unat (sh_len h)) payload) (f_slices f1)\<rparr>)
           in q\<lparr>fq_pending := map_assign (sh_frame_no h) f2 (fq_pending q)\<rparr>)"

text \<open>
  The key of a frame. \<open>data[len + 2]\<close> is read only when nothing before said it is a key
  frame; \<open>None\<close> is a read past the end of \<open>data\<close>.
\<close>

definition frame_key :: "video_frame \<Rightarrow> bytes \<Rightarrow> (nat \<times> bool) option" where
  "frame_key f data =
     (let key = (f_kind f = 5 \<or> is_jpeg data);
          trailer = (f_info_len f \<noteq> 0 \<and> unat (f_info_len f) < length data);
          len = (if trailer then length data - unat (f_info_len f) else length data)
      in if trailer \<and> \<not> key \<and> length data \<le> len + 2 then None
         else let key1 = (key \<or> trailer \<and> data ! (len + 2) = 1);
                  key2 = (if \<not> key1 \<and> starts_with_start_code (take len data)
                          then h264_is_keyframe (take len data) else key1)
              in Some (len, key2))"

definition deliver_frame :: "video_frame \<Rightarrow> frame_queue \<Rightarrow> (frame_queue \<times> (bytes \<times> bool) list) option" where
  "deliver_frame f q =
     (if f_kind f = 4 then Some (q, [])
      else let data = concat (map snd (f_slices f))
           in case frame_key f data of
                None \<Rightarrow> None
              | Some (len, key) \<Rightarrow>
                  if fq_need_key q \<and> \<not> key \<and> \<not> fq_any_frame q
                  then Some (q\<lparr>fq_dropped := fq_dropped q + 1\<rparr>, [])
                  else Some (q\<lparr>fq_need_key := False\<rparr>, [(take len data, key)]))"

lemma deliver_frame_pending: "deliver_frame f q = Some (q1, out) \<Longrightarrow> fq_pending q1 = fq_pending q"
  by (auto simp: deliver_frame_def Let_def split: if_splits option.splits)

definition has_gap :: "frame_queue \<Rightarrow> bool" where
  "has_gap q \<longleftrightarrow> fq_pending q \<noteq> [] \<and> fq_have_next q \<and> fst (hd (fq_pending q)) \<noteq> fq_next q"

definition after_frame :: "frame_queue \<Rightarrow> frame_queue" where
  "after_frame q = q\<lparr>fq_next := fst (hd (fq_pending q)) + 1, fq_have_next := True, fq_pending := tl (fq_pending q)\<rparr>"

function flush :: "(nat \<Rightarrow> int) \<Rightarrow> bool \<Rightarrow> frame_queue \<Rightarrow> (frame_queue \<times> (bytes \<times> bool) list) option" where
  "flush clk holes q =
     (if fq_pending q = [] then Some (q, [])
      else let f = snd (hd (fq_pending q)); gap = has_gap q
           in if length (f_slices f) = unat (f_count f) \<and> \<not> gap
              then (case deliver_frame f q of
                      None \<Rightarrow> None
                    | Some (q1, out) \<Rightarrow>
                        map_option (\<lambda>(q2, out'). (q2, out @ out')) (flush clk holes (after_frame q1)))
              else if \<not> (gap \<or> 1 < length (fq_pending q)) \<or> holes \<and> \<not> ms 500 < clk 0 - f_first f
              then Some (q, [])
              else if gap
              then flush (\<lambda>i. clk (Suc i)) holes
                     (q\<lparr>fq_need_key := True, fq_next := fst (hd (fq_pending q)),
                        fq_dropped := fq_dropped q + sint (fst (hd (fq_pending q)) - fq_next q)\<rparr>)
              else flush (\<lambda>i. clk (Suc i)) holes
                     (after_frame (q\<lparr>fq_need_key := True, fq_dropped := fq_dropped q + 1\<rparr>)))"
  by pat_completeness auto

termination
  by (relation "measure (\<lambda>(clk, holes, q). 2 * length (fq_pending q) + (if has_gap q then 1 else 0))")
    (auto simp: has_gap_def after_frame_def neq_Nil_conv dest: deliver_frame_pending)

declare flush.simps [simp del]

text \<open>The slices one packet yields, as the receiver's callback files them.\<close>

fun add_slices :: "(nat \<Rightarrow> int) \<Rightarrow> bytes list \<Rightarrow> frame_queue \<Rightarrow> frame_queue" where
  "add_slices clk [] q = q"
| "add_slices clk (s # ss) q =
     (case parse_slice_header s of
        None \<Rightarrow> add_slices clk ss q
      | Some h \<Rightarrow> add_slices (\<lambda>i. clk (Suc i)) ss (frame_add (clk 0) h (drop kSliceHeaderLen s) q))"

section \<open>Lemmas: frame numbers\<close>

lemma sint_diff:
  fixes a b :: u32
  assumes "unat a < 2 ^ 31" "unat b \<le> 2 ^ 31"
  shows "sint (a - b) = int (unat a) - int (unat b)"
proof -
  have u: "uint (a - b) = take_bit 32 (uint a - uint b)" by (simp add: uint_word_ariths take_bit_eq_mod)
  have "sint (a - b) = signed_take_bit 31 (take_bit 32 (uint a - uint b))"
    unfolding u [symmetric] by (simp add: sint_uint)
  also have "\<dots> = signed_take_bit 31 (uint a - uint b)" by (subst signed_take_bit_take_bit) simp
  also have "\<dots> = uint a - uint b"
  proof (rule signed_take_bit_int_eq_self)
    have "int (unat a) < int (2 ^ 31)" "int (unat b) \<le> int (2 ^ 31)"
      using assms by (simp_all only: of_nat_less_iff of_nat_le_iff)
    then have "uint a < 2 ^ 31" "uint b \<le> 2 ^ 31" by (simp_all only: of_nat_unat of_nat_power of_nat_numeral)
    moreover have "0 \<le> uint a" "0 \<le> uint b" by (rule uint_ge_0)+
    ultimately show "- (2 ^ 31) \<le> uint a - uint b" "uint a - uint b < 2 ^ 31" by linarith+
  qed
  finally show ?thesis unfolding of_nat_unat .
qed

section \<open>What the printer sends\<close>

text \<open>
  A frame at its source: the kind of its slices, the length of the trailer and the payloads.
  The header of slice \<open>i\<close> names the trailer in the last slice only.
\<close>

record src_frame =
  s_kind :: byte
  s_info :: u16
  s_parts :: "bytes list"

definition src_header :: "(nat \<Rightarrow> src_frame) \<Rightarrow> nat \<Rightarrow> nat \<Rightarrow> slice_header" where
  "src_header src n i =
     \<lparr>sh_kind = s_kind (src n), sh_count = of_nat (length (s_parts (src n))), sh_index = of_nat i,
      sh_info_len = (if Suc i = length (s_parts (src n)) then s_info (src n) else 0),
      sh_len = of_nat (length (s_parts (src n) ! i)), sh_frame_no = of_nat n\<rparr>"

definition src_ok :: "(nat \<Rightarrow> src_frame) \<Rightarrow> bool" where
  "src_ok src \<longleftrightarrow> (\<forall>n. s_parts (src n) \<noteq> [] \<and> length (s_parts (src n)) < 2 ^ 16 \<and>
     (\<forall>p \<in> set (s_parts (src n)). length p < 2 ^ 16) \<and> s_info (src n) \<noteq> 1 \<and> s_info (src n) \<noteq> 2)"

text \<open>What a complete frame is to give: its data without the trailer, and whether it is a key frame.\<close>

definition src_out :: "src_frame \<Rightarrow> bytes \<times> bool" where
  "src_out s =
     (let data = concat (s_parts s); n = unat (s_info s);
          has_trailer = (n \<noteq> 0 \<and> n < length data);
          video = (if has_trailer then take (length data - n) data else data)
      in (video, s_kind s = 5 \<or> is_jpeg data \<or> has_trailer \<and> data ! (length video + 2) = 1 \<or>
            starts_with_start_code video \<and> h264_is_keyframe video))"

text \<open>The queue at work: slices arrive in any order, also twice or never, and flushes come in between.\<close>

datatype fq_event = Slice int nat nat | Flush "nat \<Rightarrow> int" bool

fun fq_run :: "(nat \<Rightarrow> src_frame) \<Rightarrow> fq_event list \<Rightarrow> frame_queue \<Rightarrow> (frame_queue \<times> (bytes \<times> bool) list) option" where
  "fq_run src [] q = Some (q, [])"
| "fq_run src (Slice now n i # es) q = fq_run src es (frame_add now (src_header src n i) (s_parts (src n) ! i) q)"
| "fq_run src (Flush clk holes # es) q =
     (case flush clk holes q of
        None \<Rightarrow> None
      | Some (q1, out) \<Rightarrow> map_option (\<lambda>(q2, out'). (q2, out @ out')) (fq_run src es q1))"

fun event_ok :: "(nat \<Rightarrow> src_frame) \<Rightarrow> fq_event \<Rightarrow> bool" where
  "event_ok src (Slice now n i) \<longleftrightarrow> n < 2 ^ 31 \<and> i < length (s_parts (src n))"
| "event_ok src (Flush clk holes) \<longleftrightarrow> True"

text \<open>
  A sequence of frames a decoder can follow: a frame that is not a key frame comes right after
  one that was handed on, with at most audio frames between the two.
\<close>

definition decodable :: "(nat \<Rightarrow> src_frame) \<Rightarrow> nat list \<Rightarrow> bool" where
  "decodable src ns \<longleftrightarrow>
     (\<forall>i < length ns. snd (src_out (src (ns ! i))) \<or>
        0 < i \<and> (\<forall>j \<in> {Suc (ns ! (i - 1))..<ns ! i}. s_kind (src j) = 4))"

lemma decodable_Nil [simp]: "decodable src []"
  by (simp add: decodable_def)

lemma decodable_snoc:
  "decodable src (ns @ [n]) \<longleftrightarrow> decodable src ns \<and>
     (snd (src_out (src n)) \<or> ns \<noteq> [] \<and> (\<forall>j \<in> {Suc (last ns)..<n}. s_kind (src j) = 4))"
proof -
  have "(ns @ [n]) ! i = ns ! i" "(ns @ [n]) ! (i - 1) = ns ! (i - 1)" if "i < length ns" for i
    using that by (auto simp: nth_append)
  then show ?thesis
    by (auto simp: decodable_def last_conv_nth less_Suc_eq)
qed

section \<open>Lemmas: one frame\<close>

definition frame_inv :: "src_frame \<Rightarrow> video_frame \<Rightarrow> bool" where
  "frame_inv s f \<longleftrightarrow>
     f_count f = of_nat (length (s_parts s)) \<and> f_kind f = s_kind s \<and> f_slices f \<noteq> [] \<and>
     sorted_wrt (<) (map fst (f_slices f)) \<and>
     (\<forall>p \<in> set (f_slices f). unat (fst p) < length (s_parts s) \<and> snd p = s_parts s ! unat (fst p)) \<and>
     f_info_len f = (if \<exists>p \<in> set (f_slices f). Suc (unat (fst p)) = length (s_parts s) then s_info s else 0)"

lemma unat_u32: "n < 2 ^ 31 \<Longrightarrow> unat (of_nat n :: u32) = n"
  by (simp add: unat_of_nat)

lemma frame_inv_complete:
  assumes inv: "frame_inv s f" and all: "length (f_slices f) = length (s_parts s)"
  shows "map snd (f_slices f) = s_parts s" "f_info_len f = s_info s"
proof -
  have parts: "sorted_wrt (<) (map fst (f_slices f))"
    "\<forall>p \<in> set (f_slices f). unat (fst p) < length (s_parts s) \<and> snd p = s_parts s ! unat (fst p)"
    using inv unfolding frame_inv_def by blast+
  note full = all_slices [OF parts all]
  show "map snd (f_slices f) = s_parts s" by (rule full)
  have "f_slices f \<noteq> []" using inv unfolding frame_inv_def by blast
  then have pos: "0 < length (s_parts s)" using all by (metis length_greater_0_conv)
  then have "length (s_parts s) - 1 \<in> set (map (\<lambda>p. unat (fst p)) (f_slices f))"
    unfolding full(1) set_upt by (simp only: atLeastLessThan_iff) linarith
  then obtain p where "p \<in> set (f_slices f)" "unat (fst p) = length (s_parts s) - 1"
    unfolding set_map by (elim imageE) simp
  then have "p \<in> set (f_slices f)" "Suc (unat (fst p)) = length (s_parts s)" using pos by linarith+
  then have "\<exists>p \<in> set (f_slices f). Suc (unat (fst p)) = length (s_parts s)" by blast
  then show "f_info_len f = s_info s" using inv unfolding frame_inv_def by presburger
qed

lemma frame_inv_count: "frame_inv s f \<Longrightarrow> length (s_parts s) < 2 ^ 16 \<Longrightarrow> unat (f_count f) = length (s_parts s)"
  by (simp add: frame_inv_def unat_u16)

lemma frame_key_src:
  assumes inv: "frame_inv s f" and all: "length (f_slices f) = length (s_parts s)"
    and info: "s_info s \<noteq> 1" "s_info s \<noteq> 2"
  shows "\<exists>len. frame_key f (concat (map snd (f_slices f))) = Some (len, snd (src_out s)) \<and>
    take len (concat (map snd (f_slices f))) = fst (src_out s)"
proof -
  have "unat (s_info s) \<noteq> 1" "unat (s_info s) \<noteq> 2" using info by (simp_all add: word_unat_eq_iff)
  then have "s_info s = 0 \<or> 3 \<le> unat (s_info s)" unfolding unat_0_iff [symmetric] by linarith
  then show ?thesis
    using frame_inv_complete [OF inv all] inv
    by (auto simp: frame_key_def src_out_def Let_def frame_inv_def unat_eq_zero)
qed

section \<open>Lemmas: the queue\<close>

definition queue_inv :: "(nat \<Rightarrow> src_frame) \<Rightarrow> frame_queue \<Rightarrow> bool" where
  "queue_inv src q \<longleftrightarrow>
     sorted_wrt (<) (map fst (fq_pending q)) \<and>
     (\<forall>p \<in> set (fq_pending q). unat (fst p) < 2 ^ 31 \<and> frame_inv (src (unat (fst p))) (snd p)) \<and>
     (fq_have_next q \<longrightarrow> unat (fq_next q) \<le> 2 ^ 31 \<and> (\<forall>p \<in> set (fq_pending q). fq_next q \<le> fst p))"

lemma frame_inv_fields:
  "frame_inv s f \<Longrightarrow> f_count f = of_nat (length (s_parts s))" "frame_inv s f \<Longrightarrow> f_kind f = s_kind s"
  "frame_inv s f \<Longrightarrow> f_slices f \<noteq> []"
  unfolding frame_inv_def by blast+

lemma info_merge:
  "old = (if E then x else 0) \<Longrightarrow>
   (if (if A then x else 0) \<noteq> 0 then (if A then x else 0) else old) = (if A \<or> E then x else (0 :: u16))"
  by simp

lemma ex_key: "(\<exists>p \<in> set m. Q (fst p)) \<longleftrightarrow> (\<exists>k \<in> fst ` set m. Q k)"
  by blast

lemma frame_store_inv:
  assumes f: "frame_inv s f \<or> f = new_frame\<lparr>f_count := of_nat (length (s_parts s)), f_first := t\<rparr>"
    and i: "i < length (s_parts s)" and L: "length (s_parts s) < 2 ^ 16"
  shows "frame_inv s (f\<lparr>f_info_len := (if (if Suc i = length (s_parts s) then s_info s else 0) \<noteq> 0
             then (if Suc i = length (s_parts s) then s_info s else 0) else f_info_len f),
           f_kind := s_kind s, f_slices := map_assign (of_nat i) (s_parts s ! i) (f_slices f)\<rparr>)"
proof -
  have u: "unat (of_nat i :: u16) = i" using i L by (intro unat_u16) simp
  have "f_count f = of_nat (length (s_parts s)) \<and> sorted_wrt (<) (map fst (f_slices f)) \<and>
    (\<forall>p \<in> set (f_slices f). unat (fst p) < length (s_parts s) \<and> snd p = s_parts s ! unat (fst p)) \<and>
    f_info_len f = (if \<exists>p \<in> set (f_slices f). Suc (unat (fst p)) = length (s_parts s) then s_info s else 0)"
    using f unfolding frame_inv_def by (elim disjE) (blast, simp add: new_frame_def)
  then have old: "f_count f = of_nat (length (s_parts s))" "sorted_wrt (<) (map fst (f_slices f))"
    "\<forall>p \<in> set (f_slices f). unat (fst p) < length (s_parts s) \<and> snd p = s_parts s ! unat (fst p)"
    "f_info_len f = (if \<exists>p \<in> set (f_slices f). Suc (unat (fst p)) = length (s_parts s) then s_info s else 0)"
    by blast+
  have keys: "(\<exists>p \<in> set (map_assign (of_nat i) (s_parts s ! i) (f_slices f)). Suc (unat (fst p)) = length (s_parts s)) \<longleftrightarrow>
      Suc i = length (s_parts s) \<or> (\<exists>p \<in> set (f_slices f). Suc (unat (fst p)) = length (s_parts s))"
    unfolding ex_key [of _ "\<lambda>k. Suc (unat k) = length (s_parts s)"] map_assign_keys by (simp add: u)
  have vals: "\<forall>p \<in> set (map_assign (of_nat i) (s_parts s ! i) (f_slices f)). unat (fst p) < length (s_parts s) \<and> snd p = s_parts s ! unat (fst p)"
  proof
    fix p assume "p \<in> set (map_assign (of_nat i) (s_parts s ! i) (f_slices f))"
    then have "p = (of_nat i, s_parts s ! i) \<or> p \<in> set (f_slices f)" 
      using subsetD [OF map_assign_set] by (simp only: insert_iff)
    then show "unat (fst p) < length (s_parts s) \<and> snd p = s_parts s ! unat (fst p)"
      using old(3) i by (elim disjE) (simp add: u, blast)
  qed
  define x where "x = (if (if Suc i = length (s_parts s) then s_info s else 0) \<noteq> 0
             then (if Suc i = length (s_parts s) then s_info s else 0) else f_info_len f)"
  define g where "g = f\<lparr>f_info_len := x, f_kind := s_kind s, f_slices := map_assign (of_nat i) (s_parts s ! i) (f_slices f)\<rparr>"
  have g: "f_count g = f_count f" "f_kind g = s_kind s" "f_info_len g = x"
    "f_slices g = map_assign (of_nat i) (s_parts s ! i) (f_slices f)" by (simp_all add: g_def)
  have x: "x = (if Suc i = length (s_parts s) \<or> (\<exists>p \<in> set (f_slices f). Suc (unat (fst p)) = length (s_parts s)) then s_info s else 0)"
    unfolding x_def by (rule info_merge [OF old(4)])
  have "frame_inv s g"
    unfolding frame_inv_def g keys old(1) x
    by (intro conjI refl map_assign_nonempty map_assign_sorted [OF old(2)] vals)
  then show ?thesis unfolding g_def x_def .
qed

lemma src_header_simps:
  "sh_kind (src_header src n i) = s_kind (src n)" "sh_count (src_header src n i) = of_nat (length (s_parts (src n)))"
  "sh_index (src_header src n i) = of_nat i" "sh_len (src_header src n i) = of_nat (length (s_parts (src n) ! i))"
  "sh_info_len (src_header src n i) = (if Suc i = length (s_parts (src n)) then s_info (src n) else 0)"
  "sh_frame_no (src_header src n i) = of_nat n"
  by (simp_all add: src_header_def)

lemma frame_add_late:
  assumes "queue_inv src q" "n < 2 ^ 31" "fq_have_next q"
  shows "sint (of_nat n - fq_next q) < 0 \<longleftrightarrow> n < unat (fq_next q)"
proof -
  have "sint (of_nat n - fq_next q) = int (unat (of_nat n :: u32)) - int (unat (fq_next q))"
    using assms by (intro sint_diff) (simp_all add: queue_inv_def unat_u32)
  then show ?thesis unfolding unat_u32 [OF assms(2)] by linarith
qed

text \<open>A slice of a frame that is not yet past is filed in that frame.\<close>

lemma frame_add_eq:
  assumes q: "queue_inv src q" and src: "src_ok src" and n: "n < 2 ^ 31" and i: "i < length (s_parts (src n))"
    and late: "\<not> (fq_have_next q \<and> n < unat (fq_next q))"
  obtains f where "frame_add now (src_header src n i) (s_parts (src n) ! i) q
      = q\<lparr>fq_pending := map_assign (of_nat n) f (fq_pending q)\<rparr>" "frame_inv (src n) f"
    "f_slices f = map_assign (of_nat i) (s_parts (src n) ! i)
       (case map_of (fq_pending q) (of_nat n) of None \<Rightarrow> [] | Some f \<Rightarrow> f_slices f)"
proof -
  let ?s = "src n" and ?fno = "of_nat n :: u32"
  have L: "length (s_parts ?s) < 2 ^ 16" "length (s_parts ?s ! i) < 2 ^ 16" using src nth_mem [OF i] by (simp_all add: src_ok_def)
  have fno: "unat ?fno = n" using n by (rule unat_u32)
  have guard: "\<not> (fq_have_next q \<and> sint (?fno - fq_next q) < 0)" using late frame_add_late [OF q n] by blast
  define f0 where "f0 = (case map_of (fq_pending q) ?fno of None \<Rightarrow> new_frame | Some f \<Rightarrow> f)"
  define f1 where "f1 = (if f_slices f0 = [] then f0\<lparr>f_count := of_nat (length (s_parts ?s)), f_first := now\<rparr> else f0)"
  have "frame_inv ?s f0 \<or> f0 = new_frame"
    using q fno by (auto simp: f0_def queue_inv_def split: option.splits dest!: map_of_SomeD)
  then have f1: "frame_inv ?s f1 \<or> f1 = new_frame\<lparr>f_count := of_nat (length (s_parts ?s)), f_first := now\<rparr>"
    by (auto simp: f1_def new_frame_def dest: frame_inv_fields(3))
  then have c: "f_count f1 = of_nat (length (s_parts ?s))" by (auto simp: frame_inv_fields(1))
  define f2 where "f2 = f1\<lparr>f_info_len := (if (if Suc i = length (s_parts ?s) then s_info ?s else 0) \<noteq> 0
             then (if Suc i = length (s_parts ?s) then s_info ?s else 0) else f_info_len f1),
           f_kind := s_kind ?s, f_slices := map_assign (of_nat i) (s_parts ?s ! i) (f_slices f1)\<rparr>"
  show thesis
  proof (rule that)
    show "frame_inv ?s f2" unfolding f2_def by (rule frame_store_inv [OF f1 i L(1)])
    show "frame_add now (src_header src n i) (s_parts ?s ! i) q = q\<lparr>fq_pending := map_assign ?fno f2 (fq_pending q)\<rparr>"
      unfolding frame_add_def src_header_simps Let_def f0_def [symmetric] f1_def [symmetric] unat_u16 [OF L(2)] c
        if_not_P [OF guard] by (simp add: f2_def)
    have "f_slices f1 = f_slices f0" by (simp add: f1_def)
    then show "f_slices f2 = map_assign (of_nat i) (s_parts ?s ! i)
       (case map_of (fq_pending q) ?fno of None \<Rightarrow> [] | Some f \<Rightarrow> f_slices f)"
      by (simp add: f2_def f0_def new_frame_def split: option.split)
  qed
qed

lemma frame_add_inv:
  assumes q: "queue_inv src q" and src: "src_ok src" and n: "n < 2 ^ 31" and i: "i < length (s_parts (src n))"
  shows "queue_inv src (frame_add now (src_header src n i) (s_parts (src n) ! i) q)"
proof (cases "fq_have_next q \<and> n < unat (fq_next q)")
  case True
  then have "fq_have_next q \<and> sint (of_nat n - fq_next q) < 0" using frame_add_late [OF q n] by blast
  then show ?thesis using q by (simp add: frame_add_def src_header_simps)
next
  case False
  obtain f where f: "frame_add now (src_header src n i) (s_parts (src n) ! i) q
      = q\<lparr>fq_pending := map_assign (of_nat n) f (fq_pending q)\<rparr>" "frame_inv (src n) f"
    by (rule frame_add_eq [OF q src n i False])
  have "fq_next q \<le> of_nat n" if "fq_have_next q"
    using False that unat_u32 [OF n] by (simp add: word_le_nat_alt)
  then show ?thesis
    unfolding f(1)
    using q f(2) unat_u32 [OF n] n map_assign_sorted [of "fq_pending q" "of_nat n" f] map_assign_set [of "of_nat n" f "fq_pending q"]
    by (fastforce simp: queue_inv_def)
qed

lemma frame_add_fields [simp]:
  "fq_have_next (frame_add now h p q) = fq_have_next q" "fq_next (frame_add now h p q) = fq_next q"
  "fq_need_key (frame_add now h p q) = fq_need_key q" "fq_any_frame (frame_add now h p q) = fq_any_frame q"
  by (simp_all add: frame_add_def Let_def)

text \<open>The frames handed on so far, and what the queue knows about them.\<close>

definition hist_inv :: "(nat \<Rightarrow> src_frame) \<Rightarrow> frame_queue \<Rightarrow> nat list \<Rightarrow> bool" where
  "hist_inv src q sent \<longleftrightarrow>
     sorted_wrt (<) sent \<and> (\<forall>m \<in> set sent. fq_have_next q \<and> m < unat (fq_next q)) \<and> (4 \<notin> s_kind ` src ` set sent) \<and>
     (\<not> fq_any_frame q \<longrightarrow> decodable src sent \<and>
        (\<not> fq_need_key q \<longrightarrow> sent \<noteq> [] \<and> (\<forall>j \<in> {Suc (last sent)..<unat (fq_next q)}. s_kind (src j) = 4)))"

lemma queue_inv_after:
  assumes "queue_inv src q" "fq_pending q = (fno, f) # rest"
  shows "queue_inv src (after_frame q)" "unat (fno + 1) = Suc (unat fno)"
proof -
  have fno: "unat fno < 2 ^ 31" using assms by (simp add: queue_inv_def)
  then show u: "unat (fno + 1) = Suc (unat fno)" by (simp add: unat_word_ariths)
  have "fno + 1 \<le> fst p" if "p \<in> set rest" for p
    using assms that u by (auto simp: queue_inv_def word_le_nat_alt word_less_nat_alt Suc_le_eq)
  then show "queue_inv src (after_frame q)"
    using assms u fno by (simp add: queue_inv_def after_frame_def)
qed

lemma queue_inv_fields:
  "fq_pending q' = fq_pending q \<Longrightarrow> fq_next q' = fq_next q \<Longrightarrow> fq_have_next q' = fq_have_next q \<Longrightarrow>
   queue_inv src q' = queue_inv src q"
  by (simp add: queue_inv_def)

lemma hist_inv_not_next: "hist_inv src q sent \<Longrightarrow> \<not> fq_have_next q \<Longrightarrow> sent = []"
  by (cases sent) (auto simp: hist_inv_def)

lemma deliver_frame_src:
  assumes "src_ok src" "frame_inv (src n) f" "length (f_slices f) = length (s_parts (src n))"
  shows "deliver_frame f q = Some
    (if s_kind (src n) = 4 then (q, [])
     else if fq_need_key q \<and> \<not> snd (src_out (src n)) \<and> \<not> fq_any_frame q
     then (q\<lparr>fq_dropped := fq_dropped q + 1\<rparr>, [])
     else (q\<lparr>fq_need_key := False\<rparr>, [src_out (src n)]))"
proof -
  obtain len where "frame_key f (concat (map snd (f_slices f))) = Some (len, snd (src_out (src n)))"
    "take len (concat (map snd (f_slices f))) = fst (src_out (src n))"
    using frame_key_src [OF assms(2,3)] assms(1) by (auto simp: src_ok_def)
  then show ?thesis
    using frame_inv_fields(2) [OF assms(2)] by (simp add: deliver_frame_def prod_eq_iff)
qed

text \<open>Delivering the first pending frame.\<close>

lemma deliver_inv:
  assumes q: "queue_inv src q" and src: "src_ok src" and h: "hist_inv src q sent"
    and p: "fq_pending q = (fno, f) # rest" and full: "length (f_slices f) = unat (f_count f)" and gap: "\<not> has_gap q"
  shows "\<exists>q1 ns. deliver_frame f q = Some (q1, map (\<lambda>n. src_out (src n)) ns) \<and> queue_inv src (after_frame q1) \<and>
    hist_inv src (after_frame q1) (sent @ ns) \<and> fq_any_frame q1 = fq_any_frame q"
proof -
  define n where "n = unat fno"
  have inv: "frame_inv (src n) f" using q p by (simp add: queue_inv_def n_def)
  have all: "length (f_slices f) = length (s_parts (src n))"
    using full frame_inv_count [OF inv] src by (simp add: src_ok_def)
  note del = deliver_frame_src [OF src inv all, of q]
  have next_n: "unat (fq_next q) = n" if "fq_have_next q" using gap p that by (simp add: has_gap_def n_def)
  have after: "unat (fno + 1) = Suc n" "queue_inv src (after_frame q)"
    using queue_inv_after [OF q p] by (simp_all add: n_def)
  have prev: "m < n" if "m \<in> set sent" for m using h that next_n by (auto simp: hist_inv_def)
  have known: "sent \<noteq> [] \<and> (\<forall>j \<in> {Suc (last sent)..<n}. s_kind (src j) = 4)"
    if "\<not> fq_any_frame q" "\<not> fq_need_key q"
    using h that next_n hist_inv_not_next [OF h] by (auto simp: hist_inv_def)
  consider (audio) "s_kind (src n) = 4"
    | (gated) "s_kind (src n) \<noteq> 4" "fq_need_key q" "\<not> snd (src_out (src n))" "\<not> fq_any_frame q"
    | (sent) "s_kind (src n) \<noteq> 4" "\<not> (fq_need_key q \<and> \<not> snd (src_out (src n)) \<and> \<not> fq_any_frame q)" by blast
  then show ?thesis
  proof cases
    case audio
    have "hist_inv src (after_frame q) (sent @ [])"
      using h prev known audio after(1) p
      by (auto simp: hist_inv_def after_frame_def less_Suc_eq)
    then show ?thesis using audio del after(2) by (intro exI [of _ q] exI [of _ "[]"]) simp
  next
    case gated
    let ?q = "q\<lparr>fq_dropped := fq_dropped q + 1\<rparr>"
    have "queue_inv src (after_frame ?q)" "hist_inv src (after_frame ?q) (sent @ [])"
      using after h prev gated p by (auto simp: hist_inv_def after_frame_def less_Suc_eq queue_inv_def)
    then show ?thesis
      using gated del by (intro exI [of _ ?q] exI [of _ "[]"]) simp
  next
    case sent
    let ?q = "q\<lparr>fq_need_key := False\<rparr>"
    have "queue_inv src (after_frame ?q)" using after(2) by (simp add: queue_inv_def after_frame_def)
    moreover have "hist_inv src (after_frame ?q) (sent @ [n])"
      using h prev known sent p after(1)
      by (auto simp: hist_inv_def after_frame_def less_Suc_eq decodable_snoc sorted_wrt_append)
    ultimately show ?thesis
      using sent del by (intro exI [of _ ?q] exI [of _ "[n]"]) auto
  qed
qed

lemma flush_inv:
  assumes "queue_inv src q" "src_ok src" "hist_inv src q sent"
  shows "\<exists>q' ns. flush clk holes q = Some (q', map (\<lambda>n. src_out (src n)) ns) \<and> queue_inv src q' \<and>
    hist_inv src q' (sent @ ns) \<and> fq_any_frame q' = fq_any_frame q"
  using assms
proof (induction clk holes q arbitrary: sent rule: flush.induct)
  case (1 clk holes q)
  show ?case
  proof (cases "fq_pending q")
    case Nil
    then show ?thesis using 1(4,6) by (intro exI [of _ q] exI [of _ "[]"]) (simp add: flush.simps)
  next
    case (Cons p rest)
    obtain fno f where p: "fq_pending q = (fno, f) # rest" using Cons by (cases p) auto
    let ?full = "length (f_slices f) = unat (f_count f)"
    let ?stop = "\<not> (has_gap q \<or> rest \<noteq> []) \<or> holes \<and> \<not> ms 500 < clk 0 - f_first f"
    let ?clk = "\<lambda>i. clk (Suc i)"
    consider (deliver) "?full \<and> \<not> has_gap q" | (stop) "\<not> (?full \<and> \<not> has_gap q)" ?stop
      | (gap) "\<not> (?full \<and> \<not> has_gap q)" "\<not> ?stop" "has_gap q"
      | (drop) "\<not> (?full \<and> \<not> has_gap q)" "\<not> ?stop" "\<not> has_gap q" by blast
    then show ?thesis
    proof cases
      case deliver
      obtain q1 ns where d: "deliver_frame f q = Some (q1, map (\<lambda>n. src_out (src n)) ns)" "queue_inv src (after_frame q1)"
        "hist_inv src (after_frame q1) (sent @ ns)" "fq_any_frame q1 = fq_any_frame q"
        using deliver_inv [OF 1(4,5,6) p] deliver by blast
      have d': "deliver_frame (snd (hd (fq_pending q))) q = Some (q1, map (\<lambda>n. src_out (src n)) ns)" using d(1) p by simp
      obtain q2 ns' where r: "flush clk holes (after_frame q1) = Some (q2, map (\<lambda>n. src_out (src n)) ns')" "queue_inv src q2"
        "hist_inv src q2 ((sent @ ns) @ ns')" "fq_any_frame q2 = fq_any_frame (after_frame q1)"
        using 1(1) [OF _ refl refl _ d' refl d(2) 1(5) d(3)] p deliver by auto
      show ?thesis using p deliver d r
        by (intro exI [of _ q2] exI [of _ "ns @ ns'"]) (simp add: flush.simps [of clk holes q] after_frame_def)
    next
      case stop
      then show ?thesis using p 1(4,6)
        by (intro exI [of _ q] exI [of _ "[]"]) (auto simp: flush.simps [of clk holes q] Let_def)
    next
      case gap
      let ?q = "q\<lparr>fq_need_key := True, fq_next := fno, fq_dropped := fq_dropped q + sint (fno - fq_next q)\<rparr>"
      have hn: "fq_have_next q" using gap(3) by (simp add: has_gap_def)
      have "unat (fq_next q) \<le> unat fno" using 1(4) hn p by (simp add: queue_inv_def word_le_nat_alt)
      then have "queue_inv src ?q" "hist_inv src ?q sent"
        using 1(4,6) p hn by (auto simp: queue_inv_def hist_inv_def less_imp_le)
      then have "\<exists>q' ns. flush ?clk holes ?q = Some (q', map (\<lambda>n. src_out (src n)) ns) \<and> queue_inv src q' \<and>
          hist_inv src q' (sent @ ns) \<and> fq_any_frame q' = fq_any_frame ?q"
        using 1(2) [OF _ refl refl _ _ _ _ 1(5)] p gap by auto
      moreover have "flush clk holes q = flush ?clk holes ?q"
        using p gap by (auto simp: flush.simps [of clk holes q] Let_def)
      ultimately show ?thesis by simp
    next
      case drop
      let ?q = "after_frame (q\<lparr>fq_need_key := True, fq_dropped := fq_dropped q + 1\<rparr>)"
      have next_n: "fq_next q = fno" if "fq_have_next q" using drop(3) p that by (simp add: has_gap_def)
      have "queue_inv src ?q" "hist_inv src ?q sent"
        using 1(4,6) p queue_inv_after [OF 1(4) p] next_n
        by (auto simp: queue_inv_def hist_inv_def after_frame_def less_Suc_eq)
      then have "\<exists>q' ns. flush ?clk holes ?q = Some (q', map (\<lambda>n. src_out (src n)) ns) \<and> queue_inv src q' \<and>
          hist_inv src q' (sent @ ns) \<and> fq_any_frame q' = fq_any_frame ?q"
        using 1(3) [OF _ refl refl _ _ _ _ 1(5)] p drop by auto
      moreover have "flush clk holes q = flush ?clk holes ?q"
        using p drop by (auto simp: flush.simps [of clk holes q] Let_def)
      ultimately show ?thesis by (simp add: after_frame_def)
    qed
  qed
qed

lemma fq_run_inv:
  assumes "queue_inv src q" "src_ok src" "hist_inv src q sent" "\<forall>e \<in> set es. event_ok src e"
  shows "\<exists>q' ns. fq_run src es q = Some (q', map (\<lambda>n. src_out (src n)) ns) \<and> queue_inv src q' \<and>
    hist_inv src q' (sent @ ns) \<and> fq_any_frame q' = fq_any_frame q"
  using assms
proof (induction es arbitrary: q sent)
  case (Cons e es)
  show ?case
  proof (cases e)
    case (Slice now n i)
    let ?q = "frame_add now (src_header src n i) (s_parts (src n) ! i) q"
    have "queue_inv src ?q" using Cons.prems Slice by (intro frame_add_inv) auto
    moreover have "hist_inv src ?q sent" using Cons.prems(3) by (simp add: hist_inv_def)
    ultimately show ?thesis using Cons.IH [of ?q sent] Cons.prems(2,4) Slice by simp
  next
    case (Flush clk holes)
    obtain q1 ns where q1: "flush clk holes q = Some (q1, map (\<lambda>n. src_out (src n)) ns)" "queue_inv src q1"
        "hist_inv src q1 (sent @ ns)" "fq_any_frame q1 = fq_any_frame q"
      using flush_inv [OF Cons.prems(1,2,3)] by blast
    obtain q2 ns' where "fq_run src es q1 = Some (q2, map (\<lambda>n. src_out (src n)) ns')" "queue_inv src q2"
        "hist_inv src q2 ((sent @ ns) @ ns')" "fq_any_frame q2 = fq_any_frame q1"
      using Cons.IH [OF q1(2) Cons.prems(2) q1(3)] Cons.prems(4) by auto
    then show ?thesis using q1 Flush by (intro exI [of _ q2] exI [of _ "ns @ ns'"]) simp
  qed
qed (auto intro!: exI [of _ "[] :: nat list"])

lemma new_queue_inv: "queue_inv src (new_queue any)" "hist_inv src (new_queue any) []"
  by (simp_all add: queue_inv_def hist_inv_def new_queue_def)

section \<open>Lemmas: a stream without losses\<close>



















section \<open>Properties\<close>

text \<open>
  C22. Whatever slices arrive, in whatever order, twice or never, and whenever the queue is
  flushed: every frame handed on is complete and unaltered (the payloads of its slices in
  order, without the trailer), frames leave in the order of their numbers and never twice, no
  audio frame leaves, and without \<open>any_frame\<close> every frame that is not a key frame follows the
  frame before it with nothing but audio in between, so that a decoder can use it. Frame
  numbers are below \<open>2^31\<close> and no trailer length is 1 or 2.
\<close>

theorem frames_in_order:
  assumes "src_ok src" "\<forall>e \<in> set es. event_ok src e"
  shows "\<exists>q ns. fq_run src es (new_queue any) = Some (q, map (\<lambda>n. src_out (src n)) ns) \<and>
    sorted_wrt (<) ns \<and> (\<forall>n \<in> set ns. s_kind (src n) \<noteq> 4) \<and> (\<not> any \<longrightarrow> decodable src ns)"
proof -
  obtain q ns where "fq_run src es (new_queue any) = Some (q, map (\<lambda>n. src_out (src n)) ns)"
      "hist_inv src q ns" "fq_any_frame q = any"
    using fq_run_inv [OF new_queue_inv(1) assms(1) new_queue_inv(2) assms(2), of any] by (auto simp: new_queue_def)
  then show ?thesis by (intro exI [of _ q] exI [of _ ns]) (auto simp: hist_inv_def)
qed

definition demo_src :: "nat \<Rightarrow> src_frame" where
  "demo_src n = \<lparr>s_kind = (if n = 1 then 5 else 7), s_info = 0, s_parts = [[of_nat n], [9]]\<rparr>"

definition demo_events :: "fq_event list" where
  "demo_events = [Slice 0 1 1, Slice 0 2 0, Slice 0 1 0, Flush (\<lambda>i. 0) False, Slice 0 2 1, Slice 0 1 0, Flush (\<lambda>i. 0) False]"

theorem frames_in_order_witness:
  "\<exists>q ns. fq_run demo_src demo_events (new_queue False) = Some (q, map (\<lambda>n. src_out (demo_src n)) ns) \<and>
    sorted_wrt (<) ns \<and> decodable demo_src ns"
proof -
  have ok: "src_ok demo_src" by (simp add: src_ok_def demo_src_def)
  have ev: "\<forall>e \<in> set demo_events. event_ok demo_src e" by (simp add: demo_events_def demo_src_def)
  show ?thesis using frames_in_order [OF ok ev, of False] by blast
qed




text \<open>
  Reading the key-frame flag of the trailer leaves the buffer exactly when the announced
  trailer is one or two bytes long: the flag is the third byte of the trailer, and the check
  before it only asks the data to be longer than the trailer.
\<close>

lemma short_trailer_overread:
  "frame_key f data = None \<longleftrightarrow>
   (unat (f_info_len f) = 1 \<or> unat (f_info_len f) = 2) \<and> unat (f_info_len f) < length data \<and>
   f_kind f \<noteq> 5 \<and> \<not> is_jpeg data"
proof -
  have "f_info_len f \<noteq> 0 \<longleftrightarrow> unat (f_info_len f) \<noteq> 0" by (simp add: unat_0_iff)
  then show ?thesis unfolding frame_key_def Let_def by (auto split: if_splits)
qed

end
