(* ===== verification/Tutk_Session.thy ===== *)
theory Tutk_Session
  imports Fec_Receiver Frame_Queue
begin

text \<open>
  Model of \<open>TutkSession\<close> of \<open>src/camera/tutk/TutkSession.cpp\<close>: the keep-alive packets, the
  handling of legacy and framed packets, the receive loop, and the attempts to connect.
  Packets handed to \<open>iotc_send_app_data\<close> and calls of the frame callback are recorded in the
  state, oldest first. What comes from outside (clock readings, received packets, requests of
  other threads, results of the connection routines) is an argument. Log lines and sleeps are
  left out.
\<close>

section \<open>State\<close>

record link_state =
  rx_newest :: u16
  rx_any :: bool
  hb_reported :: u16
  hb_count :: u16
  hb_first :: bool
  probe_first :: bool
  rx_since_ack :: u16
  rtt_ms :: u16
  last_hb :: int
  last_probe :: int

definition new_link :: link_state where
  "new_link = \<lparr>rx_newest = 0xffff, rx_any = False, hb_reported = 0xffff, hb_count = 0, hb_first = True,
     probe_first = True, rx_since_ack = 0, rtt_ms = 50, last_hb = 0, last_probe = 0\<rparr>"

definition note_stream_packet :: "u16 \<Rightarrow> link_state \<Rightarrow> link_state" where
  "note_stream_packet counter l =
     (if \<not> rx_any l \<or> 0 < sint (counter - rx_newest l) then l\<lparr>rx_newest := counter, rx_any := True\<rparr>
      else l\<lparr>rx_any := True\<rparr>)"

datatype mode = Video | Ctrl

record session_params =
  p_uid :: string
  p_passwd :: string

record tutk =
  t_ready :: bool
  t_has_cb :: bool
  t_mode :: mode
  t_ctrl_out :: "string list"
  t_out_seq :: u16
  t_ioctrl_index :: u16
  t_framed :: bool
  t_login_nonce :: u32
  t_link :: link_state
  t_started :: int
  t_sent :: "bytes list"
  t_delivered :: "(bytes \<times> int \<times> bool) list"

text \<open>The low 16 bits of the steady clock in milliseconds.\<close>

definition now_ms16 :: "int \<Rightarrow> u16" where
  "now_ms16 now = of_int (now div 1000000)"

definition send :: "bytes \<Rightarrow> tutk \<Rightarrow> tutk" where
  "send pkt s = s\<lparr>t_sent := t_sent s @ [pkt]\<rparr>"

section \<open>Packets sent\<close>

definition put_header :: "byte \<Rightarrow> byte \<Rightarrow> bytes \<Rightarrow> tutk \<Rightarrow> bytes \<times> tutk" where
  "put_header type flag pkt s =
     (put_at 0 ([type, flag] @ le16 kAvVersion @ le16 (t_out_seq s)) pkt, s\<lparr>t_out_seq := t_out_seq s + 1\<rparr>)"

definition send_login :: "session_params \<Rightarrow> tutk \<Rightarrow> tutk" where
  "send_login p s =
     (let nonce_a = (if t_framed s then t_login_nonce s else ucast (t_out_seq s));
          s1 = (if t_framed s then s else s\<lparr>t_out_seq := t_out_seq s + 1\<rparr>);
          nonce_b = (if t_framed s then t_login_nonce s + 1 else ucast (t_out_seq s1));
          s2 = (if t_framed s then s1 else s1\<lparr>t_out_seq := t_out_seq s1 + 1\<rparr>)
      in send (build_av_login 0x20 nonce_b (t_framed s) (p_passwd p) (p_uid p))
           (send (build_av_login 0x00 nonce_a (t_framed s) (p_passwd p) (p_uid p)) s2))"

definition send_ioctrl :: "u32 \<Rightarrow> bytes \<Rightarrow> tutk \<Rightarrow> tutk" where
  "send_ioctrl io_type data s =
     (let hdr = (if t_framed s then 16 else 8);
          body = build_ioctrl_body io_type data (if t_framed s then t_ioctrl_index s else 0);
          s1 = (if t_framed s then s\<lparr>t_ioctrl_index := t_ioctrl_index s + 1\<rparr> else s);
          (pkt, s2) = put_header (if t_framed s then kTypeFramed else 0) (if t_framed s then 0 else 0x70)
                        (replicate (hdr + length body) 0) s1
      in send (put_at hdr body pkt) s2)"

definition send_channel_ioctrl :: "u32 \<Rightarrow> u32 \<Rightarrow> tutk \<Rightarrow> tutk" where
  "send_channel_ioctrl io_type channel s = send_ioctrl io_type (le32 channel @ replicate 4 0) s"

definition drain_ctrl :: "tutk \<Rightarrow> tutk" where
  "drain_ctrl s =
     foldl (\<lambda>s json. send_ioctrl kIoTypeCtrl (bytes_of_string json) s) (s\<lparr>t_ctrl_out := []\<rparr>) (t_ctrl_out s)"

definition send_start :: "tutk \<Rightarrow> tutk" where
  "send_start s =
     (if t_mode s = Ctrl then s
      else let s1 = send_channel_ioctrl kIoTypeIpcamStart 0 s
           in if \<not> t_framed s1 then send_channel_ioctrl kIoTypeIpcamStart 1 s1 else s1)"

definition send_stop :: "tutk \<Rightarrow> tutk" where
  "send_stop s =
     (if t_mode s = Ctrl then s
      else let s1 = send_channel_ioctrl kIoTypeIpcamStop 0 s
           in if \<not> t_framed s1 then send_channel_ioctrl kIoTypeIpcamStop 1 s1 else s1)"

definition send_transport_ack :: "u16 \<Rightarrow> u16 \<Rightarrow> tutk \<Rightarrow> tutk \<times> u16" where
  "send_transport_ack pkt_seq ack_count s =
     (let (ack, s1) = put_header kTypeProbeAck 0 (replicate 20 0) s
      in (send (put_at 8 (le16 pkt_seq @ le16 1 @ le16 ack_count) ack) s1, ack_count + 1))"

definition send_heartbeat :: "int \<Rightarrow> tutk \<Rightarrow> tutk" where
  "send_heartbeat now s =
     (let (pkt, s1) = put_header kTypeHeartbeat 0 (replicate 24 0) s;
          l = t_link s1;
          newest = (if rx_any l then rx_newest l else 0xffff);
          pkt1 = (if hb_first l then put_at 8 (replicate 6 0xff) pkt
                  else put_at 8 (le16 (hb_reported l) @ le16 newest @ le32 1) pkt);
          l1 = (if hb_first l then l\<lparr>hb_first := False\<rparr> else l\<lparr>hb_reported := newest\<rparr>)
      in send (put_at 18 (le16 (hb_count l1) @ le16 (now_ms16 now)) pkt1)
           (s1\<lparr>t_link := l1\<lparr>hb_count := hb_count l1 + 1\<rparr>\<rparr>))"

definition send_probe :: "int \<Rightarrow> tutk \<Rightarrow> tutk" where
  "send_probe now s =
     (let (pkt, s1) = put_header kTypeProbe 0x08 (replicate 16 0) s;
          l = t_link s1
      in send (put_at 8 (le16 (now_ms16 now) @ le16 (rtt_ms l) @ le32 (if probe_first l then 0x30 else 1)) pkt)
           (s1\<lparr>t_link := l\<lparr>probe_first := False\<rparr>\<rparr>))"

definition send_probe_ack :: "u16 \<Rightarrow> tutk \<Rightarrow> tutk" where
  "send_probe_ack echo_ts s =
     (let l = t_link s; n = le16 (rx_since_ack l)
      in send ([kTypeProbeAck, 0] @ le16 kAvVersion @ [0, 0, 0x1f, 0] @ le16 echo_ts @ n @ n @ replicate 6 0)
           (s\<lparr>t_link := l\<lparr>rx_since_ack := 0\<rparr>\<rparr>))"

text \<open>The clock is read on entry and again by each of the two packets.\<close>

definition tick_link :: "(nat \<Rightarrow> int) \<Rightarrow> tutk \<Rightarrow> tutk" where
  "tick_link clk s =
     (let now = clk 0;
          s1 = (if ms 100 \<le> now - last_hb (t_link s)
                then send_heartbeat (clk 1) (s\<lparr>t_link := (t_link s)\<lparr>last_hb := now\<rparr>\<rparr>) else s)
      in if ms 200 \<le> now - last_probe (t_link s1)
         then send_probe (clk 2) (s1\<lparr>t_link := (t_link s1)\<lparr>last_probe := now\<rparr>\<rparr>) else s1)"

definition deliver_cb :: "int \<Rightarrow> bytes \<times> bool \<Rightarrow> tutk \<Rightarrow> tutk" where
  "deliver_cb now fk s =
     (if \<not> t_has_cb s \<or> fst fk = [] then s
      else s\<lparr>t_delivered := t_delivered s @ [(fst fk, (now - t_started s) div 1000, snd fk)]\<rparr>)"

section \<open>Packets received\<close>

text \<open>State of the receive loop.\<close>

record receive_state =
  r_legacy :: legacy_assembler
  r_fecs :: fec_receiver
  r_queue :: frame_queue
  r_ack_count :: u16
  r_frames :: int
  r_retries :: int
  r_start_triggers :: int
  r_last_retry :: int
  r_last_data :: int

definition new_receive :: "mode \<Rightarrow> int \<Rightarrow> receive_state" where
  "new_receive m now =
     \<lparr>r_legacy = new_assembler, r_fecs = new_receiver, r_queue = new_queue (m = Ctrl), r_ack_count = 1,
      r_frames = 0, r_retries = 0, r_start_triggers = 0, r_last_retry = now, r_last_data = now\<rparr>"

definition legacy_control :: "bytes \<Rightarrow> tutk \<Rightarrow> receive_state \<Rightarrow> tutk \<times> receive_state" where
  "legacy_control pkt s r =
     (let flag = pkt ! 1
      in if flag = 0x21 then (send_start s, r)
         else if flag = 0x10 then
           (if length pkt < 24 then (s, r)
            else let s1 = send (put_at 16 [0, 0] (put_at 9 [0x11] (put_at 1 [0x11] (take 24 pkt)))) s
                 in (if r_start_triggers r < 3 then send_start s1 else s1,
                     r\<lparr>r_start_triggers := r_start_triggers r + 1\<rparr>))
         else if flag = 0x70 then
           (if length pkt < 24 then (s, r) else (send (put_at 16 [0, 0] (put_at 1 [0x71] (take 24 pkt))) s, r))
         else if flag = 0x12 then
           (if length pkt < 24 then (s, r)
            else (send (put_at 16 [20] (put_at 1 [0x13] (take 24 pkt))
                        @ (if 44 \<le> length pkt then take 20 (drop 24 pkt) else replicate 20 0)) s, r))
         else (s, r))"

text \<open>The frame with the 16-byte info block in front of it taken off, and whether it is a key frame.\<close>

definition legacy_payload :: "bytes \<Rightarrow> bytes \<times> bool" where
  "legacy_payload frame =
     (let info = (\<not> is_jpeg frame \<and> 16 < length frame \<and>
            (starts_with_start_code (drop 16 frame) \<or> is_jpeg (drop 16 frame)));
          payload = (if info then drop 16 frame else frame);
          key = (if is_jpeg frame then True else if info then frame ! 2 = 1 else False)
      in (payload, key \<or> is_jpeg payload \<or> starts_with_start_code payload \<and> h264_is_keyframe payload))"

definition legacy_stream :: "int \<Rightarrow> bytes \<Rightarrow> tutk \<Rightarrow> receive_state \<Rightarrow> tutk \<times> receive_state" where
  "legacy_stream now pkt s r =
     (let type = pkt ! 0; flag = pkt ! 1; pkt_seq = get_le16 (drop 4 pkt);
          with_ack = (flag AND 0x08 \<noteq> 0);
          (s1, n1) = (if with_ack then send_transport_ack pkt_seq (r_ack_count r) s else (s, r_ack_count r));
          r1 = r\<lparr>r_ack_count := n1\<rparr>;
          kind = (if type = 0x01 then flag else type);
          extra = (if with_ack then 8 else 0);
          hdr = 8 + extra; data = 28 + extra
      in if kind = 0x04 \<or> length pkt \<le> data then (s1, r1)
         else let slice_len0 = unat (get_le16 (drop (hdr + 8) pkt));
                  slice_len = (if slice_len0 = 0 \<or> length pkt < data + slice_len0 then length pkt - data else slice_len0);
                  (full, a) = legacy_add (get_le32 (drop (hdr + 12) pkt)) (get_le16 (drop (hdr + 2) pkt))
                                (get_le16 (drop (hdr + 4) pkt)) (take slice_len (drop data pkt)) (r_legacy r1)
              in if \<not> full then (s1, r1\<lparr>r_legacy := a\<rparr>)
                 else let (frame, a') = legacy_take a
                      in (deliver_cb now (legacy_payload frame) s1,
                          r1\<lparr>r_legacy := a', r_frames := r_frames r1 + 1\<rparr>))"

definition handle_legacy :: "int \<Rightarrow> bytes \<Rightarrow> tutk \<Rightarrow> receive_state \<Rightarrow> tutk \<times> receive_state" where
  "handle_legacy now pkt s r =
     (let type = pkt ! 0
      in if type = 0 then legacy_control pkt s r
         else if type \<noteq> 0x01 \<and> (type < 0x03 \<or> 0x08 < type) then (s, r)
         else legacy_stream now pkt s r)"

definition handle_framed ::
  "(nat \<Rightarrow> int) \<Rightarrow> bytes \<Rightarrow> tutk \<Rightarrow> fec_receiver \<Rightarrow> frame_queue \<Rightarrow> tutk \<times> fec_receiver \<times> frame_queue" where
  "handle_framed clk pkt s fecs q =
     (let probe = (pkt ! 1 AND 0x08 \<noteq> 0);
          off = (if probe then 16 else 8)
      in if probe \<and> length pkt < 16 then (s, fecs, q)
         else let s1 = (if probe then send_probe_ack (get_le16 (drop 8 pkt)) s else s)
              in if length pkt < off + 8 then (s1, fecs, q)
                 else let grp = get_le16 (drop off pkt); idx = pkt ! (off + 2); k = pkt ! (off + 3);
                          m = get_le32 (drop (off + 4) pkt); body = drop (off + 8) pkt
                      in if k = 0 \<or> 255 - ucast k < m then (s1, fecs, q)
                         else let s2 = s1\<lparr>t_link := note_stream_packet (get_le16 (drop 4 pkt)) (t_link s1)\<rparr>;
                                  (fecs', slices) = fec_add grp idx k (ucast m) body fecs
                              in (s2, fecs', add_slices clk slices q))"

section \<open>The receive loop\<close>

text \<open>
  One pass through the loop: whether \<open>joined\<close> was still set, the requests other threads have
  queued, the clock reading at the top of the pass and the later ones, and what
  \<open>iotc_recv_app_data\<close> returned (a negative code, or a packet; a timeout is an empty one).
\<close>

datatype recv_result = RecvFail int | RecvData bytes

record tick =
  k_joined :: bool
  k_ctrl :: "string list"
  k_now :: int
  k_clk :: "nat \<Rightarrow> int"
  k_recv :: recv_result

datatype outcome = Returns int tutk | Goes_on tutk receive_state | Undefined

text \<open>Every frame the queue emits: the counter of the loop, and the callback.\<close>

fun emit_all :: "(nat \<Rightarrow> int) \<Rightarrow> (bytes \<times> bool) list \<Rightarrow> tutk \<Rightarrow> receive_state \<Rightarrow> tutk \<times> receive_state" where
  "emit_all clk [] s r = (s, r)"
| "emit_all clk (fk # fks) s r =
     emit_all (\<lambda>i. clk (Suc i)) fks (deliver_cb (clk 0) fk s) (r\<lparr>r_frames := r_frames r + 1\<rparr>)"

text \<open>Repeating the login: \<open>None\<close> when the five attempts are used up.\<close>

definition retry_login :: "session_params \<Rightarrow> int \<Rightarrow> tutk \<Rightarrow> receive_state \<Rightarrow> (tutk \<times> receive_state) option" where
  "retry_login p now s r =
     (if ms 1500 \<le> now - r_last_retry r
      then (if 5 < r_retries r + 1 then None
            else let s1 = send_login p s
                 in Some (if t_mode s = Ctrl then s1 else send_start s1,
                          r\<lparr>r_retries := r_retries r + 1, r_last_retry := now\<rparr>))
      else Some (s, r))"

text \<open>The upper half of a pass: retries, queued requests, the watchdog. \<open>Inl\<close> is a return.\<close>

definition pass_head :: "session_params \<Rightarrow> int \<Rightarrow> tutk \<Rightarrow> receive_state \<Rightarrow> int \<times> tutk + tutk \<times> receive_state" where
  "pass_head p now s r =
     (if t_mode s = Ctrl
      then (case (if t_ready s then Some (s, r) else retry_login p now s r) of
              None \<Rightarrow> Inl (-1, s)
            | Some (s1, r1) \<Rightarrow>
                let s2 = (if t_ready s1 then drain_ctrl s1 else s1)
                in if ms 5000 \<le> now - r_last_data r1 then Inl (-4, s2) else Inr (s2, r1))
      else if r_frames r = 0
      then (case retry_login p now s r of None \<Rightarrow> Inl (-1, s) | Some x \<Rightarrow> Inr x)
      else if ms 5000 \<le> now - r_last_data r then Inl (-4, s) else Inr (s, r))"

text \<open>The round-trip estimate after the answer to a probe.\<close>

definition probe_answered :: "u16 \<Rightarrow> link_state \<Rightarrow> link_state" where
  "probe_answered rtt l =
     (if rtt < 5000 then l\<lparr>rtt_ms := of_nat ((unat (rtt_ms l) * 7 + unat rtt) div 8)\<rparr> else l)"

definition handle_packet :: "(nat \<Rightarrow> int) \<Rightarrow> bytes \<Rightarrow> tutk \<Rightarrow> receive_state \<Rightarrow> outcome" where
  "handle_packet clk pkt s0 r =
     (let s = s0\<lparr>t_link := (t_link s0)\<lparr>rx_since_ack := rx_since_ack (t_link s0) + 1\<rparr>\<rparr>; type = pkt ! 0
      in if type = 0 then
           Goes_on (if pkt ! 1 = 0x21 \<and> t_mode s = Ctrl then s\<lparr>t_ready := True\<rparr> else s) r
         else if type = kTypeFramed then
           (let (s1, fecs, q) = handle_framed (\<lambda>i. clk (3 * i)) pkt s (r_fecs r) (r_queue r)
            in case flush (\<lambda>i. clk (3 * i + 1)) (has_holes fecs) q of
                 None \<Rightarrow> Undefined
               | Some (q', out) \<Rightarrow>
                   let (s2, r2) = emit_all (\<lambda>i. clk (3 * i + 2)) out s1 (r\<lparr>r_fecs := fecs, r_queue := q'\<rparr>)
                   in Goes_on s2 r2)
         else if type = kTypeProbe then
           Goes_on (if 16 \<le> length pkt then send_probe_ack (get_le16 (drop 8 pkt)) s else s) r
         else if type = kTypeProbeAck then
           Goes_on (if 10 \<le> length pkt
                    then s\<lparr>t_link := probe_answered (now_ms16 (clk 0) - get_le16 (drop 8 pkt)) (t_link s)\<rparr> else s) r
         else Goes_on s r)"

text \<open>
  The clock of a pass: readings 0 to 2 are the link's, 3 is taken when a packet has arrived,
  the rest belong to the handling of the packet.
\<close>

definition receive_step :: "session_params \<Rightarrow> tick \<Rightarrow> tutk \<Rightarrow> receive_state \<Rightarrow> outcome" where
  "receive_step p k s00 r0 =
     (let s0 = s00\<lparr>t_ctrl_out := t_ctrl_out s00 @ k_ctrl k\<rparr>
      in if \<not> k_joined k then Returns 0 (send_stop s0)
         else case pass_head p (k_now k) s0 r0 of
                Inl (rc, s1) \<Rightarrow> Returns rc s1
              | Inr (s1, r1) \<Rightarrow>
                  let s = (if t_framed s1 then tick_link (k_clk k) s1 else s1)
                  in case k_recv k of
                       RecvFail n \<Rightarrow> Returns n s
                     | RecvData pkt \<Rightarrow>
                         if length pkt < 8 then Goes_on s r1
                         else let r = r1\<lparr>r_last_data := k_clk k 3\<rparr>; clk = (\<lambda>i. k_clk k (4 + i))
                              in if get_le16 (drop 2 pkt) \<noteq> kAvVersion then Goes_on s r
                                 else if \<not> t_framed s then (let (s', r') = handle_legacy (clk 0) pkt s r in Goes_on s' r')
                                 else handle_packet clk pkt s r)"

fun receive_loop :: "session_params \<Rightarrow> tick list \<Rightarrow> tutk \<Rightarrow> receive_state \<Rightarrow> outcome" where
  "receive_loop p [] s r = Goes_on s r"
| "receive_loop p (k # ks) s r =
     (case receive_step p k s r of Goes_on s' r' \<Rightarrow> receive_loop p ks s' r' | oc \<Rightarrow> oc)"

definition receive :: "session_params \<Rightarrow> int \<Rightarrow> tick list \<Rightarrow> tutk \<Rightarrow> outcome" where
  "receive p now ks s = receive_loop p ks s (new_receive (t_mode s) now)"

section \<open>Connecting\<close>

text \<open>
  The race of the two searches: whether the LAN search was over when its head start ended,
  what it returned, and what the relay search returns if it is started.
\<close>

datatype path = Lan_path | Relay_path | No_path

definition open_path :: "bool \<Rightarrow> int \<Rightarrow> int \<Rightarrow> path" where
  "open_path lan_done lan_rc relay_result =
     (let relay_rc = (if \<not> lan_done \<or> lan_rc \<noteq> 0 then relay_result else -1)
      in if lan_rc = 0 then Lan_path else if relay_rc = 0 then Relay_path else No_path)"

record connect_try =
  c_joined :: bool
  c_path :: path
  c_dtls_ok :: bool
  c_nonce :: u32
  c_resp :: bytes
  c_clk :: "nat \<Rightarrow> int"

text \<open>After a successful handshake: the login and the choice of the transport.\<close>

definition login_phase :: "session_params \<Rightarrow> connect_try \<Rightarrow> tutk \<Rightarrow> int \<times> tutk" where
  "login_phase p c s0 =
     (let s1 = send_login p (s0\<lparr>t_out_seq := 1, t_ioctrl_index := 0, t_link := new_link, t_login_nonce := c_nonce c\<rparr>);
          resp = c_resp c;
          answered = (40 \<le> length resp \<and> resp ! 0 = 0x00 \<and> resp ! 1 = 0x21);
          legacy = (answered \<and> t_framed s1 \<and> get_le32 (drop 36 resp) = 0)
      in if legacy \<and> t_mode s1 = Ctrl then (-2, s1)
         else let s2 = (if legacy then send_login p (s1\<lparr>t_framed := False\<rparr>)
                        else if answered \<and> t_mode s1 = Ctrl then s1\<lparr>t_ready := True\<rparr> else s1)
              in (0, if t_framed s2
                     then (let s3 = send_heartbeat (c_clk c 1) (send_start (send_probe (c_clk c 0) s2))
                           in s3\<lparr>t_link := (t_link s3)\<lparr>last_hb := c_clk c 2, last_probe := c_clk c 2\<rparr>\<rparr>)
                     else send_start s2))"

text \<open>At most three tries; a list that ends before stands for tries that find \<open>joined\<close> cleared.\<close>

fun connect_loop :: "session_params \<Rightarrow> nat \<Rightarrow> connect_try list \<Rightarrow> tutk \<Rightarrow> int \<times> tutk" where
  "connect_loop p 0 cs s = (-1, s)"
| "connect_loop p (Suc n) [] s = (-1, s)"
| "connect_loop p (Suc n) (c # cs) s =
     (if \<not> c_joined c then (-1, s)
      else if c_path c = No_path \<or> \<not> c_dtls_ok c then connect_loop p n cs s
      else login_phase p c s)"

definition connect :: "session_params \<Rightarrow> connect_try list \<Rightarrow> tutk \<Rightarrow> int \<times> tutk" where
  "connect p cs s = connect_loop p 3 cs (s\<lparr>t_ready := False\<rparr>)"

text \<open>One round of \<open>run\<close>: the flag at its start, the tries, the passes of the loop, the flag after it.\<close>

record round =
  d_joined :: bool
  d_tries :: "connect_try list"
  d_now :: int
  d_ticks :: "tick list"
  d_joined_after :: bool

fun run_loop :: "session_params \<Rightarrow> nat \<Rightarrow> round list \<Rightarrow> tutk \<Rightarrow> outcome" where
  "run_loop p 0 ds s = Returns 0 (s\<lparr>t_ready := False\<rparr>)"
| "run_loop p (Suc n) [] s = Returns 0 (s\<lparr>t_ready := False\<rparr>)"
| "run_loop p (Suc n) (d # ds) s =
     (if \<not> d_joined d then Returns 0 (s\<lparr>t_ready := False\<rparr>)
      else let (rc, s1) = connect p (d_tries d) s;
               again = (\<lambda>s'. if d_joined_after d then run_loop p n ds s' else Returns 0 (s'\<lparr>t_ready := False\<rparr>))
           in if rc = 0
              then (case receive p (d_now d) (d_ticks d) s1 of
                      Returns rc' s2 \<Rightarrow> if rc' = 0 then Returns 0 (s2\<lparr>t_ready := False\<rparr>) else again s2
                    | Goes_on s2 r2 \<Rightarrow> Goes_on s2 r2
                    | Undefined \<Rightarrow> Undefined)
              else if rc = -2 then Returns 0 (s1\<lparr>t_ready := False\<rparr>)
              else again s1)"

definition run :: "session_params \<Rightarrow> round list \<Rightarrow> tutk \<Rightarrow> outcome" where
  "run p ds s = run_loop p 5 ds s"

section \<open>The interface\<close>

definition kMaxCtrlLen :: nat where "kMaxCtrlLen = 1200"

definition join :: "bool \<Rightarrow> mode \<Rightarrow> int \<Rightarrow> tutk \<Rightarrow> tutk" where
  "join has_cb m now s =
     s\<lparr>t_has_cb := has_cb, t_mode := m, t_started := now, t_framed := True, t_ctrl_out := []\<rparr>"

definition send_ctrl :: "bool \<Rightarrow> string \<Rightarrow> string list \<Rightarrow> bool \<times> string list" where
  "send_ctrl joined json queue =
     (if json = [] \<or> kMaxCtrlLen < length json \<or> \<not> joined then (False, queue) else (True, queue @ [json]))"

section \<open>Lemmas: packets\<close>

lemma nth_put_at_before: "i < off \<Longrightarrow> off \<le> length buf \<Longrightarrow> put_at off src buf ! i = buf ! i"
  by (simp add: put_at_def nth_append)

lemma take_put_at: "n \<le> off \<Longrightarrow> off \<le> length buf \<Longrightarrow> take n (put_at off src buf) = take n buf"
  by (simp add: put_at_def min_def)

lemma drop_put_at: "off \<le> length buf \<Longrightarrow> drop off (put_at off src buf) = src @ drop (off + length src) buf"
  by (simp add: put_at_def)

text \<open>The counter of a packet, and the packets that carry one in the framed transport.\<close>

definition counter_of :: "bytes \<Rightarrow> u16" where
  "counter_of pkt = get_le16 (drop 4 pkt)"

definition counted :: "bytes \<Rightarrow> bool" where
  "counted pkt \<longleftrightarrow> pkt ! 0 = kTypeFramed \<or> pkt ! 0 = kTypeHeartbeat \<or> pkt ! 0 = kTypeProbe"

lemma header_only:
  assumes "take 6 pkt = take 6 pkt'" "6 \<le> length pkt" "6 \<le> length pkt'"
  shows "counter_of pkt = counter_of pkt'" "counted pkt = counted pkt'"
proof -
  have "pkt ! i = pkt' ! i" if "i < 6" for i using assms(1) that by (metis nth_take)
  then show "counter_of pkt = counter_of pkt'" "counted pkt = counted pkt'"
    using assms(2,3) by (simp_all add: counter_of_def get_le16_def counted_def)
qed

lemma put_header_take:
  assumes "put_header ty fl buf s = (pkt, s1)" "6 \<le> length buf"
  shows "take 6 pkt = [ty, fl] @ le16 kAvVersion @ le16 (t_out_seq s)" "length pkt = length buf"
    "s1 = s\<lparr>t_out_seq := t_out_seq s + 1\<rparr>"
  using assms by (auto simp: put_header_def put_at_def)

lemma header_fields:
  assumes "take 6 pkt = [ty, fl] @ le16 kAvVersion @ le16 n" "6 \<le> length pkt"
  shows "counter_of pkt = n" "pkt ! 0 = ty"
proof -
  have p: "pkt = ([ty, fl] @ le16 kAvVersion) @ le16 n @ drop 6 pkt"
    using append_take_drop_id [of 6 pkt] unfolding assms(1) by simp
  show "pkt ! 0 = ty" by (subst p) simp
  show "counter_of pkt = n" unfolding counter_of_def by (subst p, rule le16.dec_after) simp
qed

section \<open>Lemmas: packet counters\<close>

text \<open>The counted packets sent so far carry 1, 2, 3, ... and the next number is ready.\<close>

definition numbered :: "tutk \<Rightarrow> bool" where
  "numbered s \<longleftrightarrow>
     (let cs = filter counted (t_sent s)
      in map counter_of cs = map (\<lambda>i. of_nat (Suc i)) [0..<length cs] \<and> t_out_seq s = of_nat (Suc (length cs)))"

lemma numbered_fields:
  "t_sent s' = t_sent s \<Longrightarrow> t_out_seq s' = t_out_seq s \<Longrightarrow> numbered s' = numbered s"
  by (simp add: numbered_def)

lemma numbered_send_other: "numbered s \<Longrightarrow> \<not> counted pkt \<Longrightarrow> numbered (send pkt s)"
  by (simp add: numbered_def send_def)

lemma numbered_send_next:
  assumes "numbered s" "counted pkt" "counter_of pkt = t_out_seq s"
    "t_sent s1 = t_sent s" "t_out_seq s1 = t_out_seq s + 1"
  shows "numbered (send pkt s1)"
  using assms by (simp add: numbered_def send_def Let_def add.commute)

section \<open>Invariants of a framed session\<close>

text \<open>
  A property of the session that every operation of the framed transport keeps, also when the
  fields change that only the loop writes, holds as long as the receive loop runs and when it
  returns.
\<close>

locale session_invariant =
  fixes I :: "tutk \<Rightarrow> bool"
  assumes framed: "I s \<Longrightarrow> t_framed s"
    and queue: "I s \<Longrightarrow> I (s\<lparr>t_ctrl_out := x\<rparr>)"
    and ready: "I s \<Longrightarrow> I (s\<lparr>t_ready := b\<rparr>)"
    and delivered: "I s \<Longrightarrow> I (s\<lparr>t_delivered := d\<rparr>)"
    and login: "I s \<Longrightarrow> I (send_login p s)"
    and ioctrl: "I s \<Longrightarrow> I (send_ioctrl ty data s)"
    and heartbeat: "I s \<Longrightarrow> I (send_heartbeat now s)"
    and probe: "I s \<Longrightarrow> I (send_probe now s)"
    and probe_ack: "I s \<Longrightarrow> I (send_probe_ack ts s)"
    and timers: "I s \<Longrightarrow> I (s\<lparr>t_link := (t_link s)\<lparr>last_hb := now\<rparr>\<rparr>)"
      "I s \<Longrightarrow> I (s\<lparr>t_link := (t_link s)\<lparr>last_probe := now\<rparr>\<rparr>)"
    and received: "I s \<Longrightarrow> I (s\<lparr>t_link := (t_link s)\<lparr>rx_since_ack := n\<rparr>\<rparr>)"
    and stream: "I s \<Longrightarrow> I (s\<lparr>t_link := note_stream_packet c (t_link s)\<rparr>)"
    and answer: "I s \<Longrightarrow> I (s\<lparr>t_link := probe_answered rtt (t_link s)\<rparr>)"
begin

fun holds :: "outcome \<Rightarrow> bool" where
  "holds (Returns rc s) \<longleftrightarrow> I s"
| "holds (Goes_on s r) \<longleftrightarrow> I s"
| "holds Undefined \<longleftrightarrow> True"

lemma start_stop: "I s \<Longrightarrow> I (send_start s)" "I s \<Longrightarrow> I (send_stop s)"
  by (simp_all add: send_start_def send_stop_def send_channel_ioctrl_def Let_def ioctrl)

lemma drain: "I s \<Longrightarrow> I (drain_ctrl s)"
proof -
  have "I (foldl (\<lambda>s json. send_ioctrl kIoTypeCtrl (bytes_of_string json) s) s xs)" if "I s" for s xs
    using that by (induction xs arbitrary: s) (simp_all add: ioctrl)
  then show "I s \<Longrightarrow> I (drain_ctrl s)" by (simp add: drain_ctrl_def queue)
qed

lemma tick: "I s \<Longrightarrow> I (tick_link clk s)"
  by (simp add: tick_link_def Let_def heartbeat probe timers)

lemma retry: "I s \<Longrightarrow> retry_login p now s r = Some (s', r') \<Longrightarrow> I s'"
  by (auto simp: retry_login_def Let_def login start_stop split: if_splits)

lemma head: "I s \<Longrightarrow> pass_head p now s r = Inr (s', r') \<Longrightarrow> I s'" "I s \<Longrightarrow> pass_head p now s r = Inl (rc, s') \<Longrightarrow> I s'"
  by (auto simp: pass_head_def Let_def drain split: if_splits option.splits) (use retry drain in blast)+

lemma emits: "I s \<Longrightarrow> I (fst (emit_all clk fks s r))"
  by (induction clk fks s r rule: emit_all.induct) (simp_all add: deliver_cb_def delivered)

lemma framed_packet: "I s \<Longrightarrow> I (fst (handle_framed clk pkt s fecs q))"
  by (auto simp: handle_framed_def Let_def probe_ack stream split: prod.splits)

lemma packet: "I s \<Longrightarrow> holds (handle_packet clk pkt s r)"
proof -
  assume "I s"
  then have s: "I (s\<lparr>t_link := (t_link s)\<lparr>rx_since_ack := rx_since_ack (t_link s) + 1\<rparr>\<rparr>)" by (rule received)
  define s' where "s' = s\<lparr>t_link := (t_link s)\<lparr>rx_since_ack := rx_since_ack (t_link s) + 1\<rparr>\<rparr>"
  obtain s1 fecs q where h: "handle_framed (\<lambda>i. clk (3 * i)) pkt s' (r_fecs r) (r_queue r) = (s1, fecs, q)" by (metis prod_cases3)
  have s1: "I s1" using framed_packet [OF s, folded s'_def, of "\<lambda>i. clk (3 * i)" pkt "r_fecs r" "r_queue r"] h by simp
  show ?thesis
  proof (cases "pkt ! 0 = kTypeFramed")
    case True
    then have t: "pkt ! 0 \<noteq> 0" by (simp add: kTypeFramed_def)
    show ?thesis
    proof (cases "flush (\<lambda>i. clk (3 * i + 1)) (has_holes fecs) q")
      case None
      then show ?thesis using True t h by (simp add: handle_packet_def s'_def [symmetric])
    next
      case (Some a)
      then show ?thesis
        using True t h emits [OF s1, of "\<lambda>i. clk (3 * i + 2)" "snd a" "r\<lparr>r_fecs := fecs, r_queue := fst a\<rparr>"]
        by (cases a) (auto simp: handle_packet_def s'_def [symmetric] split: prod.splits)
    qed
  next
    case False
    then show ?thesis
      using s unfolding handle_packet_def Let_def s'_def [symmetric] by (simp add: ready probe_ack answer)
  qed
qed

lemma step: "I s \<Longrightarrow> holds (receive_step p k s r)"
proof -
  assume I: "I s"
  let ?s = "s\<lparr>t_ctrl_out := t_ctrl_out s @ k_ctrl k\<rparr>"
  have s: "I ?s" using I by (rule queue)
  show ?thesis
  proof (cases "pass_head p (k_now k) ?s r")
    case (Inl a)
    then show ?thesis using head(2) [OF s, of p "k_now k" r] s start_stop
      by (cases a) (simp add: receive_step_def Let_def)
  next
    case (Inr a)
    obtain s1 r1 where a: "a = (s1, r1)" by fastforce
    have s1: "I s1" using head(1) [OF s] Inr a by blast
    then have "I (tick_link (k_clk k) s1)" "t_framed s1" by (simp_all add: tick framed)
    moreover from this have "t_framed (tick_link (k_clk k) s1)" using framed by blast
    ultimately show ?thesis
      using Inr a s start_stop packet
      by (simp add: receive_step_def Let_def split: recv_result.split)
  qed
qed

lemma loop: "I s \<Longrightarrow> holds (receive_loop p ks s r)"
proof (induction ks arbitrary: s r)
  case (Cons k ks)
  then show ?case using step [OF Cons.prems, of p k r] by (cases "receive_step p k s r") simp_all
qed simp

end

section \<open>Interpretations\<close>

lemma put_header_counted:
  assumes s: "numbered s" and h: "put_header ty fl buf s = (pkt, s1)" and n: "6 \<le> length buf"
    and ty: "ty = kTypeFramed \<or> ty = kTypeHeartbeat \<or> ty = kTypeProbe"
    and pkt': "take 6 pkt' = take 6 pkt" "6 \<le> length pkt'" and s': "t_sent s2 = t_sent s1" "t_out_seq s2 = t_out_seq s1"
  shows "numbered (send pkt' s2)"
proof -
  note p = put_header_take [OF h n]
  have "counter_of pkt' = t_out_seq s" "pkt' ! 0 = ty"
    using header_fields [of pkt' ty fl "t_out_seq s"] pkt' p(1) by simp_all
  then show ?thesis
    using numbered_send_next [OF s, of pkt' s2] ty s' p(3) by (simp add: counted_def)
qed

lemma login_uncounted: "t_framed s \<Longrightarrow> numbered s \<Longrightarrow> numbered (send_login p s)"
proof -
  have l: "length (bytes_of_string (take 256 pw)) \<le> 256" "length (bytes_of_string kAccount) = 5" for pw
    by (simp_all add: kAccount_def bytes_of_string_def)
  have "buf ! 0 = 0 \<longrightarrow> length buf = 570 \<longrightarrow>
    put_at (24 + 542) (le32 1) (put_at (24 + 536) (le32 3) (put_at (24 + 522) (le32 0x001f07fb) (put_at (24 + 518) (le32 4)
       (put_at (24 + 514) (le32 1) (put_at 18 [if step = 0 then 1 else 0] (put_at 1 [step]
       (put_at (24 + 257) (bytes_of_string (take 256 pw)) (put_at 24 (bytes_of_string kAccount)
         (put_at 20 (le32 n) (put_at 16 (le16 546) (put_at 2 (le16 kAvVersion) buf))))))))))) ! 0 = 0" for buf :: bytes and step n pw
    using l(1) [of pw] l(2) by (simp add: nth_put_at_before)
  from this [of "replicate 570 0"] have "build_av_login step n True pw uid ! 0 = 0" for step n pw uid
    unfolding build_av_login_def Let_def by (simp only: length_replicate nth_replicate if_True simp_thms)
  then have "\<not> counted (build_av_login step n True pw uid)" for step n pw uid
    by (simp add: counted_def kTypeFramed_def kTypeHeartbeat_def kTypeProbe_def)
  then show "t_framed s \<Longrightarrow> numbered s \<Longrightarrow> numbered (send_login p s)"
    by (simp add: send_login_def Let_def numbered_send_other)
qed

lemma heartbeat_numbered: "numbered s \<Longrightarrow> numbered (send_heartbeat now s)"
proof -
  assume s: "numbered s"
  obtain pkt s1 where h: "put_header kTypeHeartbeat 0 (replicate 24 0) s = (pkt, s1)" by fastforce
  have l: "length pkt = 24" using put_header_take(2) [OF h] by simp
  have "numbered (send (put_at 18 x (put_at 8 y pkt)) s2)" if "t_sent s2 = t_sent s1" "t_out_seq s2 = t_out_seq s1" for x y s2
    using l that by (intro put_header_counted [OF s h]) (simp_all add: take_put_at, simp_all add: put_at_def)
  then show ?thesis unfolding send_heartbeat_def h Let_def prod.case by (simp only: if_distrib) simp
qed

lemma probe_numbered: "numbered s \<Longrightarrow> numbered (send_probe now s)"
proof -
  assume s: "numbered s"
  obtain pkt s1 where h: "put_header kTypeProbe 0x08 (replicate 16 0) s = (pkt, s1)" by fastforce
  have l: "length pkt = 16" using put_header_take(2) [OF h] by simp
  have "numbered (send (put_at 8 y pkt) s2)" if "t_sent s2 = t_sent s1" "t_out_seq s2 = t_out_seq s1" for y s2
    using l that by (intro put_header_counted [OF s h]) (simp_all add: take_put_at, simp_all add: put_at_def)
  then show ?thesis unfolding send_probe_def h Let_def prod.case by simp
qed

lemma probe_ack_numbered: "numbered s \<Longrightarrow> numbered (send_probe_ack ts s)"
  unfolding send_probe_ack_def Let_def
  by (rule numbered_send_other)
    (simp_all add: numbered_def counted_def kTypeProbeAck_def kTypeFramed_def kTypeHeartbeat_def kTypeProbe_def)

lemma ioctrl_numbered: "t_framed s \<Longrightarrow> numbered s \<Longrightarrow> numbered (send_ioctrl ty data s)"
proof -
  assume f: "t_framed s" and s: "numbered s"
  let ?body = "build_ioctrl_body ty data (t_ioctrl_index s)"
  let ?s = "s\<lparr>t_ioctrl_index := t_ioctrl_index s + 1\<rparr>"
  obtain pkt s1 where h: "put_header kTypeFramed 0 (replicate (16 + length ?body) 0) ?s = (pkt, s1)" by fastforce
  have s': "numbered ?s" using s by (simp add: numbered_def)
  have l: "length pkt = 16 + length ?body" using put_header_take(2) [OF h] by simp
  have "numbered (send (put_at 16 ?body pkt) s1)"
    using l by (intro put_header_counted [OF s' h]) (simp_all add: take_put_at)
  then show ?thesis unfolding send_ioctrl_def Let_def using f h by simp
qed

lemmas send_defs = send_login_def send_ioctrl_def send_heartbeat_def send_probe_def send_probe_ack_def
  put_header_def send_def Let_def

lemma framed_kept [simp]:
  "t_framed (send_login p s) = t_framed s" "t_framed (send_ioctrl ty data s) = t_framed s"
  "t_framed (send_heartbeat now s) = t_framed s" "t_framed (send_probe now s) = t_framed s"
  "t_framed (send_probe_ack ts s) = t_framed s"
  by (simp_all add: send_defs)

lemma mode_kept [simp]:
  "t_mode (send_login p s) = t_mode s" "t_mode (send_ioctrl ty data s) = t_mode s"
  "t_mode (send_heartbeat now s) = t_mode s" "t_mode (send_probe now s) = t_mode s"
  by (simp_all add: send_defs)

lemma rtt_kept [simp]:
  "rtt_ms (t_link (send_login p s)) = rtt_ms (t_link s)" "rtt_ms (t_link (send_ioctrl ty data s)) = rtt_ms (t_link s)"
  "rtt_ms (t_link (send_heartbeat now s)) = rtt_ms (t_link s)" "rtt_ms (t_link (send_probe now s)) = rtt_ms (t_link s)"
  "rtt_ms (t_link (send_probe_ack ts s)) = rtt_ms (t_link s)"
  by (simp_all add: send_defs)

lemma probe_answered_bound: "unat (rtt_ms l) < 5000 \<Longrightarrow> unat (rtt_ms (probe_answered rtt l)) < 5000"
proof -
  assume l: "unat (rtt_ms l) < 5000"
  have "(unat (rtt_ms l) * 7 + unat rtt) div 8 < 5000" if "unat rtt < 5000" using l that by linarith
  then show ?thesis using l by (auto simp: probe_answered_def word_less_nat_alt unat_u16)
qed

interpretation numbering: session_invariant "\<lambda>s. t_framed s \<and> numbered s"
  by unfold_locales
    (auto simp: login_uncounted heartbeat_numbered probe_numbered probe_ack_numbered ioctrl_numbered,
      simp_all add: numbered_def)

interpretation rtt: session_invariant "\<lambda>s. t_framed s \<and> unat (rtt_ms (t_link s)) < 5000"
  by unfold_locales (auto simp: probe_answered_bound note_stream_packet_def)

section \<open>Lemmas: connecting\<close>

lemma start_kept [simp]:
  "t_framed (send_start s) = t_framed s" "rtt_ms (t_link (send_start s)) = rtt_ms (t_link s)" "t_mode (send_start s) = t_mode s"
  by (simp_all add: send_start_def send_channel_ioctrl_def Let_def)

text \<open>In the framed case: login, perhaps the flag, then probe, start request and heartbeat.\<close>

lemma login_phase_framed:
  assumes "login_phase p c s = (rc, s1)" "t_framed s1"
  shows "t_framed s \<and> (\<exists>s2 b t t' t''. s2 = send_login p (s\<lparr>t_out_seq := 1, t_ioctrl_index := 0, t_link := new_link, t_login_nonce := c_nonce c\<rparr>) \<and>
    (s1 = s2 \<or> s1 = (let s3 = send_heartbeat t' (send_start (send_probe t (s2\<lparr>t_ready := b\<rparr>)))
       in s3\<lparr>t_link := (t_link s3)\<lparr>last_hb := t'', last_probe := t''\<rparr>\<rparr>)))"
proof -
  define s2 where "s2 = send_login p (s\<lparr>t_out_seq := 1, t_ioctrl_index := 0, t_link := new_link, t_login_nonce := c_nonce c\<rparr>)"
  have f: "t_framed s2 = t_framed s" by (simp add: s2_def)
  define answered where "answered = (40 \<le> length (c_resp c) \<and> c_resp c ! 0 = 0x00 \<and> c_resp c ! 1 = 0x21)"
  define zero where "zero = (get_le32 (drop 36 (c_resp c)) = 0)"
  define up where "up x = (let s3 = send_heartbeat (c_clk c 1) (send_start (send_probe (c_clk c 0) x))
     in s3\<lparr>t_link := (t_link s3)\<lparr>last_hb := c_clk c 2, last_probe := c_clk c 2\<rparr>\<rparr>)" for x
  define s2' where "s2' = (if answered \<and> t_mode s2 = Ctrl then s2\<lparr>t_ready := True\<rparr> else s2)"
  have s2': "\<exists>b. s2' = s2\<lparr>t_ready := b\<rparr>" "t_framed s2' = t_framed s"
    using f by (auto simp: s2'_def intro: exI [of _ "t_ready s2"])
  have e: "login_phase p c s =
     (if (answered \<and> t_framed s2 \<and> zero) \<and> t_mode s2 = Ctrl then (-2, s2)
      else let s3 = (if answered \<and> t_framed s2 \<and> zero then send_login p (s2\<lparr>t_framed := False\<rparr>) else s2')
           in (0, if t_framed s3 then up s3 else send_start s3))"
    unfolding login_phase_def Let_def s2_def [symmetric] answered_def [symmetric] zero_def [symmetric] up_def s2'_def ..
  show ?thesis
  proof (cases "answered \<and> t_framed s2 \<and> zero")
    case True
    then show ?thesis
      using assms f unfolding e s2_def [symmetric] by (cases "t_mode s2 = Ctrl") (auto simp: Let_def)
  next
    case False
    then have "s1 = up s2'" "t_framed s" using assms s2'(2) unfolding e by (auto simp: Let_def split: if_splits)
    then show ?thesis using s2'(1) unfolding up_def s2_def [symmetric] by blast
  qed
qed

lemma login_phase_numbered:
  assumes "login_phase p c s = (rc, s1)" "t_sent s = []" "t_framed s1"
  shows "numbered s1"
proof -
  let ?s = "s\<lparr>t_out_seq := 1, t_ioctrl_index := 0, t_link := new_link, t_login_nonce := c_nonce c\<rparr>"
  note ph = login_phase_framed [OF assms(1,3)]
  have "numbered ?s" using assms(2) by (simp add: numbered_def)
  then have n: "numbered (send_login p ?s)" using ph by (simp add: login_uncounted)
  have "numbered (send_heartbeat t' (send_start (send_probe t (send_login p ?s\<lparr>t_ready := b\<rparr>))))" for t t' b
  proof -
    have "numbered (send_login p ?s\<lparr>t_ready := b\<rparr>)" using n by (simp add: numbered_def)
    then show ?thesis
      using ph numbering.start_stop(1) [of "send_probe t (send_login p ?s\<lparr>t_ready := b\<rparr>)"]
      by (simp add: probe_numbered heartbeat_numbered)
  qed
  then show ?thesis using ph n by (auto simp: Let_def numbered_def)
qed

lemma connect_loop_phase:
  "connect_loop p n cs s = (0, s1) \<Longrightarrow> \<exists>c. login_phase p c s = (0, s1)"
  by (induction p n cs s rule: connect_loop.induct) (auto split: if_splits)

lemma login_phase_rtt: "login_phase p c s = (rc, s1) \<Longrightarrow> t_framed s1 \<Longrightarrow> rtt_ms (t_link s1) = 50"
  using login_phase_framed [of p c s rc s1] by (auto simp: Let_def new_link_def)

section \<open>Lemmas: silence\<close>

lemma tick_keeps: "t_mode (tick_link clk s) = t_mode s"
  by (simp add: tick_link_def Let_def)

text \<open>Passes without any packet, each at most \<open>d\<close> after the one before it.\<close>

fun silent :: "int \<Rightarrow> int \<Rightarrow> tick list \<Rightarrow> bool" where
  "silent d t [] \<longleftrightarrow> True"
| "silent d t (k # ks) \<longleftrightarrow> k_joined k \<and> k_recv k = RecvData [] \<and> k_now k \<le> t + d \<and> silent d (k_now k) ks"

lemma silent_pass:
  assumes "t_mode s = Video" "r_frames r = 0" "k_joined k" "k_recv k = RecvData []" "r_retries r \<le> 5"
  shows "\<exists>s'. t_mode s' = Video \<and> receive_step p k s r =
    (if k_now k < r_last_retry r + ms 1500 then Goes_on s' r
     else if r_retries r = 5 then Returns (-1) s'
     else Goes_on s' (r\<lparr>r_retries := r_retries r + 1, r_last_retry := k_now k\<rparr>))"
  using assms by (auto simp: receive_step_def pass_head_def retry_login_def Let_def tick_keeps)

text \<open>\<open>t\<close> is the pass before, \<open>t0\<close> the start: each retry comes at most \<open>1.5 s + d\<close> after the one before.\<close>

lemma silent_gives_up:
  "t_mode s = Video \<Longrightarrow> r_frames r = 0 \<Longrightarrow> silent d t ks \<Longrightarrow> r_retries r \<le> 5 \<Longrightarrow> t < r_last_retry r + ms 1500 \<Longrightarrow>
   r_last_retry r \<le> t0 + r_retries r * (ms 1500 + d) \<Longrightarrow> ks \<noteq> [] \<Longrightarrow>
   t0 + 5 * (ms 1500 + d) + ms 1500 \<le> k_now (last ks) \<Longrightarrow> 0 \<le> d \<Longrightarrow>
   \<exists>s'. receive_loop p ks s r = Returns (-1) s'"
proof (induction ks arbitrary: s r t)
  case (Cons k ks)
  obtain s' where s': "t_mode s' = Video" "receive_step p k s r =
    (if k_now k < r_last_retry r + ms 1500 then Goes_on s' r
     else if r_retries r = 5 then Returns (-1) s'
     else Goes_on s' (r\<lparr>r_retries := r_retries r + 1, r_last_retry := k_now k\<rparr>))"
    using silent_pass [of s r k p] Cons.prems by auto
  have sp: "0 < ms 1500" by (simp add: ms_def)
  have le: "r_retries r * (ms 1500 + d) \<le> 5 * (ms 1500 + d)"
    using Cons.prems(4,9) sp by (intro mult_right_mono) auto
  show ?case
  proof (cases "k_now k < r_last_retry r + ms 1500")
    case True
    then have "ks \<noteq> []" using Cons.prems(6,8) le by auto
    then show ?thesis using True s' Cons.IH [of s' r "k_now k"] Cons.prems by simp
  next
    case False
    show ?thesis
    proof (cases "r_retries r = 5")
      case False
      let ?r = "r\<lparr>r_retries := r_retries r + 1, r_last_retry := k_now k\<rparr>"
      have "k_now k \<le> t0 + (r_retries r + 1) * (ms 1500 + d)"
        using Cons.prems(3,5,6) by (simp add: distrib_right)
      moreover have "(r_retries r + 1) * (ms 1500 + d) \<le> 5 * (ms 1500 + d)"
        using False Cons.prems(4,9) sp by (intro mult_right_mono) auto
      ultimately have "ks \<noteq> []" using Cons.prems(8) sp by auto
      then show ?thesis
        using \<open>\<not> k_now k < _\<close> False s' Cons.IH [of s' ?r "k_now k"] Cons.prems \<open>k_now k \<le> t0 + _\<close> sp by simp
    qed (use \<open>\<not> k_now k < _\<close> s' in simp)
  qed
qed simp

section \<open>Lemmas: requests\<close>

lemma ioctrl_body:
  "\<exists>h. length h = 20 \<and> build_ioctrl_body ty data idx = h @ le32 ty @ data"
proof -
  define o5 where "o5 = put_at 12 (le32 (ucast idx)) (put_at 8 (le32 (of_nat (4 + length data)))
     (put_at 4 (le32 1) (put_at 2 (le16 idx) (put_at 1 [0x70] (replicate (24 + length data) 0)))))"
  have l: "length o5 = 24 + length data" by (simp add: o5_def)
  have "build_ioctrl_body ty data idx = put_at 24 data (put_at 20 (le32 ty) o5)"
    by (simp add: build_ioctrl_body_def o5_def Let_def)
  also have "\<dots> = take 20 o5 @ le32 ty @ data" using l by (simp add: put_at_def)
  finally show ?thesis using l by (intro exI [of _ "take 20 o5"]) simp
qed

lemma ioctrl_packet:
  assumes "t_framed s"
  shows "\<exists>h. length h = 36 \<and> h ! 0 = kTypeFramed \<and> t_sent (send_ioctrl ty data s) = t_sent s @ [h @ le32 ty @ data] \<and>
    t_ctrl_out (send_ioctrl ty data s) = t_ctrl_out s"
proof -
  obtain h where h: "length h = 20" "build_ioctrl_body ty data (t_ioctrl_index s) = h @ le32 ty @ data"
    using ioctrl_body by blast
  let ?s = "s\<lparr>t_ioctrl_index := t_ioctrl_index s + 1\<rparr>"
  obtain pkt s1 where p: "put_header kTypeFramed 0 (replicate (16 + length (h @ le32 ty @ data)) 0) ?s = (pkt, s1)" by fastforce
  note hd = put_header_take [OF p]
  have l: "length pkt = 40 + length data" using hd(2) h(1) by simp
  have "pkt ! 0 = kTypeFramed" using header_fields(2) [OF hd(1)] l by simp
  moreover have "put_at 16 (h @ le32 ty @ data) pkt = (take 16 pkt @ h) @ le32 ty @ data" using l h(1) by (simp add: put_at_def)
  moreover have "t_sent (send_ioctrl ty data s) = t_sent s @ [put_at 16 (h @ le32 ty @ data) pkt]"
      "t_ctrl_out (send_ioctrl ty data s) = t_ctrl_out s"
    using assms p hd(3) unfolding send_ioctrl_def Let_def by (simp_all add: h(2) send_def)
  ultimately show ?thesis using l h(1) by (intro exI [of _ "take 16 pkt @ h"]) (simp add: nth_append)
qed

lemma drain_packets:
  assumes "t_framed s"
  shows "\<exists>pkts. t_sent (foldl (\<lambda>s json. send_ioctrl kIoTypeCtrl (bytes_of_string json) s) s xs) = t_sent s @ pkts \<and>
    map (\<lambda>p. string_of_bytes (drop 40 p)) pkts = xs \<and>
    (\<forall>p \<in> set pkts. p ! 0 = kTypeFramed \<and> get_le32 (drop 36 p) = kIoTypeCtrl) \<and>
    t_ctrl_out (foldl (\<lambda>s json. send_ioctrl kIoTypeCtrl (bytes_of_string json) s) s xs) = t_ctrl_out s"
  using assms
proof (induction xs arbitrary: s)
  case (Cons x xs)
  obtain h where h: "length h = 36" "h ! 0 = kTypeFramed"
      "t_sent (send_ioctrl kIoTypeCtrl (bytes_of_string x) s) = t_sent s @ [h @ le32 kIoTypeCtrl @ bytes_of_string x]"
      "t_ctrl_out (send_ioctrl kIoTypeCtrl (bytes_of_string x) s) = t_ctrl_out s"
    using ioctrl_packet [OF Cons.prems] by blast
  let ?p = "h @ le32 kIoTypeCtrl @ bytes_of_string x"
  have p: "drop 40 ?p = bytes_of_string x" "?p ! 0 = kTypeFramed" "get_le32 (drop 36 ?p) = kIoTypeCtrl"
    using h(1,2) le32.dec_after [OF h(1), of kIoTypeCtrl "bytes_of_string x"] by (simp_all add: nth_append)
  obtain pkts where "t_sent (foldl (\<lambda>s json. send_ioctrl kIoTypeCtrl (bytes_of_string json) s)
        (send_ioctrl kIoTypeCtrl (bytes_of_string x) s) xs) = t_sent (send_ioctrl kIoTypeCtrl (bytes_of_string x) s) @ pkts"
      "map (\<lambda>p. string_of_bytes (drop 40 p)) pkts = xs" "\<forall>p \<in> set pkts. p ! 0 = kTypeFramed \<and> get_le32 (drop 36 p) = kIoTypeCtrl"
      "t_ctrl_out (foldl (\<lambda>s json. send_ioctrl kIoTypeCtrl (bytes_of_string json) s)
        (send_ioctrl kIoTypeCtrl (bytes_of_string x) s) xs) = t_ctrl_out (send_ioctrl kIoTypeCtrl (bytes_of_string x) s)"
    using Cons.IH [of "send_ioctrl kIoTypeCtrl (bytes_of_string x) s"] Cons.prems by auto
  then show ?case using h p by (intro exI [of _ "?p # pkts"]) (simp del: drop_append)
qed simp

section \<open>Properties\<close>

text \<open>
  C24. In a framed session every packet that carries a counter (stream control, heartbeats,
  probes) carries the next number: 1, 2, 3, ... modulo \<open>2^16\<close> from the login on, through the
  whole receive loop and up to the stop request, whatever arrives and however the clock runs.
\<close>

theorem packets_numbered:
  assumes "connect p cs s = (0, s1)" "t_sent s = []" "t_framed s1"
  shows "numbered s1 \<and>
    (case receive p now ks s1 of Returns rc s' \<Rightarrow> numbered s' | Goes_on s' r \<Rightarrow> numbered s' | Undefined \<Rightarrow> True)"
proof -
  obtain c where "login_phase p c (s\<lparr>t_ready := False\<rparr>) = (0, s1)"
    using connect_loop_phase assms(1) unfolding connect_def by blast
  then have "numbered s1" using login_phase_numbered assms(2,3) by simp
  then show ?thesis
    using numbering.loop [of s1 p ks "new_receive (t_mode s1) now"] assms(3)
    by (auto simp: receive_def split: outcome.splits)
qed

definition demo_session :: tutk where
  "demo_session = \<lparr>t_ready = False, t_has_cb = True, t_mode = Video, t_ctrl_out = [], t_out_seq = 1, t_ioctrl_index = 0,
     t_framed = True, t_login_nonce = 0, t_link = new_link, t_started = 0, t_sent = [], t_delivered = []\<rparr>"

definition demo_try :: connect_try where
  "demo_try = \<lparr>c_joined = True, c_path = Lan_path, c_dtls_ok = True, c_nonce = 7, c_resp = [], c_clk = \<lambda>i. ms 1\<rparr>"

definition demo_params :: session_params where
  "demo_params = \<lparr>p_uid = ''UID'', p_passwd = ''pw''\<rparr>"

lemma demo_connects:
  "\<exists>s1. connect demo_params [demo_try] demo_session = (0, s1) \<and> t_framed s1 \<and> t_mode s1 = Video"
  by (simp add: connect_def eval_nat_numeral demo_try_def demo_session_def login_phase_def Let_def)

theorem packets_numbered_witness:
  "\<exists>s1. connect demo_params [demo_try] demo_session = (0, s1) \<and> numbered s1 \<and>
    (case receive demo_params 0 [] s1 of Returns rc s' \<Rightarrow> numbered s' | Goes_on s' r \<Rightarrow> numbered s' | Undefined \<Rightarrow> True)"
proof -
  obtain s1 where "connect demo_params [demo_try] demo_session = (0, s1)" "t_framed s1" using demo_connects by blast
  moreover have "t_sent demo_session = []" by (simp add: demo_session_def)
  ultimately show ?thesis using packets_numbered [of demo_params "[demo_try]" demo_session s1 0 "[]"] by blast
qed

text \<open>
  C25. The round-trip estimate stays below 5 s from the login on, whatever answers arrive:
  the clock difference of a stale or forged answer never gets into it.
\<close>

theorem rtt_bounded:
  assumes "connect p cs s = (0, s1)" "t_framed s1"
  shows "case receive p now ks s1 of
      Returns rc s' \<Rightarrow> unat (rtt_ms (t_link s')) < 5000
    | Goes_on s' r \<Rightarrow> unat (rtt_ms (t_link s')) < 5000 | Undefined \<Rightarrow> True"
proof -
  obtain c where "login_phase p c (s\<lparr>t_ready := False\<rparr>) = (0, s1)"
    using connect_loop_phase assms(1) unfolding connect_def by blast
  then have "unat (rtt_ms (t_link s1)) < 5000" using login_phase_rtt assms(2) by simp
  then show ?thesis
    using rtt.loop [of s1 p ks "new_receive (t_mode s1) now"] assms(2)
    by (auto simp: receive_def split: outcome.splits)
qed

theorem rtt_bounded_witness:
  "\<exists>s1. connect demo_params [demo_try] demo_session = (0, s1) \<and>
    (case receive demo_params 0 [] s1 of Returns rc s' \<Rightarrow> unat (rtt_ms (t_link s')) < 5000
     | Goes_on s' r \<Rightarrow> unat (rtt_ms (t_link s')) < 5000 | Undefined \<Rightarrow> True)"
proof -
  obtain s1 where "connect demo_params [demo_try] demo_session = (0, s1)" "t_framed s1" using demo_connects by blast
  then show ?thesis using rtt_bounded [of demo_params "[demo_try]" demo_session s1 0 "[]"] by blast
qed

text \<open>
  C26. A printer that stays silent does not hold a video session for ever: when no packet comes
  and no two passes of the loop are more than \<open>d\<close> apart, the receive loop has returned -1 once
  \<open>6 * 1.5 s + 5 * d\<close> have gone by, however many passes that takes.
\<close>

theorem silent_printer_given_up:
  assumes "t_mode s = Video" "0 \<le> d" "silent d now ks" "ks \<noteq> []" "now + 5 * (ms 1500 + d) + ms 1500 \<le> k_now (last ks)"
  shows "\<exists>s'. receive p now ks s = Returns (-1) s'"
  unfolding receive_def
  by (rule silent_gives_up [where t = now and t0 = now and d = d])
    (use assms in \<open>simp_all add: new_receive_def ms_def\<close>)

theorem silent_printer_given_up_witness:
  "\<exists>s'. receive demo_params 0
     (map (\<lambda>t. \<lparr>k_joined = True, k_ctrl = [], k_now = ms (1000 * t), k_clk = (\<lambda>i. ms (1000 * t)), k_recv = RecvData []\<rparr>)
       [1, 2, 3, 4, 5, 6, 7, 8, 9, 10, 11, 12, 13, 14])
     demo_session = Returns (-1) s'"
  by (rule silent_printer_given_up [where d = "ms 1000"]) (simp_all add: demo_session_def ms_def)

text \<open>
  Requests to the file browser leave in the order in which they were queued, each as one
  framed IOCtrl packet of type 0x3001 whose data from byte 40 on is exactly the request, and
  the queue is empty afterwards.
\<close>

lemma requests_drained_in_order:
  assumes "t_framed s"
  shows "\<exists>pkts. t_sent (drain_ctrl s) = t_sent s @ pkts \<and> map (\<lambda>p. string_of_bytes (drop 40 p)) pkts = t_ctrl_out s \<and>
    (\<forall>p \<in> set pkts. p ! 0 = kTypeFramed \<and> get_le32 (drop 36 p) = kIoTypeCtrl) \<and> t_ctrl_out (drain_ctrl s) = []"
  using drain_packets [of "s\<lparr>t_ctrl_out := []\<rparr>" "t_ctrl_out s"] assms by (simp add: drain_ctrl_def)

end
