(* ===== verification/Trans_Code.thy ===== *)
theory Trans_Code
  imports Obn_Prelude
begin

text \<open>
  Model of the datagram obfuscation of \<open>src/camera/tutk/IotcClient.cpp\<close>
  (\<open>TransCodePartial\<close>): a keyed permutation of 16-byte blocks, a tail of fewer than 16 bytes
  with a rule of its own, and the receiver that finds out from the first block how much of a
  datagram is scrambled. 32-bit values are read from and written to memory on a little-endian
  machine, as \<open>memcpy\<close> does there.
\<close>

section \<open>Blocks\<close>

definition kTransKey :: bytes where
  "kTransKey = bytes_of_string ''Charlie is the d''"

definition ror32 :: "u32 \<Rightarrow> nat \<Rightarrow> u32" where
  "ror32 v n = (drop_bit (n mod 32) v OR push_bit (32 - n mod 32) v)"

definition rol32 :: "u32 \<Rightarrow> nat \<Rightarrow> u32" where
  "rol32 v n = (push_bit (n mod 32) v OR drop_bit (32 - n mod 32) v)"

text \<open>The four 32-bit words of 16 bytes (\<open>memcpy\<close> to an array of \<open>uint32_t\<close>), and one byte of a word.\<close>

definition words4 :: "bytes \<Rightarrow> u32 list" where
  "words4 p = [get_le32 p, get_le32 (drop 4 p), get_le32 (drop 8 p), get_le32 (drop 12 p)]"

definition byte_at :: "u32 \<Rightarrow> nat \<Rightarrow> byte" where
  "byte_at v s = ucast (drop_bit s v)"

definition rot :: "nat list" where
  "rot = [1, 5, 9, 13]"

text \<open>\<open>(a << 24) | (b << 16) | (c << 8) | d\<close>.\<close>

definition pack_be :: "byte \<Rightarrow> byte \<Rightarrow> byte \<Rightarrow> byte \<Rightarrow> u32" where
  "pack_be a b c d =
     (push_bit 24 (ucast a) OR push_bit 16 (ucast b) OR push_bit 8 (ucast c) OR ucast d)"

definition decode_block :: "bytes \<Rightarrow> bytes" where
  "decode_block inp =
     (let ws = words4 inp;
          tmp0 = rol32 (ws ! 0) 3; tmp1 = rol32 (ws ! 1) 7;
          tmp2 = rol32 (ws ! 2) 11; tmp3 = rol32 (ws ! 3) 15;
          t = [byte_at tmp2 24, byte_at tmp2 8, byte_at tmp2 0, byte_at tmp3 24,
               byte_at tmp3 8, byte_at tmp2 16, byte_at tmp3 0, byte_at tmp3 16,
               byte_at tmp0 16, byte_at tmp0 8, byte_at tmp1 8, byte_at tmp0 0,
               byte_at tmp1 16, byte_at tmp1 0, byte_at tmp1 24, byte_at tmp0 24];
          dw = words4 t; key_dw = words4 kTransKey
      in concat (map (\<lambda>i. le32 (rol32 (dw ! i XOR key_dw ! i) (rot ! i))) [0, 1, 2, 3]))"

definition encode_block :: "bytes \<Rightarrow> bytes" where
  "encode_block inp =
     (let raw_dw = words4 inp; key_dw = words4 kTransKey;
          t = concat (map (\<lambda>i. le32 (ror32 (raw_dw ! i) (rot ! i) XOR key_dw ! i)) [0, 1, 2, 3]);
          o0 = ror32 (pack_be (t ! 15) (t ! 8) (t ! 9) (t ! 11)) 3;
          o1 = ror32 (pack_be (t ! 14) (t ! 12) (t ! 10) (t ! 13)) 7;
          o2 = ror32 (pack_be (t ! 0) (t ! 5) (t ! 1) (t ! 2)) 11;
          o3 = ror32 (pack_be (t ! 3) (t ! 7) (t ! 4) (t ! 6)) 15
      in le32 o0 @ le32 o1 @ le32 o2 @ le32 o3)"

section \<open>Whole buffers\<close>

definition kTailPerm8 :: "nat list" where
  "kTailPerm8 = [7, 4, 3, 2, 1, 6, 5, 0]"

text \<open>The loop over full blocks, with what is done to one block and to the tail.\<close>

function by_blocks :: "(bytes \<Rightarrow> bytes) \<Rightarrow> (bytes \<Rightarrow> bytes) \<Rightarrow> bytes \<Rightarrow> bytes" where
  "by_blocks f g data =
     (if 16 \<le> length data then f (take 16 data) @ by_blocks f g (drop 16 data) else g data)"
  by pat_completeness auto
termination
  by (relation "measure (\<lambda>(f, g, data). length data)") auto

declare by_blocks.simps [simp del]

text \<open>\<open>full\<close> is a multiple of 16, so the key index of a tail byte is its position in the tail.\<close>

definition xor_key :: "bytes \<Rightarrow> bytes" where
  "xor_key tail = map (\<lambda>i. tail ! i XOR kTransKey ! (i mod 16)) [0..<length tail]"

fun set_all :: "'a list \<Rightarrow> (nat \<times> 'a) list \<Rightarrow> 'a list" where
  "set_all xs [] = xs"
| "set_all xs ((i, v) # ivs) = set_all (xs[i := v]) ivs"

definition reverse_tail :: "bytes \<Rightarrow> bytes" where
  "reverse_tail data =
     (if length data = 8 then
        set_all (replicate 8 0)
          (map (\<lambda>k. (kTailPerm8 ! k, data ! k XOR kTransKey ! (kTailPerm8 ! k))) [0..<8])
      else xor_key data)"

definition trans_tail :: "bytes \<Rightarrow> bytes" where
  "trans_tail data =
     (if length data = 8 then
        map (\<lambda>k. data ! (kTailPerm8 ! k) XOR kTransKey ! (kTailPerm8 ! k)) [0..<8]
      else xor_key data)"

definition reverse_trans_code_partial :: "bytes \<Rightarrow> bytes" where
  "reverse_trans_code_partial data = by_blocks decode_block reverse_tail data"

definition trans_code_partial :: "bytes \<Rightarrow> bytes" where
  "trans_code_partial data = by_blocks encode_block trans_tail data"

definition kDataScrambleLen :: nat where
  "kDataScrambleLen = 64"

definition descramble_rx :: "bytes \<Rightarrow> bytes" where
  "descramble_rx data =
     (if length data < 16 then reverse_trans_code_partial data
      else let hdr = reverse_trans_code_partial (take 16 data);
               fin = (if hdr ! 3 = 0x0b then min (length data) kDataScrambleLen else length data)
           in hdr @ reverse_trans_code_partial (take (fin - 16) (drop 16 data)) @ drop fin data)"

text \<open>What a sender does to its first \<open>n\<close> bytes: \<open>trans_code_partial(pkt.data(), n)\<close>.\<close>

definition scramble_first :: "nat \<Rightarrow> bytes \<Rightarrow> bytes" where
  "scramble_first n pkt = trans_code_partial (take n pkt) @ drop n pkt"

section \<open>Words and rotations\<close>

lemma rol_ror [simp]: "rol32 (ror32 v n) n = v"
proof (rule bit_word_eqI)
  fix i :: nat assume "i < LENGTH(32)"
  moreover have "n mod 32 < 32" by simp
  ultimately show "bit (rol32 (ror32 v n) n) i = bit v i"
    by (cases "i < n mod 32") (auto simp: rol32_def ror32_def bit_simps dest: bit_imp_le_length)
qed

lemma ror_rol [simp]: "ror32 (rol32 v n) n = v"
proof (rule bit_word_eqI)
  fix i :: nat assume "i < LENGTH(32)"
  moreover have "n mod 32 < 32" by simp
  ultimately show "bit (ror32 (rol32 v n) n) i = bit v i"
    by (cases "n mod 32 + i < 32") (auto simp: rol32_def ror32_def bit_simps dest: bit_imp_le_length)
qed

lemma byte_pack [simp]:
  "byte_at (pack_be a b c d) 24 = a" "byte_at (pack_be a b c d) 16 = b"
  "byte_at (pack_be a b c d) 8 = c" "byte_at (pack_be a b c d) 0 = d"
  unfolding byte_at_def pack_be_def
  by (rule bit_word_eqI; auto simp: bit_simps dest: bit_imp_le_length; fail)+

lemma pack_bytes [simp]: "pack_be (byte_at v 24) (byte_at v 16) (byte_at v 8) (byte_at v 0) = v"
proof (rule bit_word_eqI)
  fix n :: nat assume "n < LENGTH(32)"
  then consider "n < 8" | "8 \<le> n" "n < 16" | "16 \<le> n" "n < 24" | "24 \<le> n" "n < 32" by fastforce
  then show "bit (pack_be (byte_at v 24) (byte_at v 16) (byte_at v 8) (byte_at v 0)) n = bit v n"
    by cases (auto simp: pack_be_def byte_at_def bit_simps)
qed


lemma le32_get_le32 [simp]: "le32 (get_le32 (a # b # c # d # s)) = [a, b, c, d]"
proof -
  have "ucast (drop_bit 8 (get_le32 (a # b # c # d # s))) = b"
    "ucast (drop_bit 16 (get_le32 (a # b # c # d # s))) = c"
    "ucast (drop_bit 24 (get_le32 (a # b # c # d # s))) = d"
    "ucast (get_le32 (a # b # c # d # s)) = a"
    unfolding get_le32_def
    by (rule bit_word_eqI; auto simp: bit_simps dest: bit_imp_le_length; fail)+
  then show ?thesis by (simp add: le32_def)
qed

lemma le32_bytes: "le32 v = [byte_at v 0, byte_at v 8, byte_at v 16, byte_at v 24]"
  by (simp add: le32_def byte_at_def)

lemma get_le32_bytes [simp]: "get_le32 (byte_at v 0 # byte_at v 8 # byte_at v 16 # byte_at v 24 # s) = v"
  using get_le32_le32 [of v s] by (simp add: le32_bytes)

lemma bytes_get_le32 [simp]:
  "byte_at (get_le32 (a # b # c # d # s)) 0 = a" "byte_at (get_le32 (a # b # c # d # s)) 8 = b"
  "byte_at (get_le32 (a # b # c # d # s)) 16 = c" "byte_at (get_le32 (a # b # c # d # s)) 24 = d"
  using le32_get_le32 [of a b c d s] by (simp_all add: le32_bytes)

lemma split16:
  assumes "length (p :: bytes) = 16"
  obtains a b c d where "p = le32 a @ le32 b @ le32 c @ le32 d"
proof -
  have n: "(16 :: nat) = Suc (Suc (Suc (Suc (Suc (Suc (Suc (Suc (Suc (Suc (Suc (Suc (Suc (Suc (Suc (Suc 0)))))))))))))))"
    by simp
  from assms obtain x0 x1 x2 x3 x4 x5 x6 x7 x8 x9 xa xb xc xd xe xf where
    "p = [x0, x1, x2, x3, x4, x5, x6, x7, x8, x9, xa, xb, xc, xd, xe, xf]"
    unfolding n length_Suc_conv by auto
  then have "p = le32 (get_le32 [x0, x1, x2, x3]) @ le32 (get_le32 [x4, x5, x6, x7])
      @ le32 (get_le32 [x8, x9, xa, xb]) @ le32 (get_le32 [xc, xd, xe, xf])" by simp
  with that show thesis by blast
qed

lemma words4_le32 [simp]: "words4 (le32 a @ le32 b @ le32 c @ le32 d) = [a, b, c, d]"
  by (simp add: words4_def le32_bytes)

lemma xor_twice [simp]: "(a XOR b) XOR b = (a :: 'a::len word)"
  by (simp add: xor.assoc)

section \<open>Blocks are undone\<close>

lemma decode_encode_block: "length p = 16 \<Longrightarrow> decode_block (encode_block p) = p"
proof -
  assume "length p = 16"
  then obtain a b c d where "p = le32 a @ le32 b @ le32 c @ le32 d" by (rule split16)
  then show ?thesis
    by (simp add: decode_block_def encode_block_def Let_def rot_def)
      (simp add: le32_bytes words4_def Let_def)
qed

lemma encode_decode_block: "length p = 16 \<Longrightarrow> encode_block (decode_block p) = p"
proof -
  assume "length p = 16"
  then obtain a b c d where "p = le32 a @ le32 b @ le32 c @ le32 d" by (rule split16)
  then show ?thesis
    by (simp add: decode_block_def encode_block_def Let_def rot_def)
      (simp add: le32_bytes words4_def Let_def)
qed

section \<open>The contract of a block code\<close>

text \<open>
  A transformation of blocks and one of tails that keep lengths and have inverses: the loop
  over a buffer then has the inverse loop, and works block by block.
\<close>

locale block_code =
  fixes enc dec etail dtail :: "bytes \<Rightarrow> bytes"
  assumes enc_length: "length p = 16 \<Longrightarrow> length (enc p) = 16"
    and dec_enc: "length p = 16 \<Longrightarrow> dec (enc p) = p"
    and etail_length: "length p < 16 \<Longrightarrow> length (etail p) = length p"
    and dtail_etail: "length p < 16 \<Longrightarrow> dtail (etail p) = p"
begin

lemma length_by_blocks: "length (by_blocks enc etail p) = length p"
proof (induction "length p" arbitrary: p rule: less_induct)
  case less
  show ?case
    using less enc_length [of "take 16 p"] etail_length [of p] by (simp add: by_blocks.simps [of enc etail p])
qed

lemma by_blocks_inverse: "by_blocks dec dtail (by_blocks enc etail p) = p"
proof (induction "length p" arbitrary: p rule: less_induct)
  case less
  show ?case
  proof (cases "16 \<le> length p")
    case True
    let ?b = "enc (take 16 p)"
    have b: "length ?b = 16" using True by (simp add: enc_length)
    have "by_blocks dec dtail (by_blocks enc etail (drop 16 p)) = drop 16 p" using less True by simp
    then show ?thesis using True b
      by (simp add: by_blocks.simps [of enc etail p] by_blocks.simps [of dec dtail "?b @ s" for s] dec_enc)
  next
    case False
    then show ?thesis using etail_length [of p]
      by (simp add: by_blocks.simps [of enc etail p] by_blocks.simps [of dec dtail "etail p"] dtail_etail)
  qed
qed

lemma by_blocks_append: "16 dvd length a \<Longrightarrow> by_blocks enc etail (a @ b) = by_blocks enc (\<lambda>_. []) a @ by_blocks enc etail b"
proof (induction "length a" arbitrary: a rule: less_induct)
  case less
  show ?case
  proof (cases "a = []")
    case True
    then show ?thesis by (simp add: by_blocks.simps [of enc "\<lambda>_. []"])
  next
    case False
    with less.prems have l: "16 \<le> length a" by (simp add: dvd_imp_le)
    then have "16 dvd length (drop 16 a)" using less.prems by simp
    then show ?thesis using less.hyps [of "drop 16 a"] l
      by (simp add: by_blocks.simps [of enc _ a] by_blocks.simps [of enc etail "a @ b"])
  qed
qed

text \<open>Cutting after a whole number of blocks.\<close>

lemma by_blocks_cut:
  assumes "16 dvd length a" "etail [] = []"
  shows "by_blocks enc etail (a @ b) = by_blocks enc etail a @ by_blocks enc etail b"
proof -
  have "by_blocks enc etail [] = []" using assms(2) by (simp add: by_blocks.simps [of enc etail])
  then show ?thesis using by_blocks_append [OF assms(1)] by (metis append.right_neutral)
qed

end

lemma length_encode_block [simp]: "length (encode_block p) = 16"
  by (simp add: encode_block_def Let_def)

lemma length_decode_block [simp]: "length (decode_block p) = 16"
  by (simp add: decode_block_def Let_def)

lemma length_xor_key [simp]: "length (xor_key p) = length p"
  by (simp add: xor_key_def)

lemma xor_key_twice: "xor_key (xor_key p) = p"
  by (rule nth_equalityI) (simp_all add: xor_key_def)

lemma length_set_all [simp]: "length (set_all xs ivs) = length xs"
  by (induction xs ivs rule: set_all.induct) auto

lemma length_trans_tail [simp]: "length (trans_tail p) = length p"
  by (simp add: trans_tail_def)

lemma length_reverse_tail [simp]: "length (reverse_tail p) = length p"
  by (simp add: reverse_tail_def)

lemma split8:
  assumes "length (p :: bytes) = 8"
  obtains a b c d e f g h where "p = [a, b, c, d, e, f, g, h]"
proof -
  have n: "(8 :: nat) = Suc (Suc (Suc (Suc (Suc (Suc (Suc (Suc 0)))))))" by simp
  from assms show thesis using that unfolding n length_Suc_conv by auto
qed

lemma upt8: "[0..<8] = [0, 1, 2, 3, 4, 5, 6, 7 :: nat]"
  by code_simp

lemma tails_inverse: "reverse_tail (trans_tail p) = p" "trans_tail (reverse_tail p) = p"
proof -
  have "reverse_tail (trans_tail p) = p \<and> trans_tail (reverse_tail p) = p" if "length p = 8"
    using that by (elim split8)
      (simp add: reverse_tail_def trans_tail_def upt8 kTailPerm8_def numeral_eq_Suc)
  then show "reverse_tail (trans_tail p) = p" "trans_tail (reverse_tail p) = p"
    by (cases "length p = 8"; simp add: reverse_tail_def trans_tail_def xor_key_twice)+
qed

interpretation scramble: block_code encode_block decode_block trans_tail reverse_tail
  by unfold_locales (simp_all add: decode_encode_block tails_inverse)

interpretation descramble: block_code decode_block encode_block reverse_tail trans_tail
  by unfold_locales (simp_all add: encode_decode_block tails_inverse)

lemma tail_Nil [simp]: "trans_tail [] = []" "reverse_tail [] = []"
  by (simp_all add: trans_tail_def reverse_tail_def xor_key_def)

lemmas length_scrambled [simp] =
  scramble.length_by_blocks [folded trans_code_partial_def]
  descramble.length_by_blocks [folded reverse_trans_code_partial_def]

lemmas scramble_inverse [simp] =
  scramble.by_blocks_inverse [folded trans_code_partial_def reverse_trans_code_partial_def]
  descramble.by_blocks_inverse [folded trans_code_partial_def reverse_trans_code_partial_def]

lemma trans_cut:
  "16 dvd length a \<Longrightarrow> trans_code_partial (a @ b) = trans_code_partial a @ trans_code_partial b"
  unfolding trans_code_partial_def by (rule scramble.by_blocks_cut) simp_all

lemma trans_head:
  "16 \<le> length p \<Longrightarrow> trans_code_partial p = trans_code_partial (take 16 p) @ trans_code_partial (drop 16 p)"
  using trans_cut [of "take 16 p" "drop 16 p"] by simp

text \<open>What a receiver makes of a scrambled datagram.\<close>

lemma descramble_scrambled:
  "descramble_rx (if 16 \<le> length p \<and> p ! 3 = 0x0b then scramble_first (min (length p) kDataScrambleLen) p
     else trans_code_partial p) = p"
proof (cases "16 \<le> length p")
  case False
  then show ?thesis by (simp add: descramble_rx_def)
next
  case True
  have hd: "take 16 (trans_code_partial p) = trans_code_partial (take 16 p)"
    "drop 16 (trans_code_partial p) = trans_code_partial (drop 16 p)"
    using trans_head [OF True] True by simp_all
  show ?thesis
  proof (cases "p ! 3 = 0x0b")
    case False
    then show ?thesis using True hd by (simp add: descramble_rx_def Let_def)
  next
    case True': True
    define n where "n = min (length p) 64"
    have n: "16 \<le> n" "n \<le> length p" using True by (simp_all add: n_def)
    have th: "trans_code_partial (take n p) = trans_code_partial (take 16 p) @ trans_code_partial (drop 16 (take n p))"
      using trans_head [of "take n p"] n by simp
    have sc: "scramble_first n p = trans_code_partial (take 16 p) @ trans_code_partial (drop 16 (take n p)) @ drop n p"
      by (simp add: scramble_first_def th)
    have "descramble_rx (scramble_first n p) = take 16 p @ drop 16 (take n p) @ drop n p"
      using n True' unfolding sc descramble_rx_def
      by (simp add: Let_def kDataScrambleLen_def n_def [symmetric])
    also have "\<dots> = (take 16 (take n p) @ drop 16 (take n p)) @ drop n p" using n by simp
    also have "\<dots> = p" by (simp only: append_take_drop_id)
    finally show ?thesis using True True' by (simp add: n_def kDataScrambleLen_def)
  qed
qed

section \<open>Properties\<close>

text \<open>
  C12. Scrambling and descrambling a buffer of any length are inverse to each other in both
  orders and keep its length: full blocks, the tail of eight bytes and every other tail.
\<close>

theorem trans_code_inverse:
  "reverse_trans_code_partial (trans_code_partial p) = p \<and>
   trans_code_partial (reverse_trans_code_partial p) = p \<and>
   length (trans_code_partial p) = length p"
  by simp

end
