(* ===== verification/Dtls_Record.thy ===== *)
theory Dtls_Record
  imports Obn_Prelude
begin

text \<open>
  Model of the DTLS 1.2 record layer of \<open>src/camera/tutk/IotcClient.cpp\<close>: record and handshake
  headers, nonces, additional data, the AES-256-CBC Encrypt-then-MAC and the
  ChaCha20-Poly1305 record protection, the TLS 1.2 PRF and the key schedule. The primitives
  come from OpenSSL, which is not part of the repository: they are the fields of the record
  \<open>crypto\<close>, an argument of every definition that uses one, and \<open>hmac_sized\<close>,
  \<open>cbc_inverse\<close> and \<open>aead_inverse\<close> name what their documentation promises.
\<close>

section \<open>Big-endian fields\<close>

definition be16 :: "u16 \<Rightarrow> bytes" where
  "be16 v = [ucast (drop_bit 8 v), ucast v]"

definition be24 :: "u32 \<Rightarrow> bytes" where
  "be24 v = [ucast (drop_bit 16 v), ucast (drop_bit 8 v), ucast v]"

definition be48 :: "u64 \<Rightarrow> bytes" where
  "be48 v = map (\<lambda>i. ucast (drop_bit (40 - 8 * i) v)) [0, 1, 2, 3, 4, 5]"

definition read_be16 :: "bytes \<Rightarrow> u16" where
  "read_be16 p = (push_bit 8 (ucast (p ! 0)) OR ucast (p ! 1))"

definition read_be48 :: "bytes \<Rightarrow> u64" where
  "read_be48 p =
     (push_bit 40 (ucast (p ! 0)) OR push_bit 32 (ucast (p ! 1)) OR push_bit 24 (ucast (p ! 2))
        OR push_bit 16 (ucast (p ! 3)) OR push_bit 8 (ucast (p ! 4)) OR ucast (p ! 5))"

section \<open>Headers\<close>

definition build_relay_nonce :: "bytes \<Rightarrow> u16 \<Rightarrow> u64 \<Rightarrow> bytes" where
  "build_relay_nonce iv epoch sq =
     take 4 iv @ map (\<lambda>(a, b). a XOR b) (zip (take 8 (drop 4 iv)) (be16 epoch @ be48 sq))"

definition build_dtls_record_hdr :: "byte \<Rightarrow> u16 \<Rightarrow> u64 \<Rightarrow> u16 \<Rightarrow> bytes" where
  "build_dtls_record_hdr content_type epoch sq len =
     [content_type, 0xfe, 0xfd] @ be16 epoch @ be48 sq @ be16 len"

definition build_dtls_hs_hdr :: "byte \<Rightarrow> u32 \<Rightarrow> u16 \<Rightarrow> bytes" where
  "build_dtls_hs_hdr hs_type body_len msg_seq =
     [hs_type] @ be24 body_len @ be16 msg_seq @ [0, 0, 0] @ be24 body_len"

definition build_additional_data :: "byte \<Rightarrow> u16 \<Rightarrow> u64 \<Rightarrow> u16 \<Rightarrow> bytes" where
  "build_additional_data content_type epoch sq len =
     be16 epoch @ be48 sq @ [content_type, 0xfe, 0xfd] @ be16 len"

section \<open>The primitives\<close>

record crypto =
  hmac256 :: "bytes \<Rightarrow> bytes \<Rightarrow> bytes"
  hmac384 :: "bytes \<Rightarrow> bytes \<Rightarrow> bytes"
  sha256 :: "bytes \<Rightarrow> bytes"
  sha384 :: "bytes \<Rightarrow> bytes"
  aes_cbc_encrypt :: "bytes \<Rightarrow> bytes \<Rightarrow> bytes \<Rightarrow> bytes option"
  aes_cbc_decrypt :: "bytes \<Rightarrow> bytes \<Rightarrow> bytes \<Rightarrow> bytes option"
  chacha_seal :: "bytes \<Rightarrow> bytes \<Rightarrow> bytes \<Rightarrow> bytes \<Rightarrow> (bytes \<times> bytes) option"
  chacha_open :: "bytes \<Rightarrow> bytes \<Rightarrow> bytes \<Rightarrow> bytes \<Rightarrow> bytes \<Rightarrow> bytes option"

definition hmac_sized :: "crypto \<Rightarrow> bool" where
  "hmac_sized c \<longleftrightarrow> (\<forall>k m. length (hmac256 c k m) = 32 \<and> length (hmac384 c k m) = 48)"

text \<open>CBC without padding: whole blocks in, as many bytes out, and decryption undoes it.\<close>

definition cbc_inverse :: "crypto \<Rightarrow> bool" where
  "cbc_inverse c \<longleftrightarrow> (\<forall>key iv p. length iv = 16 \<longrightarrow> length p mod 16 = 0 \<longrightarrow>
     (\<exists>x. aes_cbc_encrypt c key iv p = Some x \<and> length x = length p \<and> aes_cbc_decrypt c key iv x = Some p))"

definition aead_inverse :: "crypto \<Rightarrow> bool" where
  "aead_inverse c \<longleftrightarrow> (\<forall>key nonce ad p. length nonce = 12 \<longrightarrow>
     (\<exists>x tag. chacha_seal c key nonce ad p = Some (x, tag) \<and> length x = length p \<and> length tag = 16 \<and>
        chacha_open c key nonce ad x tag = Some p))"

section \<open>The session\<close>

record dtls_session =
  client_random :: bytes
  server_random :: bytes
  master_secret :: bytes
  client_write_key :: bytes
  server_write_key :: bytes
  client_write_iv :: bytes
  server_write_iv :: bytes
  client_write_mac_key :: bytes
  server_write_mac_key :: bytes
  cipher_suite :: u16
  use_ems :: bool
  use_etm :: bool
  dtls_epoch :: u32
  tx_seq :: u64
  rx_seq :: u64
  handshake_complete :: bool
  ds_relay_tag :: u32
  pkt_seq :: u16

definition zero_session :: dtls_session where
  "zero_session =
     \<lparr>client_random = replicate 32 0, server_random = replicate 32 0, master_secret = replicate 48 0,
      client_write_key = replicate 32 0, server_write_key = replicate 32 0,
      client_write_iv = replicate 16 0, server_write_iv = replicate 16 0,
      client_write_mac_key = replicate 48 0, server_write_mac_key = replicate 48 0,
      cipher_suite = 0, use_ems = False, use_etm = False, dtls_epoch = 0, tx_seq = 0, rx_seq = 0,
      handshake_complete = False, ds_relay_tag = 0, pkt_seq = 0\<rparr>"

section \<open>Protecting records\<close>

definition etm_mac :: "crypto \<Rightarrow> bytes \<Rightarrow> bytes \<Rightarrow> bytes \<Rightarrow> bytes" where
  "etm_mac c mac_key ad fragment = hmac384 c mac_key (ad @ fragment)"

text \<open>The initialisation vector is what \<open>RAND_bytes\<close> gives, \<open>None\<close> when it fails.\<close>

definition encrypt_record_cbc_etm ::
    "crypto \<Rightarrow> bytes option \<Rightarrow> bytes \<Rightarrow> bytes \<Rightarrow> byte \<Rightarrow> u16 \<Rightarrow> u64 \<Rightarrow> bytes \<Rightarrow> bytes option" where
  "encrypt_record_cbc_etm c rand key mac_key content_type epoch sq plain =
     (let pad_len = 16 - length plain mod 16;
          padded = plain @ replicate pad_len (of_nat (pad_len - 1))
      in case rand of
           None \<Rightarrow> None
         | Some iv \<Rightarrow>
             (case aes_cbc_encrypt c key iv padded of
                None \<Rightarrow> None
              | Some x \<Rightarrow>
                  if length x \<noteq> length padded then None
                  else let fragment = iv @ x;
                           ad = build_additional_data content_type epoch sq (of_nat (length fragment));
                           mac = etm_mac c mac_key ad fragment
                       in Some (build_dtls_record_hdr content_type epoch sq (of_nat (length fragment + 48))
                                @ fragment @ mac)))"

definition decrypt_record_cbc_etm ::
    "crypto \<Rightarrow> bytes \<Rightarrow> bytes \<Rightarrow> bytes \<Rightarrow> bytes \<Rightarrow> nat \<Rightarrow> bytes option" where
  "decrypt_record_cbc_etm c key mac_key rec_hdr payload plain_max =
     (let epoch = read_be16 (drop 3 rec_hdr);
          sq = read_be48 (drop 5 rec_hdr);
          wire_len = unat (read_be16 (drop 11 rec_hdr));
          frag_len = wire_len - 48;
          cipher_len = frag_len - 16;
          ad = build_additional_data (rec_hdr ! 0) epoch sq (of_nat frag_len);
          mac = etm_mac c mac_key ad (take frag_len payload)
      in if length payload < wire_len \<or> wire_len < 16 + 16 + 48 then None
         else if cipher_len mod 16 \<noteq> 0 then None
         else if mac \<noteq> take 48 (drop frag_len payload) then None
         else (case aes_cbc_decrypt c key (take 16 payload) (take cipher_len (drop 16 payload)) of
            None \<Rightarrow> None
          | Some d \<Rightarrow>
              if length d \<noteq> cipher_len \<or> cipher_len = 0 then None
              else let pad_val = d ! (cipher_len - 1); pad_count = unat pad_val + 1;
                       plain_len = cipher_len - pad_count
                   in if cipher_len < pad_count then None
                      else if \<not> list_all (\<lambda>x. x = pad_val) (drop plain_len d) then None
                      else if plain_max < plain_len then None
                      else Some (take plain_len d)))"

definition aead_seal :: "crypto \<Rightarrow> dtls_session \<Rightarrow> byte \<Rightarrow> bytes \<Rightarrow> bytes option" where
  "aead_seal c ds content_type plain =
     (let epoch = ucast (dtls_epoch ds);
          nonce = build_relay_nonce (client_write_iv ds) epoch (tx_seq ds);
          ad = build_additional_data content_type epoch (tx_seq ds) (of_nat (length plain))
      in case chacha_seal c (client_write_key ds) nonce ad plain of
           None \<Rightarrow> None
         | Some (x, tag) \<Rightarrow>
             Some (build_dtls_record_hdr content_type epoch (tx_seq ds) (of_nat (length plain + 16)) @ x @ tag))"

definition aead_open :: "crypto \<Rightarrow> dtls_session \<Rightarrow> bytes \<Rightarrow> bytes \<Rightarrow> nat \<Rightarrow> bytes option" where
  "aead_open c ds rec_hdr payload plain_max =
     (let epoch = read_be16 (drop 3 rec_hdr);
          sq = read_be48 (drop 5 rec_hdr);
          sealed_len = unat (read_be16 (drop 11 rec_hdr));
          plain_len = sealed_len - 16;
          nonce = build_relay_nonce (server_write_iv ds) epoch sq;
          ad = build_additional_data (rec_hdr ! 0) epoch sq (of_nat plain_len)
      in if length payload < sealed_len \<or> sealed_len < 16 then None
         else if plain_max < plain_len then None
         else chacha_open c (server_write_key ds) nonce ad (take plain_len payload) (take 16 (drop plain_len payload)))"

definition kMaxRecordPlaintext :: nat where
  "kMaxRecordPlaintext = 16384"

definition dtls_encrypt_record ::
    "crypto \<Rightarrow> bytes option \<Rightarrow> dtls_session \<Rightarrow> byte \<Rightarrow> bytes \<Rightarrow> (bytes \<times> dtls_session) option" where
  "dtls_encrypt_record c rand ds content_type plain =
     (if kMaxRecordPlaintext < length plain then None
      else map_option (\<lambda>r. (r, ds\<lparr>tx_seq := tx_seq ds + 1\<rparr>))
        (if cipher_suite ds = 0xC038
         then encrypt_record_cbc_etm c rand (client_write_key ds) (client_write_mac_key ds) content_type
                (ucast (dtls_epoch ds)) (tx_seq ds) plain
         else aead_seal c ds content_type plain))"

definition dtls_decrypt_record :: "crypto \<Rightarrow> dtls_session \<Rightarrow> bytes \<Rightarrow> nat \<Rightarrow> bytes option" where
  "dtls_decrypt_record c ds rec plain_max =
     (if length rec < 13 then None
      else if cipher_suite ds = 0xC038
      then decrypt_record_cbc_etm c (server_write_key ds) (server_write_mac_key ds) (take 13 rec) (drop 13 rec) plain_max
      else aead_open c ds (take 13 rec) (drop 13 rec) plain_max)"

section \<open>Pseudo-random function and keys\<close>

text \<open>
  The expansion loop: \<open>hm\<close> is the HMAC with the secret, \<open>md_len\<close> its output length (32 or 48
  in the program), \<open>n\<close> the number of bytes still to produce.
\<close>

function prf_loop :: "(bytes \<Rightarrow> bytes) \<Rightarrow> nat \<Rightarrow> bytes \<Rightarrow> bytes \<Rightarrow> nat \<Rightarrow> bytes" where
  "prf_loop hm md_len label_seed a n =
     (if n = 0 \<or> md_len = 0 then []
      else let copy = min md_len n
           in take copy (hm (a @ label_seed)) @ prf_loop hm md_len label_seed (hm a) (n - copy))"
  by pat_completeness auto
termination
  by (relation "measure (\<lambda>(hm, md_len, ls, a, n). n)") auto

declare prf_loop.simps [simp del]

definition tls12_prf_generic :: "(bytes \<Rightarrow> bytes \<Rightarrow> bytes) \<Rightarrow> nat \<Rightarrow> bytes \<Rightarrow> string \<Rightarrow> bytes \<Rightarrow> nat \<Rightarrow> bytes" where
  "tls12_prf_generic hm md_len secret label seed out_len =
     (let label_seed = bytes_of_string label @ seed
      in prf_loop (hm secret) md_len label_seed (hm secret label_seed) out_len)"

definition suite_prf :: "crypto \<Rightarrow> dtls_session \<Rightarrow> bytes \<Rightarrow> string \<Rightarrow> bytes \<Rightarrow> nat \<Rightarrow> bytes" where
  "suite_prf c ds secret label seed out_len =
     (if cipher_suite ds = 0xC038 then tls12_prf_generic (hmac384 c) 48 secret label seed out_len
      else tls12_prf_generic (hmac256 c) 32 secret label seed out_len)"

definition transcript_hash :: "crypto \<Rightarrow> dtls_session \<Rightarrow> bytes \<Rightarrow> bytes" where
  "transcript_hash c ds t = (if cipher_suite ds = 0xC038 then sha384 c t else sha256 c t)"

text \<open>The digest of the password, zero from its first zero byte on.\<close>

definition derive_psk :: "crypto \<Rightarrow> string \<Rightarrow> bytes" where
  "derive_psk c passwd =
     (let psk = sha256 c (bytes_of_string passwd)
      in case find_char 0 psk of
           None \<Rightarrow> psk
         | Some i \<Rightarrow> take i psk @ replicate (length psk - i) 0)"

definition derive_session_keys :: "crypto \<Rightarrow> dtls_session \<Rightarrow> bytes \<Rightarrow> bytes \<Rightarrow> dtls_session" where
  "derive_session_keys c ds premaster transcript =
     (let ms = (if use_ems ds
                then suite_prf c ds premaster ''extended master secret'' (transcript_hash c ds transcript) 48
                else suite_prf c ds premaster ''master secret'' (client_random ds @ server_random ds) 48);
          ds1 = ds\<lparr>master_secret := ms\<rparr>;
          seed = server_random ds @ client_random ds
      in if cipher_suite ds = 0xC038 then
           (let kb = suite_prf c ds1 ms ''key expansion'' seed 192
            in ds1\<lparr>client_write_mac_key := take 48 kb, server_write_mac_key := take 48 (drop 48 kb),
                   client_write_key := take 32 (drop 96 kb), server_write_key := take 32 (drop 128 kb),
                   client_write_iv := take 16 (drop 160 kb), server_write_iv := take 16 (drop 176 kb)\<rparr>)
         else
           (let kb = suite_prf c ds1 ms ''key expansion'' seed 88
            in ds1\<lparr>client_write_key := take 32 kb, server_write_key := take 32 (drop 32 kb),
                   client_write_iv := put_at 0 (take 12 (drop 64 kb)) (client_write_iv ds),
                   server_write_iv := put_at 0 (take 12 (drop 76 kb)) (server_write_iv ds)\<rparr>))"

definition finished_verify_data :: "crypto \<Rightarrow> dtls_session \<Rightarrow> bytes \<Rightarrow> string \<Rightarrow> bytes" where
  "finished_verify_data c ds transcript label =
     suite_prf c ds (master_secret ds) label (transcript_hash c ds transcript) 12"

section \<open>Fields\<close>

lemma length_be [simp]: "length (be16 v) = 2" "length (be24 w) = 3" "length (be48 x) = 6"
  by (simp_all add: be16_def be24_def be48_def)

lemma read_be16_be16 [simp]: "read_be16 (be16 v @ s) = v"
  unfolding read_be16_def be16_def
  by (rule bit_word_eqI) (auto simp: bit_simps bit_imp_le_length)

interpretation be16: field_codec be16 read_be16 2
  by unfold_locales auto

lemma read_be48_be48 [simp]: "read_be48 (be48 v @ s) = take_bit 48 v"
proof (rule bit_word_eqI)
  fix n :: nat assume "n < LENGTH(64)"
  then consider "n < 8" | "8 \<le> n" "n < 16" | "16 \<le> n" "n < 24" | "24 \<le> n" "n < 32"
    | "32 \<le> n" "n < 40" | "40 \<le> n" "n < 48" | "48 \<le> n" by fastforce
  then show "bit (read_be48 (be48 v @ s)) n = bit (take_bit 48 v) n"
    by cases (auto simp: read_be48_def be48_def bit_simps)
qed

lemma be48_take_bit [simp]: "be48 (take_bit 48 v) = be48 v"
  unfolding be48_def by (auto intro!: bit_word_eqI simp: bit_simps)

lemma be48_inject: "be48 v = be48 w \<longleftrightarrow> take_bit 48 v = take_bit 48 w"
  by (metis append.right_neutral be48_take_bit read_be48_be48)

lemma record_hdr_simps [simp]:
  "length (build_dtls_record_hdr ct e s n) = 13"
  "build_dtls_record_hdr ct e s n ! 0 = ct"
  "read_be16 (drop 3 (build_dtls_record_hdr ct e s n)) = e"
  "read_be48 (drop 5 (build_dtls_record_hdr ct e s n)) = take_bit 48 s"
  "read_be16 (drop 11 (build_dtls_record_hdr ct e s n)) = n"
  using be16.dec_after [of "[ct, 0xfe, 0xfd] @ be16 e @ be48 s" 11 n "[]"]
  by (simp_all add: build_dtls_record_hdr_def)

lemma additional_data_take_bit [simp]:
  "build_additional_data ct e (take_bit 48 s) n = build_additional_data ct e s n"
  by (simp add: build_additional_data_def)

lemma nonce_take_bit [simp]: "build_relay_nonce iv e (take_bit 48 s) = build_relay_nonce iv e s"
  by (simp add: build_relay_nonce_def)

lemma length_nonce: "12 \<le> length iv \<Longrightarrow> length (build_relay_nonce iv e s) = 12"
  by (simp add: build_relay_nonce_def)

lemma xor_left_inject: "(a :: 'a::len word) XOR b = a XOR c \<longleftrightarrow> b = c"
  by (metis xor.assoc xor.left_neutral xor_self_eq)

lemma map_xor_inject:
  "length xs = length bs \<Longrightarrow> length bs = length cs \<Longrightarrow>
   map (\<lambda>(a, b). a XOR b) (zip xs bs) = map (\<lambda>(a, b). a XOR b) (zip xs cs) \<Longrightarrow> bs = (cs :: bytes)"
proof (induction xs bs arbitrary: cs rule: list_induct2)
  case (Cons x xs b bs)
  then show ?case by (cases cs) (auto simp: xor_left_inject)
qed simp

lemma nonce_inject:
  assumes "12 \<le> length iv" "build_relay_nonce iv e s = build_relay_nonce iv e' s'"
  shows "e = e' \<and> take_bit 48 s = take_bit 48 s'"
proof -
  have "be16 e @ be48 s = be16 e' @ be48 s'"
    using assms map_xor_inject [of "take 8 (drop 4 iv)" "be16 e @ be48 s" "be16 e' @ be48 s'"]
    by (simp add: build_relay_nonce_def)
  then show ?thesis by (simp add: be16.enc_inject be48_inject)
qed

lemma u8_of_nat: "n < 256 \<Longrightarrow> unat (of_nat n :: byte) = n"
  by (simp add: unat_of_nat take_bit_eq_mod)

lemma u16_of_nat: "n < 65536 \<Longrightarrow> unat (of_nat n :: u16) = n"
  by (simp add: unat_of_nat take_bit_eq_mod)

section \<open>Round trips of protected records\<close>

text \<open>The other end of a session: what one writes with, the other reads with.\<close>

definition peer_of :: "dtls_session \<Rightarrow> dtls_session \<Rightarrow> bool" where
  "peer_of ds pr \<longleftrightarrow> cipher_suite pr = cipher_suite ds \<and> server_write_key pr = client_write_key ds \<and>
     server_write_mac_key pr = client_write_mac_key ds \<and> server_write_iv pr = client_write_iv ds"

lemma cbc_round_trip:
  assumes "cbc_inverse c" "hmac_sized c" "length iv = 16" "length plain \<le> 16384" "length plain \<le> mx"
  shows "\<exists>r. encrypt_record_cbc_etm c (Some iv) key mk ct e s plain = Some r \<and> 13 \<le> length r \<and>
    decrypt_record_cbc_etm c key mk (take 13 r) (drop 13 r) mx = Some plain"
proof -
  define pad where "pad = 16 - length plain mod 16"
  have pad: "1 \<le> pad" "pad \<le> 16" by (simp_all add: pad_def Suc_leI)
  define v where "v = (of_nat (pad - 1) :: byte)"
  have pv: "unat v + 1 = pad" using u8_of_nat [of "pad - 1"] pad unfolding v_def by linarith
  define padded where "padded = plain @ replicate pad v"
  have lp: "length padded = length plain + pad" by (simp add: padded_def)
  have "length plain + pad = 16 * (length plain div 16 + 1)"
    unfolding pad_def by presburger
  then have m16: "length padded mod 16 = 0" using lp by simp
  obtain x where x: "aes_cbc_encrypt c key iv padded = Some x" "length x = length padded"
    "aes_cbc_decrypt c key iv x = Some padded"
    using assms(1) [unfolded cbc_inverse_def, rule_format, OF assms(3) m16, of key] by blast
  define frag where "frag = iv @ x"
  define mac where "mac = etm_mac c mk (build_additional_data ct e s (of_nat (length frag))) frag"
  have lf: "length frag = 16 + length plain + pad" using x assms(3) lp by (simp add: frag_def)
  have lm: "length mac = 48" using assms(2) by (simp add: mac_def etm_mac_def hmac_sized_def)
  define hdr where "hdr = build_dtls_record_hdr ct e s (of_nat (length frag + 48))"
  have hd: "length hdr = 13" by (simp add: hdr_def)
  have wl: "unat (of_nat (length frag + 48) :: u16) = length frag + 48"
    using lf pad assms(4) by (intro u16_of_nat) simp
  have enc: "encrypt_record_cbc_etm c (Some iv) key mk ct e s plain = Some (hdr @ frag @ mac)"
    unfolding encrypt_record_cbc_etm_def Let_def pad_def [symmetric] v_def [symmetric] padded_def [symmetric]
    using x by (simp add: frag_def [symmetric] hdr_def mac_def)
  have last: "padded ! (length padded - 1) = v"
  proof -
    have "length plain \<le> length padded - 1" "length padded - 1 - length plain < pad" using pad lp by linarith+
    then show ?thesis unfolding padded_def nth_append by (simp add: not_less)
  qed
  have cut: "take (length frag) (frag @ mac) = frag" "take 48 (drop (length frag) (frag @ mac)) = mac"
    "take 16 (frag @ mac) = iv" "take (length padded) (drop 16 (frag @ mac)) = x"
    using lm x(2) assms(3) by (simp_all add: frag_def)
  have nums: "length frag + 48 - 48 = length frag" "length frag - 16 = length padded"
    "length padded - pad = length plain" "length padded \<noteq> 0" "\<not> length padded < pad"
    "\<not> length (frag @ mac) < length frag + 48" "\<not> length frag + 48 < 16 + 16 + 48"
    using lf lm lp pad m16 by (simp_all add: not_less) presburger
  have tl: "take (length plain) padded = plain" "list_all (\<lambda>y. y = v) (drop (length plain) padded)"
    by (simp_all add: padded_def list_all_iff)
  have dec: "decrypt_record_cbc_etm c key mk hdr (frag @ mac) mx = Some plain"
    unfolding decrypt_record_cbc_etm_def Let_def hdr_def record_hdr_simps wl nums(1,2) cut
      additional_data_take_bit mac_def [symmetric]
    using nums m16 x(3) last pv tl assms(5) by simp
  show ?thesis using enc dec hd by (intro exI [of _ "hdr @ frag @ mac"]) simp
qed

lemma aead_round_trip:
  assumes "aead_inverse c" "12 \<le> length (client_write_iv ds)" "peer_of ds pr"
    "length plain \<le> 16384" "length plain \<le> mx"
  shows "\<exists>r. aead_seal c ds ct plain = Some r \<and> 13 \<le> length r \<and>
    aead_open c pr (take 13 r) (drop 13 r) mx = Some plain"
proof -
  let ?n = "build_relay_nonce (client_write_iv ds) (ucast (dtls_epoch ds)) (tx_seq ds)"
  let ?ad = "build_additional_data ct (ucast (dtls_epoch ds)) (tx_seq ds) (of_nat (length plain))"
  obtain x tag where x: "chacha_seal c (client_write_key ds) ?n ?ad plain = Some (x, tag)"
    "length x = length plain" "length tag = 16" "chacha_open c (client_write_key ds) ?n ?ad x tag = Some plain"
    using assms(1) length_nonce [OF assms(2)] unfolding aead_inverse_def by metis
  have wl: "unat (of_nat (length plain + 16) :: u16) = length plain + 16"
    using assms(4) by (intro u16_of_nat) simp
  show ?thesis
    using x assms(3,5) wl
    by (simp add: aead_seal_def aead_open_def Let_def peer_of_def nth_append)
qed

lemma protected_record:
  assumes "cbc_inverse c" "aead_inverse c" "hmac_sized c" "length iv = 16" "12 \<le> length (client_write_iv ds)"
    and "peer_of ds pr" "length plain \<le> kMaxRecordPlaintext" "length plain \<le> mx"
  shows "\<exists>r. dtls_encrypt_record c (Some iv) ds ct plain = Some (r, ds\<lparr>tx_seq := tx_seq ds + 1\<rparr>) \<and>
    dtls_decrypt_record c pr r mx = Some plain"
proof (cases "cipher_suite ds = 0xC038")
  case True
  have p: "cipher_suite pr = 0xC038" "server_write_key pr = client_write_key ds"
    "server_write_mac_key pr = client_write_mac_key ds" using assms(6) True by (simp_all add: peer_of_def)
  obtain r where "encrypt_record_cbc_etm c (Some iv) (client_write_key ds) (client_write_mac_key ds) ct
      (ucast (dtls_epoch ds)) (tx_seq ds) plain = Some r" "13 \<le> length r"
    "decrypt_record_cbc_etm c (client_write_key ds) (client_write_mac_key ds) (take 13 r) (drop 13 r) mx = Some plain"
    using cbc_round_trip [OF assms(1,3,4)] assms(7,8) unfolding kMaxRecordPlaintext_def by blast
  then show ?thesis using True p assms(7)
    by (simp add: dtls_encrypt_record_def dtls_decrypt_record_def)
next
  case False
  then have p: "cipher_suite pr \<noteq> 0xC038" using assms(6) by (simp add: peer_of_def)
  obtain r where "aead_seal c ds ct plain = Some r" "13 \<le> length r"
    "aead_open c pr (take 13 r) (drop 13 r) mx = Some plain"
    using aead_round_trip [OF assms(2,5,6)] assms(7,8) unfolding kMaxRecordPlaintext_def by blast
  then show ?thesis using False p assms(7)
    by (simp add: dtls_encrypt_record_def dtls_decrypt_record_def)
qed

text \<open>What a protected record looks like on the wire.\<close>

lemma protected_shape:
  assumes "hmac_sized c" "aead_inverse c" "length iv = 16" "12 \<le> length (client_write_iv ds)"
    and "dtls_encrypt_record c (Some iv) ds ct plain = Some (r, ds')"
  shows "\<exists>n payload. r = build_dtls_record_hdr ct (ucast (dtls_epoch ds)) (tx_seq ds) n @ payload \<and>
    unat n = length payload \<and> length payload \<le> length plain + 96"
proof (cases "cipher_suite ds = 0xC038")
  case True
  have len: "length plain \<le> 16384" using assms(5) by (simp add: dtls_encrypt_record_def kMaxRecordPlaintext_def split: if_splits)
  define pad where "pad = 16 - length plain mod 16"
  have pad: "pad \<le> 16" by (simp add: pad_def)
  let ?e = "ucast (dtls_epoch ds)" and ?s = "tx_seq ds"
  obtain x mac where x: "length x = length plain + pad"
    and mac: "mac = etm_mac c (client_write_mac_key ds) (build_additional_data ct ?e ?s (of_nat (length (iv @ x)))) (iv @ x)"
    and r: "r = build_dtls_record_hdr ct ?e ?s (of_nat (length (iv @ x) + 48)) @ iv @ x @ mac"
    using assms(5) True unfolding dtls_encrypt_record_def encrypt_record_cbc_etm_def Let_def pad_def [symmetric]
    by (auto split: if_splits option.splits simp del: of_nat_add)
  have "unat (of_nat (length (iv @ x) + 48) :: u16) = length (iv @ x) + 48"
    using x pad len assms(3) by (intro u16_of_nat) simp
  moreover have "length mac = 48" using assms(1) by (simp add: mac etm_mac_def hmac_sized_def)
  ultimately show ?thesis
    using assms(3) x pad r
    by (intro exI [of _ "of_nat (length (iv @ x) + 48)"] exI [of _ "iv @ x @ mac"]) (simp del: of_nat_add)
next
  case False
  have len: "length plain \<le> 16384" using assms(5) by (simp add: dtls_encrypt_record_def kMaxRecordPlaintext_def split: if_splits)
  let ?n = "build_relay_nonce (client_write_iv ds) (ucast (dtls_epoch ds)) (tx_seq ds)"
  let ?ad = "build_additional_data ct (ucast (dtls_epoch ds)) (tx_seq ds) (of_nat (length plain))"
  obtain x tag where x: "chacha_seal c (client_write_key ds) ?n ?ad plain = Some (x, tag)"
    "length x = length plain" "length tag = 16"
    using assms(2) length_nonce [OF assms(4)] unfolding aead_inverse_def by metis
  have r: "r = build_dtls_record_hdr ct (ucast (dtls_epoch ds)) (tx_seq ds) (of_nat (length plain + 16)) @ x @ tag"
    using assms(5) False x(1) by (auto simp: dtls_encrypt_record_def aead_seal_def Let_def split: if_splits)
  have "unat (of_nat (length plain + 16) :: u16) = length plain + 16" using len by (intro u16_of_nat) simp
  then show ?thesis
    using x r by (intro exI [of _ "of_nat (length plain + 16)"] exI [of _ "x @ tag"]) (simp del: of_nat_add)
qed

lemma prf_loop_phash:
  fixes hm :: "bytes \<Rightarrow> bytes"
  assumes "\<And>m. length (hm m) = md" "0 < md"
  shows "n \<le> k * md \<Longrightarrow> prf_loop hm md s ((hm ^^ Suc j) s) n
    = take n (concat (map (\<lambda>i. hm ((hm ^^ Suc i) s @ s)) [j..<j + k]))"
proof (induction k arbitrary: n j)
  case 0
  then show ?case by (simp add: prf_loop.simps)
next
  case (Suc k)
  have up: "[j..<j + Suc k] = j # [Suc j..<Suc j + k]" by (simp add: upt_conv_Cons del: upt_Suc)
  show ?case
  proof (cases "n = 0")
    case False
    have "prf_loop hm md s ((hm ^^ Suc (Suc j)) s) (n - min md n)
        = take (n - min md n) (concat (map (\<lambda>i. hm ((hm ^^ Suc i) s @ s)) [Suc j..<Suc j + k]))"
      using Suc by (intro Suc.IH) (auto simp: min_def)
    then have *: "prf_loop hm md s (hm ((hm ^^ Suc j) s)) (n - min md n)
        = take (n - min md n) (concat (map (\<lambda>i. hm ((hm ^^ Suc i) s @ s)) [Suc j..<Suc j + k]))" by simp
    show ?thesis using False assms
      unfolding prf_loop.simps [of hm md s "(hm ^^ Suc j) s" n] up Let_def *
      by (cases "md \<le> n") (simp_all del: upt_Suc funpow.simps)
  qed (simp add: prf_loop.simps)
qed

lemma prf_loop_length:
  assumes "\<And>m. length (hm m) = md" "0 < md"
  shows "length (prf_loop hm md s a n) = n"
proof (induction n arbitrary: a rule: less_induct)
  case (less n)
  then show ?case using assms
    by (cases "n = 0") (auto simp: prf_loop.simps [of hm md s a] Let_def min_def)
qed

lemma suite_prf_length: "hmac_sized c \<Longrightarrow> length (suite_prf c ds secret l seed n) = n"
  by (simp add: suite_prf_def tls12_prf_generic_def hmac_sized_def prf_loop_length Let_def)

text \<open>Encrypting a sequence of plaintexts, each with its content type, one record after the other.\<close>

fun encrypt_all :: "crypto \<Rightarrow> dtls_session \<Rightarrow> (byte \<times> bytes) list \<Rightarrow> (bytes list \<times> dtls_session) option" where
  "encrypt_all c ds [] = Some ([], ds)"
| "encrypt_all c ds ((ct, p) # ps) =
     (case dtls_encrypt_record c None ds ct p of
        None \<Rightarrow> None
      | Some (r, ds1) \<Rightarrow> map_option (\<lambda>(rs, ds2). (r # rs, ds2)) (encrypt_all c ds1 ps))"

lemma encrypt_advances: "dtls_encrypt_record c rand ds ct p = Some (r, ds1) \<Longrightarrow> ds1 = ds\<lparr>tx_seq := tx_seq ds + 1\<rparr>"
  by (auto simp: dtls_encrypt_record_def split: if_splits)

text \<open>What a record of the AEAD suite is: the cipher's output for the nonce of its sequence number.\<close>

lemma encrypt_sealed:
  assumes "dtls_encrypt_record c rand ds ct p = Some (r, ds1)" "cipher_suite ds \<noteq> 0xC038"
  shows "\<exists>ad x tag. chacha_seal c (client_write_key ds)
      (build_relay_nonce (client_write_iv ds) (ucast (dtls_epoch ds)) (tx_seq ds)) ad p = Some (x, tag) \<and> drop 13 r = x @ tag"
proof -
  let ?n = "build_relay_nonce (client_write_iv ds) (ucast (dtls_epoch ds)) (tx_seq ds)"
  let ?ad = "build_additional_data ct (ucast (dtls_epoch ds)) (tx_seq ds) (of_nat (length p))"
  obtain x tag where "chacha_seal c (client_write_key ds) ?n ?ad p = Some (x, tag)" "drop 13 r = x @ tag"
    using assms unfolding dtls_encrypt_record_def aead_seal_def Let_def by (auto split: if_splits option.splits)
  then show ?thesis by blast
qed

lemma encrypt_all_sealed:
  "encrypt_all c ds ps = Some (rs, ds') \<Longrightarrow> cipher_suite ds \<noteq> 0xC038 \<Longrightarrow>
   length rs = length ps \<and> (\<forall>i < length ps. \<exists>ad x tag. chacha_seal c (client_write_key ds)
     (build_relay_nonce (client_write_iv ds) (ucast (dtls_epoch ds)) (tx_seq ds + of_nat i)) ad (snd (ps ! i)) = Some (x, tag) \<and>
     drop 13 (rs ! i) = x @ tag)"
proof (induction c ds ps arbitrary: rs rule: encrypt_all.induct)
  case (2 c ds ct p ps)
  obtain r ds1 where e: "dtls_encrypt_record c None ds ct p = Some (r, ds1)"
    using "2.prems"(1) by (auto split: option.splits)
  obtain rs1 where s: "encrypt_all c ds1 ps = Some (rs1, ds')" and rs: "rs = r # rs1"
    using "2.prems"(1) e by auto
  note d = encrypt_advances [OF e]
  have suite: "cipher_suite ds1 \<noteq> 0xC038" using "2.prems"(2) d by simp
  note ih = "2.IH" [OF e refl s suite]
  show ?case
    using ih encrypt_sealed [OF e "2.prems"(2)] unfolding rs
    by (auto simp: d nth_Cons add.assoc split: nat.split)
qed simp

lemma seq_distinct:
  fixes a :: u64
  assumes "take_bit 48 (a + of_nat i) = take_bit 48 (a + of_nat j)" "i < 2 ^ 48" "j < 2 ^ 48"
  shows "i = j"
proof -
  have u: "uint (take_bit 48 (a + of_nat k)) = (uint a + int k) mod 2 ^ 48" if "k < 2 ^ 48" for k
  proof -
    have "uint (of_nat k :: u64) = int k" using that by (simp add: unsigned_of_nat take_bit_nat_eq_self)
    moreover have "(x mod 2 ^ 64) mod 2 ^ 48 = x mod (2 ^ 48 :: int)" for x by (simp add: mod_mod_cancel)
    moreover have "uint (take_bit 48 w) = uint w mod 2 ^ 48" for w :: u64
      by (rule trans [OF unsigned_take_bit_eq take_bit_eq_mod])
    ultimately show ?thesis by (simp add: uint_word_ariths del: take_bit_eq_mod)
  qed
  have "(uint a + int i) mod 2 ^ 48 = (uint a + int j) mod 2 ^ 48" using u assms by metis
  then have "(uint a + int i - uint a) mod 2 ^ 48 = (uint a + int j - uint a) mod 2 ^ 48"
    by (metis mod_diff_left_eq)
  then show ?thesis using assms(2,3) by simp
qed

section \<open>Properties\<close>

text \<open>
  C14. A record one end protects is accepted by the other and gives the plaintext back, with
  either cipher suite, whatever the sequence number; the sender's sequence number advances
  by one. Needs that CBC decryption undoes encryption, that the AEAD opens what it sealed,
  that HMACs have their length, and a plaintext of at most 16384 bytes.
\<close>

theorem dtls_record_round_trip:
  assumes "cbc_inverse c" "aead_inverse c" "hmac_sized c" "length iv = 16" "12 \<le> length (client_write_iv ds)"
    and "peer_of ds pr" "length plain \<le> kMaxRecordPlaintext" "length plain \<le> mx"
  shows "\<exists>r. dtls_encrypt_record c (Some iv) ds ct plain = Some (r, ds\<lparr>tx_seq := tx_seq ds + 1\<rparr>) \<and>
    dtls_decrypt_record c pr r mx = Some plain"
  by (rule protected_record [OF assms])

definition toy_crypto :: crypto where
  "toy_crypto =
     \<lparr>hmac256 = (\<lambda>k m. replicate 32 (of_nat (length m))), hmac384 = (\<lambda>k m. replicate 48 (of_nat (length m))),
      sha256 = (\<lambda>m. replicate 32 1), sha384 = (\<lambda>m. replicate 48 1),
      aes_cbc_encrypt = (\<lambda>k iv p. Some (rev p)), aes_cbc_decrypt = (\<lambda>k iv p. Some (rev p)),
      chacha_seal = (\<lambda>k n ad p. Some (rev p, replicate 16 0)), chacha_open = (\<lambda>k n ad p t. Some (rev p))\<rparr>"

lemma toy_crypto_ok: "cbc_inverse toy_crypto" "aead_inverse toy_crypto" "hmac_sized toy_crypto"
  by (simp_all add: cbc_inverse_def aead_inverse_def hmac_sized_def toy_crypto_def)

theorem dtls_record_round_trip_witness:
  "\<exists>r. dtls_encrypt_record toy_crypto (Some (replicate 16 7)) (zero_session\<lparr>cipher_suite := 0xC038\<rparr>) 0x17 [1, 2, 3]
     = Some (r, zero_session\<lparr>cipher_suite := 0xC038, tx_seq := 1\<rparr>) \<and>
    dtls_decrypt_record toy_crypto (zero_session\<lparr>cipher_suite := 0xC038\<rparr>) r 64 = Some [1, 2, 3]"
  using dtls_record_round_trip [OF toy_crypto_ok, where iv = "replicate 16 7" and ds = "zero_session\<lparr>cipher_suite := 0xC038\<rparr>"
      and pr = "zero_session\<lparr>cipher_suite := 0xC038\<rparr>" and plain = "[1, 2, 3]" and mx = 64 and ct = "0x17"]
  by (simp add: zero_session_def peer_of_def kMaxRecordPlaintext_def)

text \<open>
  C15. No two of the first \<open>2^48\<close> records of a session that uses the AEAD suite are sealed with
  the same nonce: there are pairwise different nonces, which do not depend on the cipher, such
  that whatever AEAD the records are made with, the body of the \<open>i\<close>-th record is what that AEAD
  returns for the session's key, the \<open>i\<close>-th nonce and the \<open>i\<close>-th plaintext. Holds for any
  initialisation vector and epoch, any first sequence number and any content types.
\<close>

theorem nonces_never_repeat:
  assumes "cipher_suite ds \<noteq> 0xC038" "length ps \<le> 2 ^ 48" "12 \<le> length (client_write_iv ds)"
  shows "\<exists>ns. distinct ns \<and> length ns = length ps \<and>
    (\<forall>c rs ds'. encrypt_all c ds ps = Some (rs, ds') \<longrightarrow> length rs = length ps \<and>
      (\<forall>i < length ps. \<exists>ad x tag.
         chacha_seal c (client_write_key ds) (ns ! i) ad (snd (ps ! i)) = Some (x, tag) \<and> drop 13 (rs ! i) = x @ tag))"
proof (intro exI conjI)
  let ?n = "\<lambda>i. build_relay_nonce (client_write_iv ds) (ucast (dtls_epoch ds)) (tx_seq ds + of_nat i)"
  have "i = j" if ij: "i < length ps" "j < length ps" and eq: "?n i = ?n j" for i j
  proof -
    have "take_bit 48 (tx_seq ds + of_nat i) = take_bit 48 (tx_seq ds + of_nat j)"
      using nonce_inject [OF assms(3) eq] by simp
    then show ?thesis using seq_distinct ij assms(2) by (meson less_le_trans)
  qed
  then show "distinct (map ?n [0..<length ps])" by (auto simp: distinct_map inj_on_def)
  show "length (map ?n [0..<length ps]) = length ps" by simp
  show "\<forall>c rs ds'. encrypt_all c ds ps = Some (rs, ds') \<longrightarrow> length rs = length ps \<and>
      (\<forall>i < length ps. \<exists>ad x tag. chacha_seal c (client_write_key ds) (map ?n [0..<length ps] ! i) ad (snd (ps ! i)) = Some (x, tag) \<and>
         drop 13 (rs ! i) = x @ tag)"
    using encrypt_all_sealed [OF _ assms(1)] by simp
qed

theorem nonces_never_repeat_witness:
  "(\<exists>rs ds'. encrypt_all toy_crypto (zero_session\<lparr>cipher_suite := 0xCCAC\<rparr>) [(0x16, [1]), (0x17, [2]), (0x17, [3])] = Some (rs, ds')) \<and>
   (\<exists>ns. distinct ns \<and> length ns = 3 \<and> (\<forall>c rs ds'.
     encrypt_all c (zero_session\<lparr>cipher_suite := 0xCCAC\<rparr>) [(0x16, [1]), (0x17, [2]), (0x17, [3])] = Some (rs, ds') \<longrightarrow>
     (\<exists>ad x tag. chacha_seal c (replicate 32 0) (ns ! 2) ad [3] = Some (x, tag) \<and> drop 13 (rs ! 2) = x @ tag)))"
proof
  let ?ds = "zero_session\<lparr>cipher_suite := 0xCCAC\<rparr>" and ?ps = "[(0x16, [1]), (0x17, [2]), (0x17, [3])] :: (byte \<times> bytes) list"
  have "encrypt_all toy_crypto ?ds ?ps \<noteq> None" by code_simp
  then show "\<exists>rs ds'. encrypt_all toy_crypto ?ds ?ps = Some (rs, ds')" by fastforce
  show "\<exists>ns. distinct ns \<and> length ns = 3 \<and> (\<forall>c rs ds'. encrypt_all c ?ds ?ps = Some (rs, ds') \<longrightarrow>
     (\<exists>ad x tag. chacha_seal c (replicate 32 0) (ns ! 2) ad [3] = Some (x, tag) \<and> drop 13 (rs ! 2) = x @ tag))"
  proof -
    have key: "client_write_key ?ds = replicate 32 0" "length ?ps = 3" "snd (?ps ! 2) = [3]" by (simp_all add: zero_session_def)
    have "cipher_suite ?ds \<noteq> 0xC038" "length ?ps \<le> 2 ^ 48" "12 \<le> length (client_write_iv ?ds)" by (simp_all add: zero_session_def)
    from nonces_never_repeat [OF this, unfolded key(1,2)] obtain ns where ns: "distinct ns" "length ns = 3"
      "\<And>c rs ds'. encrypt_all c ?ds ?ps = Some (rs, ds') \<Longrightarrow> (\<forall>i < 3. \<exists>ad x tag.
         chacha_seal c (replicate 32 0) (ns ! i) ad (snd (?ps ! i)) = Some (x, tag) \<and> drop 13 (rs ! i) = x @ tag)" by blast
    show ?thesis using ns(1,2) ns(3) [THEN spec, of _ _ _ 2] unfolding key(3) by (intro exI [of _ ns]) simp
  qed
qed

text \<open>
  C16. The expansion loop computes the \<open>P_hash\<close> of RFC 5246: the first \<open>out_len\<close> bytes of
  \<open>HMAC(A(1) + seed) + HMAC(A(2) + seed) + ...\<close> with \<open>A(i)\<close> the \<open>i\<close>-fold HMAC of the seed,
  for every output length, whether or not it is a multiple of the digest size.
\<close>

theorem prf_is_phash:
  assumes "\<forall>k m. length (hm k m) = md" "0 < md" "out_len \<le> k * md"
  shows "let s = bytes_of_string label @ seed; a = (\<lambda>i. (hm secret ^^ i) s)
    in tls12_prf_generic hm md secret label seed out_len = take out_len (concat (map (\<lambda>i. hm secret (a i @ s)) [1..<k + 1]))"
proof -
  let ?s = "bytes_of_string label @ seed"
  have "prf_loop (hm secret) md ?s ((hm secret ^^ Suc 0) ?s) out_len
      = take out_len (concat (map (\<lambda>i. hm secret ((hm secret ^^ Suc i) ?s @ ?s)) [0..<0 + k]))"
    using assms by (intro prf_loop_phash) auto
  also have "map (\<lambda>i. hm secret ((hm secret ^^ Suc i) ?s @ ?s)) [0..<0 + k]
      = map (\<lambda>i. hm secret ((hm secret ^^ i) ?s @ ?s)) [1..<k + 1]"
    using map_map [of "\<lambda>i. hm secret ((hm secret ^^ i) ?s @ ?s)" Suc "[0..<k]"] map_Suc_upt [of 0 k]
    by (simp add: comp_def del: upt_Suc)
  finally show ?thesis by (simp add: tls12_prf_generic_def Let_def)
qed

theorem prf_is_phash_witness:
  "tls12_prf_generic (hmac384 toy_crypto) 48 [1] ''key expansion'' [2] 100
   = take 100 (concat (map (\<lambda>i. hmac384 toy_crypto [1] ((hmac384 toy_crypto [1] ^^ i) (bytes_of_string ''key expansion'' @ [2])
       @ bytes_of_string ''key expansion'' @ [2])) [1..<4]))"
proof -
  have "\<forall>k m. length (hmac384 toy_crypto k m) = 48" by (simp add: toy_crypto_def)
  from prf_is_phash [OF this, of 100 3 "''key expansion''" "[2]" "[1]"] show ?thesis
    by (simp add: Let_def del: upt_Suc)
qed

text \<open>
  The key block is cut without gap or overlap: with the CBC suite the two MAC keys, the
  two cipher keys and the two initialisation vectors, in this order, are the 192 bytes of the
  key expansion; with the AEAD suite the two keys and the two 12-byte vectors are its 88 bytes.
\<close>

lemma key_block_partition:
  fixes ds pm t
  assumes "hmac_sized c"
  defines "d \<equiv> derive_session_keys c ds pm t"
  shows "if cipher_suite ds = 0xC038
    then client_write_mac_key d @ server_write_mac_key d @ client_write_key d
        @ server_write_key d @ client_write_iv d @ server_write_iv d
        = suite_prf c ds (master_secret d) ''key expansion'' (server_random ds @ client_random ds) 192
      \<and> length (client_write_mac_key d) = 48 \<and> length (server_write_key d) = 32
      \<and> length (server_write_iv d) = 16
    else client_write_key d @ server_write_key d @ take 12 (client_write_iv d) @ take 12 (server_write_iv d)
        = suite_prf c ds (master_secret d) ''key expansion'' (server_random ds @ client_random ds) 88
      \<and> length (client_write_key d) = 32"
proof -
  have six: "take 48 kb @ take 48 (drop 48 kb) @ take 32 (drop 96 kb) @ take 32 (drop 128 kb)
      @ take 16 (drop 160 kb) @ drop 176 kb = kb" if "length kb = 192" for kb :: bytes
  proof -
    have "take 16 (drop 160 kb) @ drop 176 kb = drop 160 kb"
      using append_take_drop_id [of 16 "drop 160 kb"] by simp
    moreover have "take 32 (drop 128 kb) @ drop 160 kb = drop 128 kb"
      using append_take_drop_id [of 32 "drop 128 kb"] by simp
    moreover have "take 32 (drop 96 kb) @ drop 128 kb = drop 96 kb"
      using append_take_drop_id [of 32 "drop 96 kb"] by simp
    moreover have "take 48 (drop 48 kb) @ drop 96 kb = drop 48 kb"
      using append_take_drop_id [of 48 "drop 48 kb"] by simp
    ultimately show ?thesis by (simp add: append_take_drop_id)
  qed
  have four: "take 32 kb @ take 32 (drop 32 kb) @ take 12 (drop 64 kb) @ drop 76 kb = kb"
    if "length kb = 88" for kb :: bytes
  proof -
    have "take 12 (drop 64 kb) @ drop 76 kb = drop 64 kb"
      using append_take_drop_id [of 12 "drop 64 kb"] by simp
    moreover have "take 32 (drop 32 kb) @ drop 64 kb = drop 32 kb"
      using append_take_drop_id [of 32 "drop 32 kb"] by simp
    ultimately show ?thesis by (simp add: append_take_drop_id)
  qed
  have sp: "suite_prf c (x\<lparr>master_secret := m\<rparr>) = suite_prf c x" for x m
    by (simp add: suite_prf_def fun_eq_iff)
  note len = suite_prf_length [OF assms(1)]
  show ?thesis
  proof (cases "cipher_suite ds = 0xC038")
    case True
    then show ?thesis by (simp add: d_def derive_session_keys_def Let_def sp len six)
  next
    case False
    then show ?thesis by (simp add: d_def derive_session_keys_def Let_def sp len four put_at_def)
  qed
qed

end
