(* ===== verification/Iotc_Link.thy ===== *)
theory Iotc_Link
  imports Trans_Code Dtls_Record
begin

text \<open>
  Model of the IOTC datagrams of \<open>src/camera/tutk/IotcClient.cpp\<close> that carry DTLS records and
  punch control packets, over a scripted UDP socket: what \<open>recvfrom\<close> returns (a datagram,
  nothing, an error, or the deadline of the call that waits), what \<open>sendto\<close> was called with and
  whether it succeeded. Addresses are host-order pairs of address and port.
\<close>

section \<open>The socket\<close>

type_synonym addr = "u32 \<times> u16"

datatype udp_event = Dgram addr bytes | NoData | RecvError | Deadline

record udp =
  u_in :: "udp_event list"
  u_out :: "(addr \<times> bytes) list"
  u_send_ok :: "bool list"

definition sendto :: "addr \<Rightarrow> bytes \<Rightarrow> udp \<Rightarrow> bool \<times> udp" where
  "sendto dst pkt u =
     (case u_send_ok u of
        [] \<Rightarrow> (True, u\<lparr>u_out := u_out u @ [(dst, pkt)]\<rparr>)
      | b # bs \<Rightarrow> (b, u\<lparr>u_out := (if b then u_out u @ [(dst, pkt)] else u_out u), u_send_ok := bs\<rparr>))"

section \<open>DTLS datagrams\<close>

definition dtls_datagram :: "addr \<Rightarrow> u32 \<Rightarrow> bytes \<Rightarrow> bytes \<Rightarrow> u16 \<Rightarrow> u32 \<Rightarrow> bytes" where
  "dtls_datagram dst epoch token data sq relay_tag =
     [0x04, 0x02, 0x1c, 0x0b] @ le16 (of_nat (12 + length data)) @ le16 sq @
     (if snd dst = 3478
      then [0x04, 0x05, 0x24, 0x00, ucast relay_tag, ucast (drop_bit 8 relay_tag), ucast (drop_bit 16 relay_tag), 0x01,
            0x0c, 0x00, 0x00, 0x00]
      else [0x07, 0x04, 0x21, 0x00, token ! 0, token ! 1, 0x00, 0x01,
            0x0c, ucast (drop_bit 8 epoch), ucast epoch, 0x00]) @
     token @ data"

definition send_dtls_packet ::
  "addr \<Rightarrow> u32 \<Rightarrow> bytes \<Rightarrow> bytes \<Rightarrow> u16 \<Rightarrow> u32 \<Rightarrow> udp \<Rightarrow> bool \<times> udp" where
  "send_dtls_packet dst epoch token data sq relay_tag u =
     (if 0xffff - 12 < length data then (False, u)
      else let pkt = dtls_datagram dst epoch token data sq relay_tag
           in sendto dst (scramble_first (min (length pkt) kDataScrambleLen) pkt) u)"

definition is_relay_ping :: "bytes \<Rightarrow> bool" where
  "is_relay_ping raw \<longleftrightarrow> length raw = 24 \<and> raw ! 8 = 0x23 \<and> raw ! 9 = 0x05 \<and> raw ! 10 = 0x42"

definition relay_pong :: "bytes \<Rightarrow> bytes" where
  "relay_pong raw = trans_code_partial (put_at 8 [0x24, 0x05, 0x24] (put_at 2 [0x1c] (take 24 raw)))"

definition packet_epoch :: "bytes \<Rightarrow> u32" where
  "packet_epoch raw =
     (if raw ! 8 = 0x03 \<and> raw ! 9 = 0x05 \<and> raw ! 10 = 0x42
      then (if 33 \<le> length raw then push_bit 8 (ucast (raw ! 31)) OR ucast (raw ! 32) else 0)
      else push_bit 8 (ucast (raw ! 17)) OR ucast (raw ! 18))"

text \<open>
  The receive buffer holds 2048 bytes. The result is the DTLS data with the epoch and the
  session token of the datagram; \<open>None\<close> is the timeout.
\<close>

fun recv_dtls_loop :: "addr option \<Rightarrow> nat \<Rightarrow> udp_event list \<Rightarrow> udp \<Rightarrow> (bytes \<times> u32 \<times> bytes) option \<times> udp" where
  "recv_dtls_loop peer buf_size [] u = (None, u\<lparr>u_in := []\<rparr>)"
| "recv_dtls_loop peer buf_size (Deadline # es) u = (None, u\<lparr>u_in := es\<rparr>)"
| "recv_dtls_loop peer buf_size (NoData # es) u = recv_dtls_loop peer buf_size es u"
| "recv_dtls_loop peer buf_size (RecvError # es) u = recv_dtls_loop peer buf_size es u"
| "recv_dtls_loop peer buf_size (Dgram src dgram # es) u =
     (let n = length (take 2048 dgram); raw = descramble_rx (take 2048 dgram); dtls_len = n - 28
      in if n < 24 \<or> peer \<noteq> None \<and> peer \<noteq> Some src then recv_dtls_loop peer buf_size es u
         else if raw ! 0 \<noteq> 0x04 \<or> raw ! 1 \<noteq> 0x02 then recv_dtls_loop peer buf_size es u
         else if is_relay_ping raw
         then recv_dtls_loop peer buf_size es (snd (sendto src (relay_pong raw) u))
         else if n < 28 \<or> dtls_len < 1 \<or> (raw ! 28 \<noteq> 0x16 \<and> raw ! 28 \<noteq> 0x14 \<and> raw ! 28 \<noteq> 0x15) \<or> buf_size < dtls_len
         then recv_dtls_loop peer buf_size es u
         else (Some (drop 28 raw, packet_epoch raw, take 8 (drop 20 raw)), u\<lparr>u_in := es\<rparr>))"

definition recv_dtls_packet :: "addr option \<Rightarrow> nat \<Rightarrow> udp \<Rightarrow> (bytes \<times> u32 \<times> bytes) option \<times> udp" where
  "recv_dtls_packet peer buf_size u = recv_dtls_loop peer buf_size (u_in u) u"

section \<open>Punch control packets\<close>

text \<open>A C string copied into a field of fixed width.\<close>

definition c_field :: "nat \<Rightarrow> string \<Rightarrow> bytes" where
  "c_field n s = take n (bytes_of_string s @ replicate n 0)"

definition ctrl0x33 :: "string \<Rightarrow> bytes \<Rightarrow> byte \<Rightarrow> bytes" where
  "ctrl0x33 uid_upper token step =
     [0x04, 0x02, 0x1c, 0x02, 0x24, 0, 0, 0, step, 0x04, 0x33, 0, 0, 0, 0, 0]
     @ c_field 20 uid_upper @ token @ replicate 8 0"

definition send_ctrl0x33 :: "addr \<Rightarrow> string \<Rightarrow> bytes \<Rightarrow> byte \<Rightarrow> udp \<Rightarrow> bool \<times> udp" where
  "send_ctrl0x33 dst uid_upper token step u = sendto dst (trans_code_partial (ctrl0x33 uid_upper token step)) u"

section \<open>Lemmas\<close>

lemma length_scramble [simp]: "length (scramble_first n p) = length p"
  by (simp add: scramble_first_def)

lemma sendto_in [simp]: "u_in (snd (sendto dst pkt u)) = u_in u"
  by (simp add: sendto_def split: list.splits)

lemma send_dtls_in [simp]: "u_in (snd (send_dtls_packet dst e tok data sq tag u)) = u_in u"
  by (simp add: send_dtls_packet_def Let_def)

lemma send_ctrl_in [simp]: "u_in (snd (send_ctrl0x33 dst uid tok step u)) = u_in u"
  by (simp add: send_ctrl0x33_def)

lemma dtls_datagram_fields:
  assumes "length token = 8"
  shows "length (dtls_datagram dst epoch token data sq tag) = 28 + length data"
    "drop 28 (dtls_datagram dst epoch token data sq tag) = data"
    "take 8 (drop 20 (dtls_datagram dst epoch token data sq tag)) = token"
    "dtls_datagram dst epoch token data sq tag ! 0 = 0x04" "dtls_datagram dst epoch token data sq tag ! 1 = 0x02"
    "dtls_datagram dst epoch token data sq tag ! 3 = 0x0b"
    "packet_epoch (dtls_datagram dst epoch token data sq tag) = (if snd dst = 3478 then 0 else take_bit 16 epoch)"
proof -
  obtain a b c d where w: "le16 (of_nat (12 + length data)) = [a, b]" "le16 sq = [c, d]" by (simp add: le16_def)
  show "length (dtls_datagram dst epoch token data sq tag) = 28 + length data"
    "drop 28 (dtls_datagram dst epoch token data sq tag) = data"
    "take 8 (drop 20 (dtls_datagram dst epoch token data sq tag)) = token"
    "dtls_datagram dst epoch token data sq tag ! 0 = 0x04" "dtls_datagram dst epoch token data sq tag ! 1 = 0x02"
    "dtls_datagram dst epoch token data sq tag ! 3 = 0x0b"
    using assms unfolding dtls_datagram_def w by simp_all
  have "push_bit 8 (ucast (ucast (drop_bit 8 epoch) :: byte)) OR ucast (ucast epoch :: byte) = take_bit 16 epoch"
    by (rule bit_word_eqI) (auto simp: bit_simps)
  then show "packet_epoch (dtls_datagram dst epoch token data sq tag) = (if snd dst = 3478 then 0 else take_bit 16 epoch)"
    unfolding packet_epoch_def dtls_datagram_def w by simp
qed

lemma send_dtls_wire:
  assumes "send_dtls_packet dst epoch token data sq tag u0 = (True, u1)" "last (u_out u1) = (dst, dgram)"
  shows "dgram = scramble_first (min (length (dtls_datagram dst epoch token data sq tag)) kDataScrambleLen)
    (dtls_datagram dst epoch token data sq tag)"
  using assms by (auto simp: send_dtls_packet_def sendto_def Let_def split: list.splits if_splits)

text \<open>A datagram that carries DTLS data behind its 28-byte header, whoever built it.\<close>

definition carries :: "bytes \<Rightarrow> bytes \<Rightarrow> bool" where
  "carries dgram data \<longleftrightarrow> length dgram = 28 + length data \<and> length data \<le> 2020 \<and> data \<noteq> [] \<and>
     hd data \<in> {0x14, 0x15, 0x16} \<and> drop 28 (descramble_rx dgram) = data \<and>
     descramble_rx dgram ! 0 = 0x04 \<and> descramble_rx dgram ! 1 = 0x02"

text \<open>Such a datagram of the peer is the next one the receiver returns.\<close>

lemma recv_carried:
  assumes "carries dgram data" "length data \<le> buf_size"
  shows "recv_dtls_loop (Some src) buf_size (Dgram src dgram # es) u =
    (Some (data, packet_epoch (descramble_rx dgram), take 8 (drop 20 (descramble_rx dgram))), u\<lparr>u_in := es\<rparr>)"
proof -
  let ?p = "descramble_rx dgram"
  have n: "0 < length data" "drop 28 ?p = data" using assms(1) by (simp_all add: carries_def)
  have "length ?p - 28 = length data" using n(2) by (metis length_drop)
  then have l: "length ?p = 28 + length data" using n(1) by linarith
  have "?p ! 28 = hd data" using hd_drop_conv_nth [of 28 ?p] n l by simp
  moreover have "\<not> is_relay_ping ?p" using l by (simp add: is_relay_ping_def)
  moreover have "take 2048 dgram = dgram" using assms(1) by (simp add: carries_def)
  ultimately show ?thesis using assms by (auto simp: carries_def Let_def)
qed

lemma dtls_datagram_carries:
  fixes dst epoch token data sq tag
  defines "p \<equiv> dtls_datagram dst epoch token data sq tag"
  assumes "length token = 8" "data \<noteq> []" "hd data \<in> {0x14, 0x15, 0x16}" "length data \<le> 2020"
  shows "carries (scramble_first (min (length p) kDataScrambleLen) p) data"
    "descramble_rx (scramble_first (min (length p) kDataScrambleLen) p) = p"
proof -
  note f = dtls_datagram_fields [OF assms(2), of dst epoch data sq tag, folded p_def]
  show raw: "descramble_rx (scramble_first (min (length p) kDataScrambleLen) p) = p"
    using descramble_scrambled [of p] f(1,6) by simp
  show "carries (scramble_first (min (length p) kDataScrambleLen) p) data"
    using assms(3-5) f raw by (simp add: carries_def)
qed

section \<open>Properties\<close>

text \<open>
  A DTLS datagram built by one end of the link is taken apart by the other exactly as it
  was put together: its DTLS data, the low 16 bits of the epoch (0 through the relay) and the
  session token, for every length that fits the receiver's buffers; what is scrambled is
  descrambled, and datagrams of other peers in front of it are passed over.
\<close>

lemma dtls_datagram_round_trip:
  assumes "length token = 8" "data \<noteq> []" "hd data \<in> {0x14, 0x15, 0x16}" "length data \<le> buf_size" "length data \<le> 2020"
    and "send_dtls_packet dst epoch token data sq tag u0 = (True, u1)" "last (u_out u1) = (dst, dgram)"
    and "\<forall>e \<in> set strangers. e = NoData \<or> (\<exists>a d. e = Dgram a d \<and> a \<noteq> src)"
  shows "fst (recv_dtls_loop (Some src) buf_size (strangers @ Dgram src dgram # es) u) =
    Some (data, if snd dst = 3478 then 0 else take_bit 16 epoch, token)"
  using assms(8)
proof (induction strangers)
  case Nil
  note wire = dtls_datagram_carries [OF assms(1-3,5), of dst epoch sq tag, folded send_dtls_wire [OF assms(6,7)]]
  show ?case using recv_carried [OF wire(1) assms(4)] wire(2) dtls_datagram_fields [OF assms(1), of dst epoch data sq tag] by simp
next
  case (Cons e es)
  then show ?case by (auto simp: Let_def)
qed

end
