(* ===== verification/Iotc_Rendezvous.thy ===== *)
theory Iotc_Rendezvous
  imports Iotc_Link Tutk_Packets
begin

text \<open>
  Model of how a session finds the printer (\<open>src/camera/tutk/IotcClient.cpp\<close>): the packets of
  the relay join and of the rendezvous with the :3478 servers, the parsers of their replies, the
  off-LAN rendezvous, \<open>iotc_relay_connect\<close> and \<open>iotc_lan_connect\<close>. What the operating system
  answers (name resolution, interface addresses, the routed local address, random bytes, clock
  readings, polls of the cancel function) is an argument; times are nanoseconds.
\<close>

section \<open>Random numbers and addresses\<close>

text \<open>\<open>rand32\<close>: the state is seeded from \<open>RAND_bytes\<close> as long as it is zero.\<close>

definition xorshift :: "u64 \<Rightarrow> u64" where
  "xorshift s0 =
     (let s1 = s0 XOR push_bit 13 s0; s2 = s1 XOR drop_bit 7 s1 in s2 XOR push_bit 17 s2)"

definition rand32 :: "u64 \<Rightarrow> u64 \<Rightarrow> u32 \<times> u64" where
  "rand32 seed state = (let s = xorshift (if state = 0 then seed else state) in (ucast s, s))"

definition be32 :: "u32 \<Rightarrow> bytes" where
  "be32 v = [ucast (drop_bit 24 v), ucast (drop_bit 16 v), ucast (drop_bit 8 v), ucast v]"

definition read_be32 :: "bytes \<Rightarrow> u32" where
  "read_be32 p = (push_bit 24 (ucast (p ! 0)) OR push_bit 16 (ucast (p ! 1)) OR push_bit 8 (ucast (p ! 2)) OR ucast (p ! 3))"

text \<open>Port and address as they stand in a \<open>sockaddr_in\<close>, in network order.\<close>

definition addr_bytes :: "addr \<Rightarrow> bytes" where
  "addr_bytes a = be16 (snd a) @ be32 (fst a)"

definition read_addr :: "bytes \<Rightarrow> addr" where
  "read_addr p = (read_be32 (drop 4 p), read_be16 (drop 2 p))"

definition read_addr_rec :: "bytes \<Rightarrow> addr option" where
  "read_addr_rec p =
     (if p ! 0 \<noteq> 0x02 \<or> p ! 1 \<noteq> 0x00 then None
      else let a = read_addr p in if fst a \<noteq> 0 \<and> snd a \<noteq> 0 then Some a else None)"

section \<open>Replies\<close>

text \<open>The four-place array of results is the list \<open>out\<close>, oldest first.\<close>

function rdv_servers_loop :: "bytes \<Rightarrow> nat \<Rightarrow> nat \<Rightarrow> addr list \<Rightarrow> addr list" where
  "rdv_servers_loop reply i max_out out =
     (if i + 8 \<le> length reply \<and> length out < max_out
      then rdv_servers_loop reply (i + 1) max_out
             (case read_addr_rec (drop i reply) of
                Some a \<Rightarrow> if snd a = 3478 \<and> fst a \<notin> fst ` set out then out @ [a] else out
              | None \<Rightarrow> out)
      else out)"
  by pat_completeness auto
termination
  by (relation "measure (\<lambda>(reply, i, max_out, out). length reply - i)") auto

declare rdv_servers_loop.simps [simp del]

definition parse_rdv_servers :: "bytes \<Rightarrow> nat \<Rightarrow> addr list" where
  "parse_rdv_servers reply max_out = rdv_servers_loop reply 16 max_out []"

function reflexive_loop :: "bytes \<Rightarrow> nat \<Rightarrow> addr option" where
  "reflexive_loop reply i =
     (if i + 8 \<le> length reply
      then (case read_addr_rec (drop i reply) of
              Some a \<Rightarrow> if snd a \<noteq> 3478 then Some a else reflexive_loop reply (i + 1)
            | None \<Rightarrow> reflexive_loop reply (i + 1))
      else None)"
  by pat_completeness auto
termination
  by (relation "measure (\<lambda>(reply, i). length reply - i)") auto

declare reflexive_loop.simps [simp del]

definition parse_reflexive :: "bytes \<Rightarrow> addr option" where
  "parse_reflexive reply = reflexive_loop reply 16"

function candidates_loop :: "bytes \<Rightarrow> nat \<Rightarrow> nat \<Rightarrow> addr list \<Rightarrow> addr list" where
  "candidates_loop reply i max_out out =
     (if i + 8 \<le> length reply \<and> length out < max_out
      then let p = drop i reply; a = read_addr p
           in candidates_loop reply (i + 16) max_out
                (if p ! 1 \<noteq> 0x00 \<or> (p ! 0 \<noteq> 0x00 \<and> p ! 0 \<noteq> 0x02) then out
                 else if fst a \<noteq> 0 \<and> snd a \<noteq> 0 \<and> a \<notin> set out then out @ [a] else out)
      else out)"
  by pat_completeness auto
termination
  by (relation "measure (\<lambda>(reply, i, max_out, out). length reply - i)") auto

declare candidates_loop.simps [simp del]

definition parse_candidates :: "bytes \<Rightarrow> nat \<Rightarrow> addr list" where
  "parse_candidates reply max_out = candidates_loop reply 36 max_out []"

section \<open>Packets\<close>

definition write_rdv_hdr :: "u32 \<Rightarrow> byte \<Rightarrow> byte \<Rightarrow> byte \<Rightarrow> bytes" where
  "write_rdv_hdr body_len t0 t1 t2 = [0x04, 0x02, 0x1c, 0x02] @ le32 body_len @ [t0, t1, t2, 0, 0, 0, 0, 0]"

definition send_control :: "addr \<Rightarrow> bytes \<Rightarrow> udp \<Rightarrow> bool \<times> udp" where
  "send_control dst pkt u = sendto dst (trans_code_partial pkt) u"

definition send_relay_join :: "addr \<Rightarrow> string \<Rightarrow> string \<Rightarrow> udp \<Rightarrow> bool \<times> udp" where
  "send_relay_join dst uid relay_id u =
     send_control dst
       ([0x04, 0x02, 0x1c, 0x02, 0x26, 0, 0, 0, 0x07, 0x10, 0x18, 0, 0, 0, 0, 0]
        @ c_field 20 uid @ c_field 16 relay_id @ [0x06, 0x00]) u"

definition kInitKnockFlags :: bytes where
  "kInitKnockFlags =
    [0x01, 0x00, 0x00, 0x00, 0x00, 0x00, 0x00, 0x00,
     0x00, 0x00, 0x64, 0x64, 0x35, 0x35, 0x36, 0x63,
     0x63, 0x04, 0x13, 0x13, 0x66, 0x0c, 0x0c, 0x05]"

definition kDirKnockFlags :: bytes where
  "kDirKnockFlags =
    [0x02, 0x00, 0x00, 0x00, 0x00, 0x00, 0x00, 0x00,
     0x00, 0x00, 0x00, 0x00, 0x00, 0x00, 0x00, 0x00,
     0x63, 0x04, 0x13, 0x13, 0x04, 0x0c, 0x0c, 0x63]"

definition send_relay_knock :: "addr \<Rightarrow> string \<Rightarrow> bytes \<Rightarrow> bool \<Rightarrow> udp \<Rightarrow> bool \<times> udp" where
  "send_relay_knock dst uid token directed u =
     send_control dst
       ([0x04, 0x02, 0x1c, 0x02, 0x48, 0, 0, 0, 0x01, 0x06, 0x21, 0, 0, 0, 0, 0]
        @ c_field 20 uid @ replicate 16 0 @ le32 0x04030304 @ token
        @ (if \<not> directed then kInitKnockFlags else kDirKnockFlags)) u"

definition send_rdv_authkey :: "addr \<Rightarrow> string \<Rightarrow> string \<Rightarrow> udp \<Rightarrow> bool \<times> udp" where
  "send_rdv_authkey dst uid authkey u =
     send_control dst (write_rdv_hdr 32 0x14 0x02 0x24 @ c_field 20 uid @ replicate 4 0 @ c_field 8 authkey) u"

definition send_rdv_token :: "addr \<Rightarrow> string \<Rightarrow> bytes \<Rightarrow> string \<Rightarrow> udp \<Rightarrow> bool \<times> udp" where
  "send_rdv_token dst uid token authkey u =
     send_control dst
       (write_rdv_hdr 48 0x0a 0x02 0x24 @ c_field 20 uid @ token @ [0x3c] @ replicate 11 0 @ c_field 8 authkey) u"

definition send_rdv_punch :: "addr \<Rightarrow> string \<Rightarrow> bytes \<Rightarrow> addr \<Rightarrow> addr \<Rightarrow> udp \<Rightarrow> bool \<times> udp" where
  "send_rdv_punch server uid token local_ep reflexive u =
     send_control server
       (write_rdv_hdr 528 0x04 0x08 0x24 @ c_field 20 uid @ replicate 16 0
        @ [0x00, 0x02, 0xff, 0x04, 0xa6, 0xff, 0xff, 0xff, 0x00, 0x00, 0x00, 0x00, 0x04, 0x03, 0x03, 0x04]
        @ token @ [0x00, 0x00] @ addr_bytes local_ep @ replicate 56 0
        @ [0x02, 0x00] @ addr_bytes reflexive @ replicate 392 0 @ [0x42, 0x02, 0x00, 0x00]) u"

definition send_stun_probe :: "addr \<Rightarrow> bytes \<Rightarrow> udp \<Rightarrow> bool \<times> udp" where
  "send_stun_probe dst txn u = send_control dst (write_rdv_hdr 8 0x03 0x80 0x3f @ txn) u"

definition send_rdv_random :: "addr \<Rightarrow> string \<Rightarrow> addr \<Rightarrow> bytes \<Rightarrow> string \<Rightarrow> udp \<Rightarrow> bool \<times> udp" where
  "send_rdv_random dst uid local_ep token authkey u =
     send_control dst
       (write_rdv_hdr 272 0x03 0x02 0x34 @ c_field 20 uid @ [0x00, 0x00] @ addr_bytes local_ep @ replicate 56 0
        @ token @ [0x02] @ replicate 163 0 @ c_field 16 (take 8 authkey)) u"

definition send_punch_to_candidate :: "addr \<Rightarrow> string \<Rightarrow> bytes \<Rightarrow> u32 \<Rightarrow> udp \<Rightarrow> bool \<times> udp" where
  "send_punch_to_candidate cand uid token r u =
     send_control cand (write_rdv_hdr 36 0x01 0x04 0x33 @ c_field 20 uid @ token @ replicate 4 0 @ le32 r) u"

definition send_rdv_punch2 :: "addr \<Rightarrow> string \<Rightarrow> bytes \<Rightarrow> udp \<Rightarrow> bool \<times> udp" where
  "send_rdv_punch2 dst uid token u =
     send_control dst
       (write_rdv_hdr 44 0x09 0x02 0x24 @ c_field 20 uid @ token @ [0x01, 0, 0, 0]
        @ [0x04, 0x03, 0x03, 0x04, 0x1c, 0x00, 0x00, 0x00, 0x02, 0x00, 0x00, 0x00]) u"

definition send_rdv_ack :: "addr \<Rightarrow> string \<Rightarrow> bytes \<Rightarrow> u32 \<Rightarrow> udp \<Rightarrow> bool \<times> udp" where
  "send_rdv_ack dst uid token tag u =
     send_control dst (put_at 12 (le32 tag) (write_rdv_hdr 28 0x0c 0x03 0x24) @ c_field 20 uid @ token) u"

section \<open>The off-LAN rendezvous\<close>

text \<open>What stays fixed during the exchange.\<close>

record rdv_env =
  e_uid :: string
  e_authkey :: string
  e_token :: bytes
  e_servers :: "addr list"
  e_local :: addr
  e_txn :: bytes
  e_seed :: u64

record rdv =
  v_candidates :: "addr list"
  v_reflexive :: addr
  v_last_probe :: int
  v_last_challenge :: int
  v_last_session :: int
  v_last_punch :: int
  v_rng :: u64

fun for_each :: "('a \<Rightarrow> udp \<Rightarrow> bool \<times> udp) \<Rightarrow> 'a list \<Rightarrow> udp \<Rightarrow> udp" where
  "for_each f [] u = u"
| "for_each f (x # xs) u = for_each f xs (snd (f x u))"

definition broadcast_probe :: "rdv_env \<Rightarrow> udp \<Rightarrow> udp" where
  "broadcast_probe e u =
     for_each (\<lambda>s u. send_rdv_authkey s (e_uid e) (e_authkey e) (snd (send_stun_probe s (e_txn e) u))) (e_servers e) u"

definition broadcast_punch2 :: "rdv_env \<Rightarrow> udp \<Rightarrow> udp" where
  "broadcast_punch2 e u =
     for_each (\<lambda>s u. send_rdv_authkey s (e_uid e) (e_authkey e) (snd (send_rdv_punch2 s (e_uid e) (e_token e) u))) (e_servers e) u"

definition broadcast_register :: "rdv_env \<Rightarrow> addr \<Rightarrow> udp \<Rightarrow> udp" where
  "broadcast_register e reflexive u =
     for_each (\<lambda>s u. send_rdv_authkey s (e_uid e) (e_authkey e) (snd (send_stun_probe s (e_txn e)
       (snd (send_rdv_punch s (e_uid e) (e_token e) (e_local e) reflexive u))))) (e_servers e) u"

definition broadcast_session :: "rdv_env \<Rightarrow> udp \<Rightarrow> udp" where
  "broadcast_session e u =
     for_each (\<lambda>s u. send_rdv_token s (e_uid e) (e_token e) (e_authkey e)
       (snd (send_rdv_random s (e_uid e) (e_local e) (e_token e) (e_authkey e) u))) (e_servers e) u"

fun punch_all :: "rdv_env \<Rightarrow> addr list \<Rightarrow> u64 \<Rightarrow> udp \<Rightarrow> u64 \<times> udp" where
  "punch_all e [] rng u = (rng, u)"
| "punch_all e (a # as) rng u =
     (let (r, rng') = rand32 (e_seed e) rng
      in punch_all e as rng' (snd (send_punch_to_candidate a (e_uid e) (e_token e) r u)))"

definition rdv_periodic :: "rdv_env \<Rightarrow> int \<Rightarrow> rdv \<Rightarrow> udp \<Rightarrow> rdv \<times> udp" where
  "rdv_periodic e now v u =
     (if v_candidates v \<noteq> []
      then if 250000000 \<le> now - v_last_punch v
           then let (rng, u1) = punch_all e (v_candidates v) (v_rng v) u
                in (v\<lparr>v_last_punch := now, v_rng := rng\<rparr>, broadcast_punch2 e u1)
           else (v, u)
      else if 2000000000 \<le> now - v_last_probe v
      then (v\<lparr>v_last_probe := now\<rparr>, broadcast_probe e u)
      else (v, u))"

text \<open>The printer's or relay's address, the relay tag, and whether a punch exchange was completed.\<close>

type_synonym rdv_result = "addr \<times> u32 \<times> bool"

datatype rdv_next = Rdv_wait rdv udp | Rdv_found rdv_result rdv udp

fun drain :: "udp_event list \<Rightarrow> udp_event list" where
  "drain [] = []"
| "drain (Dgram a d # es) = (if d \<noteq> [] then drain es else es)"
| "drain (e # es) = es"

text \<open>\<open>stale\<close> is what the receive buffer of the pass held before; it is not initialised.\<close>

definition rdv_reply :: "rdv_env \<Rightarrow> int \<Rightarrow> bytes \<Rightarrow> addr \<Rightarrow> bytes \<Rightarrow> rdv \<Rightarrow> udp \<Rightarrow> rdv_next" where
  "rdv_reply e now stale src resp v u =
     (let n = length resp; t0 = resp ! 8; t1 = resp ! 9; t2 = resp ! 10
      in if t0 = 0x04 \<and> t1 = 0x80 then
           (case read_addr_rec (drop 16 (resp @ drop n stale)) of
              Some mine \<Rightarrow> Rdv_wait (if snd mine \<noteq> 3478 then v\<lparr>v_reflexive := mine\<rparr> else v) u
            | None \<Rightarrow> Rdv_wait v u)
         else if t0 = 0x02 \<and> t1 = 0x06 \<and> t2 = 0x12 then Rdv_found (src, 0, False) v u
         else if t1 = 0x04 \<and> t2 = 0x33 \<and> 44 \<le> n \<and> take 20 (drop 16 resp) = c_field 20 (e_uid e) \<and>
                 take 8 (drop 36 resp) = e_token e then
           (if t0 = 0x01 then Rdv_wait v (snd (send_ctrl0x33 src (e_uid e) (e_token e) 0x02 u))
            else if t0 \<noteq> 0x02 \<and> t0 \<noteq> 0x04 then Rdv_wait v u
            else Rdv_found (src, 0, True) v
                   (if t0 = 0x02
                    then snd (send_ctrl0x33 src (e_uid e) (e_token e) 0x04 (snd (send_ctrl0x33 src (e_uid e) (e_token e) 0x04 u)))
                    else u))
         else if t0 = 0x27 \<and> t1 = 0x02 \<and> t2 = 0x42 then
           (if 150000000 \<le> now - v_last_challenge v
            then Rdv_wait (v\<lparr>v_last_challenge := now\<rparr>) (broadcast_register e (v_reflexive v) u) else Rdv_wait v u)
         else if t0 = 0x15 \<and> t1 = 0x02 \<and> t2 = 0x42 then
           (if 150000000 \<le> now - v_last_session v
            then Rdv_wait (v\<lparr>v_last_session := now\<rparr>) (broadcast_session e u) else Rdv_wait v u)
         else if t0 = 0x01 \<and> t1 = 0x03 \<and> t2 = 0x43 then
           (let cs = parse_candidates resp 4;
                (rng, u1) = punch_all e (cs @ cs @ cs) (v_rng v) u
            in Rdv_wait (v\<lparr>v_candidates := cs, v_rng := rng\<rparr>) (broadcast_punch2 e u1))
         else if t0 = 0x03 \<and> t1 = 0x03 \<and> t2 = 0x43 then
           (let tag = (if 40 \<le> n then get_le32 (drop 36 resp) else 0);
                u1 = snd (send_rdv_ack src (e_uid e) (e_token e) tag (snd (send_rdv_ack src (e_uid e) (e_token e) tag u)))
            in Rdv_found (src, tag, False) v (u1\<lparr>u_in := drain (u_in u1)\<rparr>))
         else Rdv_wait v u)"

text \<open>One \<open>recvfrom\<close>.\<close>

definition next_event :: "udp \<Rightarrow> udp_event \<times> udp" where
  "next_event u = (case u_in u of [] \<Rightarrow> (NoData, u) | e # es \<Rightarrow> (e, u\<lparr>u_in := es\<rparr>))"

definition rdv_pass :: "rdv_env \<Rightarrow> int \<Rightarrow> bytes \<Rightarrow> rdv \<Rightarrow> udp \<Rightarrow> rdv_next" where
  "rdv_pass e now stale v0 u0 =
     (let (v, u1) = rdv_periodic e now v0 u0; (ev, u) = next_event u1
      in case ev of
           Dgram src d \<Rightarrow>
             let resp = reverse_trans_code_partial (take 1024 d)
             in if length resp < 16 \<or> resp ! 0 \<noteq> 0x04 \<or> resp ! 1 \<noteq> 0x02 then Rdv_wait v u
                else rdv_reply e now stale src resp v u
         | _ \<Rightarrow> Rdv_wait v u)"

text \<open>
  The passes before the deadline of 15 s: whether the cancel function returned true, the
  clock reading, and the old contents of the buffer. When the list ends the deadline has passed.
\<close>

fun rdv_loop :: "rdv_env \<Rightarrow> (bool \<times> int \<times> bytes) list \<Rightarrow> rdv \<Rightarrow> udp \<Rightarrow> rdv_result option \<times> rdv \<times> udp" where
  "rdv_loop e [] v u = (None, v, u)"
| "rdv_loop e ((cancelled, now, stale) # ts) v u =
     (if cancelled then (None, v, u)
      else case rdv_pass e now stale v u of
             Rdv_wait v' u' \<Rightarrow> rdv_loop e ts v' u'
           | Rdv_found r v' u' \<Rightarrow> (Some r, v', u'))"

definition offlan_rendezvous ::
  "u64 \<Rightarrow> addr \<Rightarrow> int \<Rightarrow> (bool \<times> int \<times> bytes) list \<Rightarrow> bytes \<Rightarrow> string \<Rightarrow> string \<Rightarrow> bytes \<Rightarrow> u64 \<Rightarrow> udp
   \<Rightarrow> rdv_result option \<times> u64 \<times> udp" where
  "offlan_rendezvous seed local_ep start ticks master_reply uid authkey token rng0 u0 =
     (if authkey = [] then (None, rng0, u0)
      else let servers = parse_rdv_servers master_reply 4
           in if servers = [] then (None, rng0, u0)
              else let reflexive = (case parse_reflexive master_reply of Some a \<Rightarrow> a | None \<Rightarrow> hd servers);
                       (a, rng1) = rand32 seed rng0; (b, rng2) = rand32 seed rng1;
                       e = \<lparr>e_uid = uid, e_authkey = authkey, e_token = token, e_servers = servers, e_local = local_ep,
                            e_txn = le32 a @ le32 b, e_seed = seed\<rparr>;
                       v = \<lparr>v_candidates = [], v_reflexive = reflexive, v_last_probe = start,
                            v_last_challenge = start - 1000000000, v_last_session = start - 1000000000,
                            v_last_punch = start - 1000000000, v_rng = rng2\<rparr>;
                       (r, v', u) = rdv_loop e ticks v (broadcast_probe e u0)
                   in (r, v_rng v', u))"

section \<open>The connection\<close>

record iotc_conn =
  ic_open :: bool
  ic_peer :: addr
  ic_token :: bytes
  ic_dtls :: dtls_session
  ic_relay_tag :: u32
  ic_is_relay :: bool
  ic_uid :: string
  ic_cookie :: bytes
  ic_have_cookie :: bool
  ic_is_lan :: bool
  ic_last_alive :: int

text \<open>Zeroed, with no socket.\<close>

definition closed_conn :: iotc_conn where
  "closed_conn = \<lparr>ic_open = False, ic_peer = (0, 0), ic_token = replicate 8 0, ic_dtls = zero_session, ic_relay_tag = 0,
     ic_is_relay = False, ic_uid = [], ic_cookie = replicate 8 0, ic_have_cookie = False, ic_is_lan = False, ic_last_alive = 0\<rparr>"

section \<open>Relay connection\<close>

definition candidate_hosts :: "string \<Rightarrow> string list" where
  "candidate_hosts region =
     (if region \<noteq> [] then [region @ ''-m1.iotcplatform.com'', region @ ''-m2.iotcplatform.com''] else [])
     @ [''m1.iotcplatform.com'', ''m2.iotcplatform.com'', ''m3.iotcplatform.com'']"

text \<open>\<open>resolve\<close> is \<open>getaddrinfo\<close> for port 10240, the IPv4 results.\<close>

fun collect_masters :: "(string \<Rightarrow> addr list) \<Rightarrow> string list \<Rightarrow> addr list \<Rightarrow> addr list" where
  "collect_masters resolve [] masters = masters"
| "collect_masters resolve (h # hs) masters =
     (if 4 \<le> length masters then masters
      else collect_masters resolve hs (take 4 (masters @ resolve h)))"

fun join_masters :: "string \<Rightarrow> string \<Rightarrow> addr list \<Rightarrow> nat \<Rightarrow> udp \<Rightarrow> nat \<times> udp" where
  "join_masters uid relay_id [] njoined u = (njoined, u)"
| "join_masters uid relay_id (m # ms) njoined u =
     (let (ok, u1) = send_relay_join m uid relay_id u
      in join_masters uid relay_id ms (if ok then njoined + 1 else njoined) u1)"

text \<open>\<open>recv_cancellable\<close>: its deadline or a cancel ends the wait.\<close>

fun recv_wait :: "udp_event list \<Rightarrow> (addr \<times> bytes) option \<times> udp_event list" where
  "recv_wait [] = (None, [])"
| "recv_wait (Dgram src d # es) = (Some (src, d), es)"
| "recv_wait (Deadline # es) = (None, es)"
| "recv_wait (NoData # es) = recv_wait es"
| "recv_wait (RecvError # es) = recv_wait es"

text \<open>
  The three waits for the printer's rendezvous: the results of the polls of the cancel function
  before each, the peer if it was found, and the last reply of a master.
\<close>

fun await_assignment :: "bool list \<Rightarrow> bytes \<Rightarrow> udp \<Rightarrow> addr option \<times> bytes \<times> udp" where
  "await_assignment [] reply u = (None, reply, u)"
| "await_assignment (cancelled # cs) reply u =
     (if cancelled then (None, reply, u)
      else let (r, es) = recv_wait (u_in u); u1 = u\<lparr>u_in := es\<rparr>
           in case r of
                None \<Rightarrow> await_assignment cs reply u1
              | Some (src, d) \<Rightarrow>
                  let resp = reverse_trans_code_partial (take 256 d)
                  in if length resp < 16 \<or> resp ! 0 \<noteq> 0x04 \<or> resp ! 1 \<noteq> 0x02 then await_assignment cs reply u1
                     else if resp ! 8 = 0x08 \<and> resp ! 9 = 0x10 \<and> resp ! 10 = 0x83 then await_assignment cs resp u1
                     else if resp ! 8 \<noteq> 0x02 \<or> resp ! 9 \<noteq> 0x06 \<or> resp ! 10 \<noteq> 0x12 then await_assignment cs reply u1
                     else (Some src, reply, u1))"

record relay_script =
  rs_resolve :: "string \<Rightarrow> addr list"
  rs_sock_ok :: bool
  rs_seed :: u64
  rs_cancel :: "nat \<Rightarrow> bool"
  rs_local :: addr
  rs_start :: int
  rs_ticks :: "(bool \<times> int \<times> bytes) list"

definition relay_conn :: "string \<Rightarrow> bytes \<Rightarrow> addr \<Rightarrow> u32 \<Rightarrow> iotc_conn" where
  "relay_conn uid token peer tag =
     closed_conn\<lparr>ic_open := True, ic_peer := peer, ic_token := token, ic_relay_tag := tag,
       ic_is_relay := snd peer = 3478, ic_uid := take 31 uid, ic_dtls := zero_session\<lparr>ds_relay_tag := tag\<rparr>\<rparr>"

definition iotc_relay_connect ::
  "relay_script \<Rightarrow> string \<Rightarrow> string \<Rightarrow> string \<Rightarrow> string \<Rightarrow> u64 \<Rightarrow> udp \<Rightarrow> iotc_conn option \<times> u64 \<times> udp" where
  "iotc_relay_connect s uid relay_id region authkey rng0 u0 =
     (if length uid \<noteq> kUidLen then (None, rng0, u0)
      else let masters = collect_masters (rs_resolve s) (candidate_hosts region) []
           in if masters = [] \<or> \<not> rs_sock_ok s then (None, rng0, u0)
              else let (a, rng1) = rand32 (rs_seed s) rng0; (b, rng2) = rand32 (rs_seed s) rng1;
                       token = le32 a @ le32 b;
                       (njoined, u1) = join_masters uid relay_id masters 0 u0
                   in if njoined = 0 then (None, rng2, u1)
                      else let (direct, reply, u2) = await_assignment [rs_cancel s 0, rs_cancel s 1, rs_cancel s 2] [] u1;
                               (found, rng3, u3) =
                                 (case direct of
                                    Some peer \<Rightarrow> (Some (peer, 0, False), rng2, u2)
                                  | None \<Rightarrow>
                                      if reply \<noteq> [] \<and> \<not> rs_cancel s 3
                                      then offlan_rendezvous (rs_seed s) (rs_local s) (rs_start s) (rs_ticks s) reply uid authkey token rng2 u2
                                      else (None, rng2, u2))
                           in case found of
                                None \<Rightarrow> (None, rng3, u3)
                              | Some (peer, tag, punched) \<Rightarrow>
                                  let (ok, u4) = (if \<not> punched \<and> snd peer \<noteq> 3478
                                                  then send_relay_knock peer uid token True u3 else (True, u3))
                                  in if \<not> ok then (None, rng3, u4)
                                     else (Some (relay_conn uid token peer tag), rng3, u4))"

section \<open>LAN connection\<close>

definition kLanSearchPort :: u16 where "kLanSearchPort = 32761"

definition build_lan_search :: "string \<Rightarrow> bytes \<Rightarrow> string \<Rightarrow> bytes" where
  "build_lan_search uid token authkey =
     trans_code_partial
       (write_rdv_hdr (88 - 16) 0x01 0x06 0x21 @ c_field 20 uid @ replicate 16 0 @ [0x04, 0x03, 0x03, 0x04] @ token
        @ [0x01] @ replicate 9 0 @ c_field 14 (take 8 authkey))"

text \<open>The broadcast addresses of the interfaces, then the limited broadcast, each once.\<close>

fun add_target :: "u32 list \<Rightarrow> u32 list \<Rightarrow> u32 list" where
  "add_target [] out = out"
| "add_target (b # bs) out = add_target bs (if b \<in> set out then out else out @ [b])"

definition lan_broadcast_targets :: "u32 list \<Rightarrow> addr list" where
  "lan_broadcast_targets ifs = map (\<lambda>b. (b, kLanSearchPort)) (add_target (ifs @ [0xffffffff]) [])"

definition lan_answer :: "string \<Rightarrow> bytes \<Rightarrow> bytes \<Rightarrow> bool" where
  "lan_answer uid token d \<longleftrightarrow>
     200 \<le> length (take 512 d) \<and>
     (let resp = reverse_trans_code_partial (take 512 d)
      in resp ! 0 = 0x04 \<and> resp ! 1 = 0x02 \<and> resp ! 8 = 0x02 \<and> resp ! 9 = 0x06 \<and> resp ! 10 = 0x12 \<and>
         take 20 (drop 16 resp) = c_field 20 uid \<and> take 8 (drop 188 resp) = token)"

text \<open>The passes before the deadline: a poll of the cancel function and a clock reading each.\<close>

fun lan_loop :: "string \<Rightarrow> bytes \<Rightarrow> bytes \<Rightarrow> addr list \<Rightarrow> (bool \<times> int) list \<Rightarrow> int \<Rightarrow> udp \<Rightarrow> addr option \<times> udp" where
  "lan_loop uid token search targets [] next_send u = (None, u)"
| "lan_loop uid token search targets ((cancelled, now) # ts) next_send u =
     (if cancelled then (None, u)
      else let u1 = (if next_send \<le> now then for_each (\<lambda>t. sendto t search) targets u else u);
               next = (if next_send \<le> now then next_send + 250000000 else next_send);
               (ev, u2) = next_event u1
           in case ev of
                Dgram src d \<Rightarrow> if lan_answer uid token d then (Some src, u2) else lan_loop uid token search targets ts next u2
              | _ \<Rightarrow> lan_loop uid token search targets ts next u2)"

definition iotc_lan_connect ::
  "bool \<Rightarrow> u32 list \<Rightarrow> bytes \<Rightarrow> int \<Rightarrow> (bool \<times> int) list \<Rightarrow> string \<Rightarrow> string \<Rightarrow> udp \<Rightarrow> iotc_conn option \<times> udp" where
  "iotc_lan_connect sock_ok ifs token start ticks uid authkey u0 =
     (if length uid \<noteq> kUidLen \<or> \<not> sock_ok then (None, u0)
      else let search = build_lan_search uid token authkey;
               (found, u1) = lan_loop uid token search (lan_broadcast_targets ifs) ticks start u0
           in case found of
                None \<Rightarrow> (None, u1)
              | Some peer \<Rightarrow>
                  (Some (closed_conn\<lparr>ic_open := True, ic_peer := peer, ic_token := token, ic_is_lan := True, ic_uid := uid\<rparr>),
                   snd (sendto peer search u1)))"

section \<open>Lemmas: sending leaves what is received alone\<close>

lemma send_control_in [simp]: "u_in (snd (send_control dst pkt u)) = u_in u"
  by (simp add: send_control_def)

lemmas rdv_sends = send_relay_join_def send_relay_knock_def send_rdv_authkey_def send_rdv_token_def send_rdv_punch_def
  send_stun_probe_def send_rdv_random_def send_punch_to_candidate_def send_rdv_punch2_def send_rdv_ack_def

lemma for_each_in: "(\<And>x u. u_in (snd (f x u)) = u_in u) \<Longrightarrow> u_in (for_each f xs u) = u_in u"
  by (induction xs arbitrary: u) simp_all

lemma broadcast_in [simp]:
  "u_in (broadcast_probe e u) = u_in u" "u_in (broadcast_punch2 e u) = u_in u"
  "u_in (broadcast_register e a u) = u_in u" "u_in (broadcast_session e u) = u_in u"
  unfolding broadcast_probe_def broadcast_punch2_def broadcast_register_def broadcast_session_def
  by (intro for_each_in, simp add: rdv_sends)+

lemma punch_all_in [simp]: "u_in (snd (punch_all e as rng u)) = u_in u"
  by (induction e as rng u rule: punch_all.induct) (simp_all add: rdv_sends split: prod.splits)

lemma punch_all_result: "punch_all e as rng u = (rng', u') \<Longrightarrow> u_in u' = u_in u"
  using punch_all_in [of e as rng u] by simp

lemma rdv_periodic_in: "rdv_periodic e now v u = (v', u') \<Longrightarrow> u_in u' = u_in u"
  by (auto simp: rdv_periodic_def Let_def split: prod.splits if_splits dest: punch_all_result)

section \<open>Lemmas: where the peer comes from\<close>

text \<open>What a datagram, read into a buffer of \<open>buf\<close> bytes, must say for the rendezvous to end with it.\<close>

definition rdv_evidence :: "nat \<Rightarrow> string \<Rightarrow> bytes \<Rightarrow> bytes \<Rightarrow> u32 \<Rightarrow> bool \<Rightarrow> bool" where
  "rdv_evidence buf uid token d tag direct \<longleftrightarrow>
     (let resp = reverse_trans_code_partial (take buf d); ty = take 3 (drop 8 resp)
      in 16 \<le> length resp \<and> resp ! 0 = 0x04 \<and> resp ! 1 = 0x02 \<and>
         (if direct
          then tag = 0 \<and> ty \<in> {[0x02, 0x04, 0x33], [0x04, 0x04, 0x33]} \<and> 44 \<le> length resp \<and>
               take 20 (drop 16 resp) = c_field 20 uid \<and> take 8 (drop 36 resp) = token
          else ty = [0x02, 0x06, 0x12] \<and> tag = 0 \<or>
               ty = [0x03, 0x03, 0x43] \<and> tag = (if 40 \<le> length resp then get_le32 (drop 36 resp) else 0)))"

lemma take3_at: "11 \<le> length p \<Longrightarrow> take 3 (drop 8 p) = [p ! 8, p ! 9, p ! 10]"
  by (auto intro!: nth_equalityI simp: nth_Cons' less_Suc_eq numeral_3_eq_3)

lemma rdv_reply_found:
  assumes "rdv_reply e now stale src (reverse_trans_code_partial (take 1024 d)) v u = Rdv_found (peer, tag, direct) v' u'"
    "16 \<le> length (reverse_trans_code_partial (take 1024 d))"
    "reverse_trans_code_partial (take 1024 d) ! 0 = 0x04" "reverse_trans_code_partial (take 1024 d) ! 1 = 0x02"
  shows "peer = src \<and> rdv_evidence 1024 (e_uid e) (e_token e) d tag direct"
proof -
  define resp where "resp = reverse_trans_code_partial (take 1024 d)"
  have ty: "take 3 (drop 8 resp) = [resp ! 8, resp ! 9, resp ! 10]" using assms(2) by (intro take3_at) (simp add: resp_def)
  show ?thesis
    using assms unfolding rdv_evidence_def rdv_reply_def Let_def resp_def [symmetric] ty
    by (auto split: if_splits option.splits prod.splits)
qed

lemma rdv_reply_wait_in: "rdv_reply e now stale src resp v u = Rdv_wait v' u' \<Longrightarrow> u_in u' = u_in u"
  by (auto dest: punch_all_result simp: rdv_reply_def Let_def split: if_splits option.splits prod.splits)

lemma next_event_cases:
  obtains "u_in u = []" "next_event u = (NoData, u)" | ev es where "u_in u = ev # es" "next_event u = (ev, u\<lparr>u_in := es\<rparr>)"
  by (cases "u_in u") (simp_all add: next_event_def)

lemma rdv_pass_source:
  assumes "rdv_pass e now stale v u = r"
  shows "(case r of
      Rdv_wait v' u' \<Rightarrow> set (u_in u') \<subseteq> set (u_in u)
    | Rdv_found (peer, tag, direct) v' u' \<Rightarrow> \<exists>d. Dgram peer d \<in> set (u_in u) \<and> rdv_evidence 1024 (e_uid e) (e_token e) d tag direct)"
proof -
  obtain v1 u1 where p: "rdv_periodic e now v u = (v1, u1)" by fastforce
  note u1 = rdv_periodic_in [OF p]
  show ?thesis
  proof (cases rule: next_event_cases [of u1])
    case 1
    then show ?thesis using assms p u1 by (auto simp: rdv_pass_def)
  next
    case (2 ev es)
    show ?thesis
    proof (cases "\<exists>src d. ev = Dgram src d \<and> 16 \<le> length (reverse_trans_code_partial (take 1024 d)) \<and>
        reverse_trans_code_partial (take 1024 d) ! 0 = 0x04 \<and> reverse_trans_code_partial (take 1024 d) ! 1 = 0x02")
      case True
      then obtain src d where d: "ev = Dgram src d" "16 \<le> length (reverse_trans_code_partial (take 1024 d))"
          "reverse_trans_code_partial (take 1024 d) ! 0 = 0x04" "reverse_trans_code_partial (take 1024 d) ! 1 = 0x02" by blast
      have r: "r = rdv_reply e now stale src (reverse_trans_code_partial (take 1024 d)) v1 (u1\<lparr>u_in := es\<rparr>)"
        using assms p 2 d unfolding rdv_pass_def by (simp add: Let_def not_less [symmetric])
      have m: "Dgram src d \<in> set (u_in u)" "set es \<subseteq> set (u_in u)" using 2 u1 d(1) by auto
      show ?thesis
      proof (cases r)
        case (Rdv_wait v' u')
        then show ?thesis using rdv_reply_wait_in [of e now stale src _ v1 "u1\<lparr>u_in := es\<rparr>" v' u'] r m by simp
      next
        case (Rdv_found x v' u')
        obtain peer tag direct where x: "x = (peer, tag, direct)" by (cases x)
        show ?thesis using rdv_reply_found [OF r [symmetric, unfolded Rdv_found x] d(2-4)] m(1) Rdv_found x by auto
      qed
    next
      case False
      then have "r = Rdv_wait v1 (u1\<lparr>u_in := es\<rparr>)"
        using assms p 2 unfolding rdv_pass_def Let_def by (cases ev) (auto simp: not_le)
      then show ?thesis using 2 u1 by auto
    qed
  qed
qed

lemma rdv_loop_source:
  "rdv_loop e ts v u = (Some (peer, tag, direct), v', u') \<Longrightarrow>
   \<exists>d. Dgram peer d \<in> set (u_in u) \<and> rdv_evidence 1024 (e_uid e) (e_token e) d tag direct"
proof (induction ts arbitrary: v u)
  case (Cons t ts)
  obtain c now stale where t: "t = (c, now, stale)" by (cases t)
  have nc: "\<not> c" using Cons.prems t by auto
  show ?case
  proof (cases "rdv_pass e now stale v u")
    case (Rdv_wait v1 u1)
    then have "\<exists>d. Dgram peer d \<in> set (u_in u1) \<and> rdv_evidence 1024 (e_uid e) (e_token e) d tag direct"
      using Cons.prems Cons.IH t nc by simp
    then show ?thesis using rdv_pass_source [OF Rdv_wait] by auto
  next
    case (Rdv_found x v1 u1)
    then show ?thesis using rdv_pass_source [OF Rdv_found] Cons.prems t nc by auto
  qed
qed simp

lemma offlan_source:
  assumes "offlan_rendezvous seed local_ep start ts reply uid authkey token rng u = (Some (peer, tag, direct), rng', u')"
  shows "\<exists>d. Dgram peer d \<in> set (u_in u) \<and> rdv_evidence 1024 uid token d tag direct"
  using assms unfolding offlan_rendezvous_def Let_def
  by (auto split: if_splits prod.splits dest!: rdv_loop_source)

lemma join_masters_in: "join_masters uid rid xs n u = (k, u') \<Longrightarrow> u_in u' = u_in u"
proof (induction xs arbitrary: n u)
  case (Cons m xs)
  obtain ok u1 where s: "send_relay_join m uid rid u = (ok, u1)" by (cases "send_relay_join m uid rid u")
  have "u_in u1 = u_in u" using send_control_in s unfolding send_relay_join_def by (metis snd_conv)
  then show ?case using Cons s by simp
qed simp

lemma recv_wait_source:
  "recv_wait es = (r, es') \<Longrightarrow> set es' \<subseteq> set es \<and> (\<forall>src d. r = Some (src, d) \<longrightarrow> Dgram src d \<in> set es)"
  by (induction es rule: recv_wait.induct) auto

lemma await_source:
  "await_assignment cs reply u = (r, reply', u') \<Longrightarrow> set (u_in u') \<subseteq> set (u_in u) \<and>
   (\<forall>peer. r = Some peer \<longrightarrow> (\<exists>d. Dgram peer d \<in> set (u_in u) \<and> rdv_evidence 256 uid token d 0 False))"
proof (induction cs arbitrary: reply u)
  case (Cons c cs)
  obtain w es where w: "recv_wait (u_in u) = (w, es)" by (cases "recv_wait (u_in u)")
  note ws = recv_wait_source [OF w]
  have again: ?case if "await_assignment cs reply1 (u\<lparr>u_in := es\<rparr>) = (r, reply', u')" for reply1
    using Cons.IH [OF that] ws by (simp, blast)
  show ?case
  proof (cases "c \<or> w = None")
    case True
    then show ?thesis using Cons.prems w again by (auto split: if_splits)
  next
    case False
    then obtain src d where d: "w = Some (src, d)" by auto
    define resp where "resp = reverse_trans_code_partial (take 256 d)"
    have "(\<exists>reply1. await_assignment cs reply1 (u\<lparr>u_in := es\<rparr>) = (r, reply', u')) \<or>
        16 \<le> length resp \<and> resp ! 0 = 0x04 \<and> resp ! 1 = 0x02 \<and> resp ! 8 = 0x02 \<and> resp ! 9 = 0x06 \<and> resp ! 10 = 0x12 \<and>
        r = Some src \<and> u' = u\<lparr>u_in := es\<rparr>"
      using Cons.prems False w d unfolding await_assignment.simps Let_def w prod.case d option.case resp_def [symmetric]
      by (simp split: if_splits) blast+
    then show ?thesis
    proof
      assume x: "16 \<le> length resp \<and> resp ! 0 = 0x04 \<and> resp ! 1 = 0x02 \<and> resp ! 8 = 0x02 \<and> resp ! 9 = 0x06 \<and> resp ! 10 = 0x12 \<and>
        r = Some src \<and> u' = u\<lparr>u_in := es\<rparr>"
      then have "rdv_evidence 256 uid token d 0 False"
        using take3_at [of resp] unfolding rdv_evidence_def Let_def resp_def [symmetric] by simp
      then show ?thesis using x ws d by auto
    qed (use again in blast)
  qed
qed simp

text \<open>
  What the LAN search has to accept and to send, in terms of the bytes before scrambling: an answer
  is of type 02 06 12, has the printer's UID at offset 16 and the token of this attempt at
  offset 188, and at least 200 bytes (of a datagram, 512 are read); a request is of type 01 06 21
  and has the UID at offset 16, the token at 56 and the first eight characters of the key at 74.
\<close>

definition lan_hit :: "string \<Rightarrow> bytes \<Rightarrow> bytes \<Rightarrow> bool" where
  "lan_hit uid token d \<longleftrightarrow>
     (\<exists>a b m s. length a = 6 \<and> length b = 5 \<and> length m = 152 \<and> 4 \<le> length s \<and>
        take 512 d = trans_code_partial
          ([0x04, 0x02] @ a @ [0x02, 0x06, 0x12] @ b @ bytes_of_string uid @ m @ token @ s))"

fun answers :: "string \<Rightarrow> bytes \<Rightarrow> udp_event \<Rightarrow> bool" where
  "answers uid token (Dgram src d) \<longleftrightarrow> lan_hit uid token d"
| "answers uid token ev \<longleftrightarrow> False"

definition lan_request :: "string \<Rightarrow> bytes \<Rightarrow> string \<Rightarrow> bytes \<Rightarrow> bool" where
  "lan_request uid token key d \<longleftrightarrow>
     (\<exists>a b c. length a = 5 \<and> length b = 20 \<and> length c = 10 \<and>
        d = trans_code_partial
          ([0x04, 0x02, 0x1c, 0x02, 72, 0, 0, 0, 0x01, 0x06, 0x21] @ a @ bytes_of_string uid @ b @ token @ c
           @ bytes_of_string (take 8 key) @ replicate (14 - min 8 (length key)) 0))"

lemma length_c_field [simp]: "length (c_field n s) = n"
  by (simp add: c_field_def)

lemma c_field_short: "length s \<le> n \<Longrightarrow> c_field n s = bytes_of_string s @ replicate (n - length s) 0"
  by (simp add: c_field_def bytes_of_string_def)

lemma take_drop_glue: "take n (drop i xs) @ drop (i + n) xs = drop i xs"
proof -
  have "drop (i + n) xs = drop n (drop i xs)" by (simp add: add.commute)
  then show ?thesis by (simp only: append_take_drop_id)
qed

lemma lan_answer_hit:
  assumes "length uid = 20" "length token = 8"
  shows "lan_answer uid token d \<longleftrightarrow> lan_hit uid token d"
proof
  assume "lan_hit uid token d"
  then obtain a b m s where l: "length a = 6" "length b = 5" "length m = 152" "4 \<le> length s"
    and d: "take 512 d = trans_code_partial ([0x04, 0x02] @ a @ [0x02, 0x06, 0x12] @ b @ bytes_of_string uid @ m @ token @ s)"
    unfolding lan_hit_def by blast
  show "lan_answer uid token d"
    using l assms unfolding lan_answer_def d by (simp add: Let_def c_field_short bytes_of_string_def nth_append)
next
  assume an: "lan_answer uid token d"
  define r where "r = reverse_trans_code_partial (take 512 d)"
  have l: "200 \<le> length r" using an unfolding lan_answer_def r_def by simp
  have f: "take 2 r = [0x04, 0x02]" "take 3 (drop 8 r) = [0x02, 0x06, 0x12]" "take 20 (drop 16 r) = bytes_of_string uid"
      "take 8 (drop 188 r) = token"
    using an l take3_at [of r] assms unfolding lan_answer_def Let_def r_def [symmetric]
    by (auto intro!: nth_equalityI simp: c_field_short nth_Cons' less_2_cases_iff)
  have "r = take 2 r @ take 6 (drop 2 r) @ take 3 (drop 8 r) @ take 5 (drop 11 r) @ take 20 (drop 16 r) @ take 152 (drop 36 r)
      @ take 8 (drop 188 r) @ drop 196 r"
    using take_drop_glue [of 2 0 r] take_drop_glue [of 6 2 r] take_drop_glue [of 3 8 r] take_drop_glue [of 5 11 r]
      take_drop_glue [of 20 16 r] take_drop_glue [of 152 36 r] take_drop_glue [of 8 188 r] by simp
  then have "r = [0x04, 0x02] @ take 6 (drop 2 r) @ [0x02, 0x06, 0x12] @ take 5 (drop 11 r) @ bytes_of_string uid
      @ take 152 (drop 36 r) @ token @ drop 196 r" by (simp only: f)
  moreover have "take 512 d = trans_code_partial r" by (simp add: r_def)
  ultimately have "take 512 d = trans_code_partial ([0x04, 0x02] @ take 6 (drop 2 r) @ [0x02, 0x06, 0x12] @ take 5 (drop 11 r)
      @ bytes_of_string uid @ take 152 (drop 36 r) @ token @ drop 196 r)" by simp
  then show "lan_hit uid token d" unfolding lan_hit_def using l
    by (intro exI [of _ "take 6 (drop 2 r)"] exI [of _ "take 5 (drop 11 r)"] exI [of _ "take 152 (drop 36 r)"]
        exI [of _ "drop 196 r"]) simp
qed

lemma lan_search_request:
  assumes "length uid = 20"
  shows "lan_request uid token key (build_lan_search uid token key)"
proof -
  have "bytes_of_string uid = c_field 20 uid"
    "bytes_of_string (take 8 key) @ replicate (14 - min 8 (length key)) 0 = c_field 14 (take 8 key)"
    using assms c_field_short [of "take 8 key" 14] by (simp_all add: c_field_short min.commute)
  then show ?thesis unfolding lan_request_def build_lan_search_def
    by (intro exI [of _ "[0, 0, 0, 0, 0]"] exI [of _ "replicate 16 0 @ [0x04, 0x03, 0x03, 0x04]"]
        exI [of _ "0x01 # replicate 9 0"]) (simp add: write_rdv_hdr_def le32_def)
qed

lemma lan_loop_first:
  "\<forall>t \<in> set ts. \<not> fst t \<Longrightarrow> length uid = 20 \<Longrightarrow> length token = 8 \<Longrightarrow>
   fst (lan_loop uid token search targets ts next u) =
   (case find (answers uid token) (take (length ts) (u_in u)) of Some (Dgram src d) \<Rightarrow> Some src | _ \<Rightarrow> None)"
proof (induction ts arbitrary: "next" u)
  case (Cons t ts)
  obtain now where t: "t = (False, now)" using Cons.prems by (cases t) auto
  let ?u1 = "if next \<le> now then for_each (\<lambda>t. sendto t search) targets u else u"
  have u1: "u_in ?u1 = u_in u" by (simp add: for_each_in)
  show ?case
  proof (cases rule: next_event_cases [of ?u1])
    case 1
    then show ?thesis using Cons u1 t by (simp add: Let_def)
  next
    case (2 ev es)
    then show ?thesis using Cons u1 t by (cases ev) (simp_all add: Let_def lan_answer_hit)
  qed
qed simp

text \<open>What the passes send: the request, to the targets only, and to each of them in a pass that is due.\<close>

lemma for_each_sendto:
  "\<exists>new. u_out (for_each (\<lambda>t. sendto t pkt) targets u) = u_out u @ new \<and> set new \<subseteq> (\<lambda>t. (t, pkt)) ` set targets \<and>
     (u_send_ok u = [] \<longrightarrow> (\<lambda>t. (t, pkt)) ` set targets \<subseteq> set new)"
proof (induction targets arbitrary: u)
  case (Cons t targets)
  let ?u = "snd (sendto t pkt u)"
  obtain new where new: "u_out (for_each (\<lambda>t. sendto t pkt) targets ?u) = u_out ?u @ new"
      "set new \<subseteq> (\<lambda>t. (t, pkt)) ` set targets" "u_send_ok ?u = [] \<longrightarrow> (\<lambda>t. (t, pkt)) ` set targets \<subseteq> set new"
    using Cons.IH by blast
  define one where "one = (if fst (sendto t pkt u) then [(t, pkt)] else [])"
  have "u_out ?u = u_out u @ one" "set one \<subseteq> {(t, pkt)}" and "u_send_ok u = [] \<longrightarrow> one = [(t, pkt)] \<and> u_send_ok ?u = []"
    by (simp add: sendto_def one_def split: list.splits, auto simp: one_def sendto_def)
  note one = this
  show ?case
  proof (intro exI [of _ "one @ new"] conjI impI)
    show "u_out (for_each (\<lambda>t. sendto t pkt) (t # targets) u) = u_out u @ one @ new" using new(1) one(1) by simp
    show "set (one @ new) \<subseteq> (\<lambda>t. (t, pkt)) ` set (t # targets)" using new(2) one(2) by auto
    assume "u_send_ok u = []"
    then show "(\<lambda>t. (t, pkt)) ` set (t # targets) \<subseteq> set (one @ new)" using new(3) one(3) by simp blast
  qed
qed simp

lemma lan_loop_sends:
  "\<exists>new. u_out (snd (lan_loop uid token search targets ts next u)) = u_out u @ new \<and>
     set new \<subseteq> (\<lambda>t. (t, search)) ` set targets \<and>
     (u_send_ok u = [] \<and> ts \<noteq> [] \<and> \<not> fst (hd ts) \<and> next \<le> snd (hd ts) \<longrightarrow> (\<lambda>t. (t, search)) ` set targets \<subseteq> set new)"
proof (induction ts arbitrary: "next" u)
  case (Cons t ts)
  obtain cancelled now where t: "t = (cancelled, now)" by (cases t)
  let ?u1 = "if next \<le> now then for_each (\<lambda>t. sendto t search) targets u else u"
  obtain new where new: "u_out ?u1 = u_out u @ new" "set new \<subseteq> (\<lambda>t. (t, search)) ` set targets"
      "u_send_ok u = [] \<and> next \<le> now \<longrightarrow> (\<lambda>t. (t, search)) ` set targets \<subseteq> set new"
    using for_each_sendto [of search targets u] by (cases "next \<le> now") auto
  obtain ev u2 where ev: "next_event ?u1 = (ev, u2)" by (cases "next_event ?u1")
  then have out: "u_out u2 = u_out ?u1" by (auto simp: next_event_def split: list.splits)
  let ?next = "if next \<le> now then next + 250000000 else next"
  obtain new' where new': "u_out (snd (lan_loop uid token search targets ts ?next u2)) = u_out u2 @ new'"
      "set new' \<subseteq> (\<lambda>t. (t, search)) ` set targets"
    using Cons.IH by blast
  have "snd (lan_loop uid token search targets (t # ts) next u) \<in>
      {if cancelled then u else u2, snd (lan_loop uid token search targets ts ?next u2)} \<and>
      (cancelled \<longrightarrow> snd (lan_loop uid token search targets (t # ts) next u) = u)"
    using ev unfolding t by (simp add: Let_def split: udp_event.splits)
  then consider "cancelled" "snd (lan_loop uid token search targets (t # ts) next u) = u"
    | "\<not> cancelled" "snd (lan_loop uid token search targets (t # ts) next u) = u2"
    | "\<not> cancelled" "snd (lan_loop uid token search targets (t # ts) next u) = snd (lan_loop uid token search targets ts ?next u2)"
    by (cases cancelled) auto
  then show ?case
  proof cases
    case 1
    then show ?thesis by (intro exI [of _ "[]"]) (simp add: t)
  next
    case 2
    then show ?thesis using new out by (intro exI [of _ new]) (simp add: t)
  next
    case 3
    then show ?thesis using new new' out by (intro exI [of _ "new @ new'"]) (auto simp: t)
  qed
qed simp

lemma set_add_target: "set (add_target bs out) = set out \<union> set bs"
  by (induction bs arbitrary: out) auto

lemma set_lan_targets: "set (lan_broadcast_targets ifs) = (\<lambda>ip. (ip, 32761)) ` (set ifs \<union> {0xffffffff})"
  by (auto simp: lan_broadcast_targets_def set_add_target kLanSearchPort_def)

definition lan_reply :: "string \<Rightarrow> bytes \<Rightarrow> bytes" where
  "lan_reply uid token = write_rdv_hdr 184 0x02 0x06 0x12 @ c_field 20 uid @ replicate 152 0 @ token @ replicate 4 0"

lemma lan_reply_answers: "length token = 8 \<Longrightarrow> lan_answer uid token (trans_code_partial (lan_reply uid token))"
  by (simp add: lan_answer_def lan_reply_def write_rdv_hdr_def le32_def Let_def)

section \<open>Properties\<close>

text \<open>
  C38. The LAN search ends with the first datagram that answers it among those received before
  the deadline, and with no other. An answer is stated by its bytes: what was scrambled is of
  type 02 06 12, names the printer's UID and echoes the token of this attempt at its offset. The
  sender of the answer becomes the peer of a direct session with that token; without one the
  search fails. All that the search sends are requests of type 01 06 21 with the UID, the token
  and the first eight characters of the key, to port 32761 of the broadcast addresses or, at the
  end, to the peer; and if the first pass is due and nothing fails to be sent, every broadcast
  address gets one.
\<close>

theorem lan_search_first_answer:
  fixes uid token authkey ifs start ticks u0
  assumes "length uid = 20" "length token = 8" "\<forall>t \<in> set ticks. \<not> fst t"
    and run: "iotc_lan_connect True ifs token start ticks uid authkey u0 = (r, u)"
  shows "map_option ic_peer r =
      (case find (answers uid token) (take (length ticks) (u_in u0)) of Some (Dgram src d) \<Rightarrow> Some src | _ \<Rightarrow> None) \<and>
    (\<forall>c. r = Some c \<longrightarrow> ic_open c \<and> ic_is_lan c \<and> \<not> ic_is_relay c \<and> ic_token c = token \<and> ic_uid c = uid) \<and>
    (\<exists>new. u_out u = u_out u0 @ new \<and>
      (\<forall>(dst, d) \<in> set new. lan_request uid token authkey d \<and>
         (snd dst = 32761 \<and> fst dst \<in> set ifs \<union> {0xffffffff} \<or> map_option ic_peer r = Some dst)) \<and>
      (u_send_ok u0 = [] \<and> ticks \<noteq> [] \<and> start \<le> snd (hd ticks) \<longrightarrow>
         (\<forall>ip \<in> set ifs \<union> {0xffffffff}. (ip, 32761) \<in> fst ` set new)))"
proof -
  let ?search = "build_lan_search uid token authkey"
  obtain found u1 where l: "lan_loop uid token ?search (lan_broadcast_targets ifs) ticks start u0 = (found, u1)"
    by (cases "lan_loop uid token ?search (lan_broadcast_targets ifs) ticks start u0")
  have f: "found = (case find (answers uid token) (take (length ticks) (u_in u0)) of Some (Dgram src d) \<Rightarrow> Some src | _ \<Rightarrow> None)"
    using lan_loop_first [OF assms(3,1,2), of ?search "lan_broadcast_targets ifs" start u0] l by simp
  have r: "map_option ic_peer r = found"
    "\<forall>c. r = Some c \<longrightarrow> ic_open c \<and> ic_is_lan c \<and> \<not> ic_is_relay c \<and> ic_token c = token \<and> ic_uid c = uid"
    "u = (case found of None \<Rightarrow> u1 | Some peer \<Rightarrow> snd (sendto peer ?search u1))"
    using assms(1) run unfolding iotc_lan_connect_def Let_def l
    by (cases found; simp add: kUidLen_def closed_conn_def; fastforce)+
  have first: "ticks \<noteq> [] \<Longrightarrow> \<not> fst (hd ticks)" using assms(3) by (cases ticks) simp_all
  obtain new where new: "u_out u1 = u_out u0 @ new" "set new \<subseteq> (\<lambda>t. (t, ?search)) ` set (lan_broadcast_targets ifs)"
      "u_send_ok u0 = [] \<and> ticks \<noteq> [] \<and> start \<le> snd (hd ticks) \<longrightarrow>
        (\<lambda>t. (t, ?search)) ` set (lan_broadcast_targets ifs) \<subseteq> set new"
    using lan_loop_sends [of uid token ?search "lan_broadcast_targets ifs" ticks start u0, unfolded l snd_conv] first by blast
  obtain fin where fin: "u_out u = u_out u1 @ fin" "set fin \<subseteq> (\<lambda>t. (t, ?search)) ` set_option found"
  proof (cases found)
    case None
    then show ?thesis using r(3) that [of "[]"] by simp
  next
    case (Some peer)
    obtain out where "u_out (for_each (\<lambda>t. sendto t ?search) [peer] u1) = u_out u1 @ out" "set out \<subseteq> (\<lambda>t. (t, ?search)) ` set [peer]"
      using for_each_sendto [of ?search "[peer]" u1] by blast
    with Some show ?thesis using r(3) that [of out] by simp
  qed
  have "\<exists>new. u_out u = u_out u0 @ new \<and>
      (\<forall>(dst, d) \<in> set new. lan_request uid token authkey d \<and>
         (snd dst = 32761 \<and> fst dst \<in> set ifs \<union> {0xffffffff} \<or> map_option ic_peer r = Some dst)) \<and>
      (u_send_ok u0 = [] \<and> ticks \<noteq> [] \<and> start \<le> snd (hd ticks) \<longrightarrow>
         (\<forall>ip \<in> set ifs \<union> {0xffffffff}. (ip, 32761) \<in> fst ` set new))"
  proof (intro exI [of _ "new @ fin"] conjI ballI impI)
    show "u_out u = u_out u0 @ new @ fin" using new(1) fin(1) by simp
    fix x assume "x \<in> set (new @ fin)"
    then have x: "snd x = ?search" "fst x \<in> (\<lambda>ip. (ip, 32761)) ` (set ifs \<union> {0xffffffff}) \<or> found = Some (fst x)"
      using new(2) fin(2) unfolding set_lan_targets by auto
    then show "case x of (dst, d) \<Rightarrow> lan_request uid token authkey d \<and>
         (snd dst = 32761 \<and> fst dst \<in> set ifs \<union> {0xffffffff} \<or> map_option ic_peer r = Some dst)"
      using lan_search_request [OF assms(1), of token authkey] r(1) by (cases x) auto
  next
    fix ip assume "u_send_ok u0 = [] \<and> ticks \<noteq> [] \<and> start \<le> snd (hd ticks)" "ip \<in> set ifs \<union> {0xffffffff}"
    then have "((ip, 32761), ?search) \<in> set new" using new(3) unfolding set_lan_targets by blast
    then show "(ip, 32761) \<in> fst ` set (new @ fin)" by force
  qed
  then show ?thesis using r(1,2) f by blast
qed

definition demo_uid :: string where "demo_uid = ''ABCDEFGHIJKLMNOPQRST''"

theorem lan_search_first_answer_witness:
  "\<exists>c u. iotc_lan_connect True [0xc0a801ff] [1, 2, 3, 4, 5, 6, 7, 8] 0 [(False, 0), (False, 1), (False, 2)] demo_uid ''key''
     \<lparr>u_in = [Dgram (5, 6) [], NoData, Dgram (9, 7000) (trans_code_partial (lan_reply demo_uid [1, 2, 3, 4, 5, 6, 7, 8]))],
      u_out = [], u_send_ok = []\<rparr> = (Some c, u) \<and> ic_peer c = (9, 7000) \<and>
     (0xc0a801ff, 32761) \<in> fst ` set (u_out u) \<and> (0xffffffff, 32761) \<in> fst ` set (u_out u)"
proof -
  let ?tok = "[1, 2, 3, 4, 5, 6, 7, 8] :: bytes" and ?ticks = "[(False, 0), (False, 1), (False, 2)] :: (bool \<times> int) list"
  let ?u = "\<lparr>u_in = [Dgram (5, 6) [], NoData, Dgram (9, 7000) (trans_code_partial (lan_reply demo_uid ?tok))], u_out = [], u_send_ok = []\<rparr>"
  have l: "length demo_uid = 20" "length ?tok = 8" "\<forall>t \<in> set ?ticks. \<not> fst t" by (simp_all add: demo_uid_def)
  have "lan_hit demo_uid ?tok (trans_code_partial (lan_reply demo_uid ?tok))" "\<not> lan_hit demo_uid ?tok []"
    unfolding lan_answer_hit [OF l(1,2), symmetric] by (rule lan_reply_answers, simp) (simp add: lan_answer_def)
  moreover obtain r u where run: "iotc_lan_connect True [0xc0a801ff] ?tok 0 ?ticks demo_uid ''key'' ?u = (r, u)"
    by (cases "iotc_lan_connect True [0xc0a801ff] ?tok 0 ?ticks demo_uid ''key'' ?u")
  ultimately have "map_option ic_peer r = Some (9, 7000)"
    "\<forall>ip \<in> {0xc0a801ff, 0xffffffff}. (ip, 32761) \<in> fst ` set (u_out u)"
    using lan_search_first_answer [OF l run] by auto
  then show ?thesis using run by auto
qed

text \<open>
  C39. A relay connection never makes up its peer: a datagram came from that address, and it was
  the printer's rendezvous (02 06 12), a relay's pairing confirmation (03 03 43) whose tag the
  connection uses, or, for a punched path, a punch answer or confirmation (02 or 04 04 33) that
  names the UID and the session token of this attempt. The session is marked as relayed exactly
  if the peer has the relay's port.
\<close>

theorem relay_connect_evidence:
  assumes "iotc_relay_connect s uid relay_id region authkey rng u0 = (Some c, rng', u)"
  shows "ic_open c \<and> ic_uid c = uid \<and> length (ic_token c) = 8 \<and> (ic_is_relay c \<longleftrightarrow> snd (ic_peer c) = 3478) \<and>
    ds_relay_tag (ic_dtls c) = ic_relay_tag c \<and>
    (\<exists>d buf direct. buf \<in> {256, 1024} \<and> Dgram (ic_peer c) d \<in> set (u_in u0) \<and>
       rdv_evidence buf uid (ic_token c) d (ic_relay_tag c) direct)"
proof -
  have uid: "length uid = 20" using assms by (auto simp: iotc_relay_connect_def kUidLen_def split: if_splits)
  let ?masters = "collect_masters (rs_resolve s) (candidate_hosts region) []"
  obtain a rng1 where a: "rand32 (rs_seed s) rng = (a, rng1)" by (cases "rand32 (rs_seed s) rng")
  obtain b rng2 where b: "rand32 (rs_seed s) rng1 = (b, rng2)" by (cases "rand32 (rs_seed s) rng1")
  define token where "token = le32 a @ le32 b"
  obtain n u1 where j: "join_masters uid relay_id ?masters 0 u0 = (n, u1)" by (cases "join_masters uid relay_id ?masters 0 u0")
  obtain direct reply u2 where aw: "await_assignment [rs_cancel s 0, rs_cancel s 1, rs_cancel s 2] [] u1 = (direct, reply, u2)"
    by (cases "await_assignment [rs_cancel s 0, rs_cancel s 1, rs_cancel s 2] [] u1")
  note src = await_source [OF aw, where uid = uid and token = token, unfolded join_masters_in [OF j]]
  note run = assms [unfolded iotc_relay_connect_def Let_def a b prod.case token_def [symmetric] j aw]
  obtain peer tag punched where f: "c = relay_conn uid token peer tag"
    "direct = Some peer \<and> tag = 0 \<and> \<not> punched \<or>
     direct = None \<and> (\<exists>r u3. offlan_rendezvous (rs_seed s) (rs_local s) (rs_start s) (rs_ticks s) reply uid authkey token rng2 u2
       = (Some (peer, tag, punched), r, u3))"
    using run by (auto split: if_splits option.splits prod.splits)
  have "\<exists>d buf. buf \<in> {256, 1024} \<and> Dgram peer d \<in> set (u_in u0) \<and> rdv_evidence buf uid token d tag punched"
    using f(2)
  proof
    assume "direct = Some peer \<and> tag = 0 \<and> \<not> punched"
    then show ?thesis using src by auto
  next
    assume "direct = None \<and> (\<exists>r u3. offlan_rendezvous (rs_seed s) (rs_local s) (rs_start s) (rs_ticks s) reply uid authkey token rng2 u2
       = (Some (peer, tag, punched), r, u3))"
    then obtain d where "Dgram peer d \<in> set (u_in u2)" "rdv_evidence 1024 uid token d tag punched"
      using offlan_source by blast
    then show ?thesis using src by auto
  qed
  then show ?thesis using uid by (auto simp: f(1) relay_conn_def closed_conn_def token_def)
qed

definition demo_script :: relay_script where
  "demo_script = \<lparr>rs_resolve = (\<lambda>h. [(0x01020304, 10240)]), rs_sock_ok = True, rs_seed = 5, rs_cancel = (\<lambda>i. False),
     rs_local = (0x0a000002, 4000), rs_start = 0, rs_ticks = []\<rparr>"

theorem relay_connect_evidence_witness:
  "\<exists>c rng' u. iotc_relay_connect demo_script demo_uid demo_uid ''eu'' ''key'' 1
     \<lparr>u_in = [Dgram (0x0a000007, 9000) (trans_code_partial (write_rdv_hdr 0 0x02 0x06 0x12))], u_out = [], u_send_ok = []\<rparr> = (Some c, rng', u) \<and>
    ic_peer c = (0x0a000007, 9000) \<and> \<not> ic_is_relay c"
proof -
  let ?u = "\<lparr>u_in = [Dgram (0x0a000007, 9000) (trans_code_partial (write_rdv_hdr 0 0x02 0x06 0x12))], u_out = [], u_send_ok = []\<rparr> :: udp"
  have len: "length (write_rdv_hdr 0 0x02 0x06 0x12) = 16" by (simp add: write_rdv_hdr_def)
  have "fst (iotc_relay_connect demo_script demo_uid demo_uid ''eu'' ''key'' 1 ?u) \<noteq> None"
    using len
    by (simp add: iotc_relay_connect_def demo_script_def demo_uid_def kUidLen_def candidate_hosts_def rand32_def Let_def rdv_sends
        send_control_def sendto_def) (simp add: write_rdv_hdr_def le32_def)
  then obtain c rng' u where run: "iotc_relay_connect demo_script demo_uid demo_uid ''eu'' ''key'' 1 ?u = (Some c, rng', u)"
    by (cases "iotc_relay_connect demo_script demo_uid demo_uid ''eu'' ''key'' 1 ?u") auto
  show ?thesis using relay_connect_evidence [OF run] run by (intro exI conjI) auto
qed
end
