(* ===== verification/Dtls_Handshake.thy ===== *)
theory Dtls_Handshake
  imports Iotc_Link
begin

text \<open>
  Model of the DTLS-PSK handshake of \<open>src/camera/tutk/IotcClient.cpp\<close>: the ClientHello, the
  parser of the server's flight, the client's second flight and the check of the server's
  Finished message. The random numbers, the X25519 exchange and the other primitives of
  OpenSSL are arguments; \<open>None\<close> stands for a failing call. Log lines are left out.
\<close>

section \<open>ClientHello\<close>

definition kCipherSuites :: bytes where
  "kCipherSuites = [0xC0, 0x38, 0xCC, 0xAC, 0x00, 0xFF]"

definition kExtensions :: bytes where
  "kExtensions =
    [0x00, 0x52,
     0x00, 0x0b, 0x00, 0x04, 0x03, 0x00, 0x01, 0x02,
     0x00, 0x0a, 0x00, 0x0c, 0x00, 0x0a,
     0x00, 0x1d, 0x00, 0x17, 0x00, 0x1e,
     0x00, 0x19, 0x00, 0x18,
     0x00, 0x23, 0x00, 0x00,
     0x00, 0x16, 0x00, 0x00,
     0x00, 0x17, 0x00, 0x00,
     0x00, 0x0d, 0x00, 0x2a, 0x00, 0x28,
     0x04, 0x03, 0x05, 0x03, 0x06, 0x03, 0x08, 0x07,
     0x08, 0x08, 0x08, 0x09, 0x08, 0x0a, 0x08, 0x0b,
     0x08, 0x04, 0x08, 0x05, 0x08, 0x06, 0x04, 0x01,
     0x05, 0x01, 0x06, 0x01, 0x03, 0x03, 0x03, 0x01,
     0x03, 0x02, 0x04, 0x02, 0x05, 0x02, 0x06, 0x02]"

text \<open>The record and the message that goes into the transcript.\<close>

definition build_client_hello :: "dtls_session \<Rightarrow> bytes \<times> bytes" where
  "build_client_hello ds =
     (let body = [0xfe, 0xfd] @ client_random ds @ [0x00, 0x00, 0x00, of_nat (length kCipherSuites)] @ kCipherSuites
                 @ [0x01, 0x00] @ kExtensions;
          hs_hdr = build_dtls_hs_hdr 0x01 (of_nat (length body)) 0;
          rec_hdr = put_at 2 [0xff] (build_dtls_record_hdr 0x16 0 0 (of_nat (12 + length body)))
      in (rec_hdr @ hs_hdr @ body, hs_hdr @ body))"

section \<open>The server's flight\<close>

function ext_loop :: "bytes \<Rightarrow> nat \<Rightarrow> nat \<Rightarrow> dtls_session \<Rightarrow> dtls_session" where
  "ext_loop body e e_end ds =
     (if e + 4 \<le> e_end
      then let etype = read_be16 (drop e body);
               ds1 = (if etype = 0x0016 then ds\<lparr>use_etm := True\<rparr> else ds);
               ds2 = (if etype = 0x0017 then ds1\<lparr>use_ems := True\<rparr> else ds1)
           in ext_loop body (e + (4 + unat (read_be16 (drop (e + 2) body)))) e_end ds2
      else ds)"
  by pat_completeness auto
termination
  by (relation "measure (\<lambda>(body, e, e_end, ds). e_end - e)") auto

declare ext_loop.simps [simp del]

definition parse_server_hello :: "bytes \<Rightarrow> dtls_session \<Rightarrow> dtls_session option" where
  "parse_server_hello body ds =
     (if length body < 2 + 32 + 1 then None
      else let off = 2 + 32 + 1 + unat (body ! 34)
           in if length body < off + 3 then None
              else let ds1 = ds\<lparr>server_random := take 32 (drop 2 body), cipher_suite := read_be16 (drop off body)\<rparr>;
                       off' = off + 3
                   in Some (if off' + 2 \<le> length body
                            then ext_loop body (off' + 2)
                                   (min (length body) (off' + 2 + unat (read_be16 (drop off' body)))) ds1
                            else ds1))"

definition parse_server_key :: "bytes \<Rightarrow> bytes option" where
  "parse_server_key body =
     (if 38 \<le> length body \<and> body ! 0 = 0 \<and> body ! 1 = 0 \<and> body ! 2 = 0x03 \<and>
         read_be16 (drop 3 body) = 0x001d \<and> body ! 5 = 32
      then Some (take 32 (drop 6 body)) else None)"

definition kServerHelloDone :: bytes where
  "kServerHelloDone = [0x0e, 0x00, 0x00, 0x00, 0x00, 0x02, 0x00, 0x00, 0x00, 0x00, 0x00, 0x00]"

text \<open>What the parser has gathered: session, transcript, and the server's key once it was seen.\<close>

type_synonym flight = "dtls_session \<times> bytes \<times> bytes option"

text \<open>One handshake message \<open>hs\<close> of a record of its own.\<close>

definition flight_message :: "bytes \<Rightarrow> flight \<Rightarrow> flight option" where
  "flight_message hs fl =
     (case fl of (ds, tr, key) \<Rightarrow>
        let htype = hs ! 0;
            hlen = unat (hs ! 1) * 2 ^ 16 + unat (hs ! 2) * 2 ^ 8 + unat (hs ! 3);
            body = take hlen (drop 12 hs)
        in if length hs < 12 + hlen then Some fl
           else if htype = 0x0e then Some (ds, tr @ kServerHelloDone, key)
           else let tr1 = tr @ take (12 + hlen) hs
                in if htype = 0x02
                   then map_option (\<lambda>ds1. (ds1, tr1, key)) (parse_server_hello body ds)
                   else if htype = 0x0c
                   then Some (ds, tr1, case parse_server_key body of None \<Rightarrow> key | Some k \<Rightarrow> Some k)
                   else Some (ds, tr1, key))"

function flight_loop :: "bytes \<Rightarrow> flight \<Rightarrow> flight option" where
  "flight_loop raw fl =
     (if length raw < 13 + 12 then Some fl
      else let rlen = unat (read_be16 (drop 11 raw)); rest = drop (13 + rlen) raw
           in if length raw < 13 + rlen then Some fl
              else if raw ! 0 \<noteq> 0x16 \<or> rlen < 12 then flight_loop rest fl
              else case flight_message (take rlen (drop 13 raw)) fl of
                     None \<Rightarrow> None
                   | Some fl1 \<Rightarrow> flight_loop rest fl1)"
  by pat_completeness auto
termination
  by (relation "measure (\<lambda>(raw, fl). length raw)") auto

declare flight_loop.simps [simp del]

definition parse_server_hello_flight :: "bytes \<Rightarrow> dtls_session \<Rightarrow> bytes \<Rightarrow> (dtls_session \<times> bytes \<times> bytes) option" where
  "parse_server_hello_flight raw ds tr =
     (if 15 \<le> length raw \<and> raw ! 0 = 0x15 then None
      else if length raw < 13 + 12 + 2 + 32 + 1 \<or> raw ! 0 \<noteq> 0x16 \<or> raw ! 13 \<noteq> 0x02 then None
      else case flight_loop raw (ds\<lparr>cipher_suite := 0, use_ems := False, use_etm := False\<rparr>, tr, None) of
             None \<Rightarrow> None
           | Some (ds1, tr1, key) \<Rightarrow>
               if cipher_suite ds1 \<noteq> 0xC038 \<and> cipher_suite ds1 \<noteq> 0xCCAC then None
               else case key of None \<Rightarrow> None | Some k \<Rightarrow> Some (ds1, tr1, k))"

section \<open>The server's Finished\<close>

datatype scan = Scan_alert | Scan_more bytes | Scan_finished bytes bytes

function scan_finished :: "bytes \<Rightarrow> bytes \<Rightarrow> scan" where
  "scan_finished raw tr =
     (if length raw < 13 then Scan_more tr
      else let rlen = 13 + unat (read_be16 (drop 11 raw))
           in if length raw < rlen then Scan_more tr
              else if raw ! 0 = 0x15 then Scan_alert
              else if raw ! 0 \<noteq> 0x16 then scan_finished (drop rlen raw) tr
              else if read_be16 (drop 3 raw) = 0 then scan_finished (drop rlen raw) (tr @ drop 13 (take rlen raw))
              else Scan_finished (take rlen raw) tr)"
  by pat_completeness auto
termination
  by (relation "measure (\<lambda>(raw, tr). length raw)") auto

declare scan_finished.simps [simp del]

text \<open>\<open>rounds\<close> is how often the loop finds its deadline of 4 s not yet passed.\<close>

fun recv_server_finished ::
  "crypto \<Rightarrow> nat \<Rightarrow> addr \<Rightarrow> dtls_session \<Rightarrow> bytes \<Rightarrow> udp \<Rightarrow> (bytes \<times> bytes) option \<times> udp" where
  "recv_server_finished c 0 dst ds tr u = (None, u)"
| "recv_server_finished c (Suc rounds) dst ds tr u =
     (case recv_dtls_packet (Some dst) 1024 u of
        (None, u1) \<Rightarrow> recv_server_finished c rounds dst ds tr u1
      | (Some (raw, _, _), u1) \<Rightarrow>
          (case scan_finished raw tr of
             Scan_alert \<Rightarrow> (None, u1)
           | Scan_more tr1 \<Rightarrow> recv_server_finished c rounds dst ds tr1 u1
           | Scan_finished rec tr1 \<Rightarrow> (map_option (\<lambda>fin. (fin, tr1)) (dtls_decrypt_record c ds rec 64), u1)))"

section \<open>The handshake\<close>

definition premaster_secret :: "crypto \<Rightarrow> string \<Rightarrow> bytes \<Rightarrow> bytes" where
  "premaster_secret c passwd ecdh = [0x00, 0x20] @ ecdh @ [0x00, 0x20] @ derive_psk c passwd"

definition client_key_exchange :: "string \<Rightarrow> bytes \<Rightarrow> bytes" where
  "client_key_exchange account client_pub =
     (let identity = bytes_of_string (''AUTHPWD_'' @ account)
      in [of_nat (length identity div 256), of_nat (length identity)] @ identity @ [32] @ client_pub)"

fun hello_loop :: "nat \<Rightarrow> bool \<Rightarrow> (udp \<Rightarrow> bool \<times> udp) \<Rightarrow> addr \<Rightarrow> udp \<Rightarrow> bytes option \<times> udp" where
  "hello_loop 0 again send_hello dst u = (None, u)"
| "hello_loop (Suc n) again send_hello dst u =
     (let u1 = (if again then snd (send_hello u) else u)
      in case recv_dtls_packet (Some dst) 1024 u1 of
           (Some (d, _, _), u2) \<Rightarrow> if length d < 13 then hello_loop n True send_hello dst u2 else (Some d, u2)
         | (None, u2) \<Rightarrow> hello_loop n True send_hello dst u2)"

text \<open>
  The second flight: ClientKeyExchange, ChangeCipherSpec and the encrypted Finished. The result
  is the session with its keys, the transcript up to and with the client's Finished, and the
  datagram's data.
\<close>

definition client_finish ::
  "crypto \<Rightarrow> bytes option \<Rightarrow> string \<Rightarrow> string \<Rightarrow> dtls_session \<Rightarrow> bytes \<Rightarrow> bytes \<times> bytes \<Rightarrow> (dtls_session \<times> bytes \<times> bytes) option" where
  "client_finish c iv passwd account ds tr kex =
     (let cke = client_key_exchange account (fst kex);
          cke_hs = build_dtls_hs_hdr 0x10 (of_nat (length cke)) 1;
          cke_rec = build_dtls_record_hdr 0x16 0 1 (of_nat (12 + length cke));
          tr1 = tr @ cke_hs @ cke;
          ds1 = derive_session_keys c ds (premaster_secret c passwd (snd kex)) tr1;
          ccs = build_dtls_record_hdr 0x14 0 2 1 @ [0x01];
          fin = build_dtls_hs_hdr 0x14 12 2 @ finished_verify_data c ds1 tr1 ''client finished'';
          ds2 = ds1\<lparr>dtls_epoch := 1, tx_seq := 0\<rparr>
      in case dtls_encrypt_record c iv ds2 0x16 fin of
           None \<Rightarrow> None
         | Some (fin_rec, ds3) \<Rightarrow> Some (ds3, tr1 @ fin, cke_rec @ cke_hs @ cke @ ccs @ fin_rec))"

definition dtls_psk_handshake ::
  "crypto \<Rightarrow> bytes option \<Rightarrow> (bytes \<Rightarrow> (bytes \<times> bytes) option) \<Rightarrow> bytes option \<Rightarrow> nat \<Rightarrow>
   addr \<Rightarrow> bytes \<Rightarrow> string \<Rightarrow> string \<Rightarrow> string \<Rightarrow> u32 \<Rightarrow> udp \<Rightarrow> dtls_session option \<times> udp" where
  "dtls_psk_handshake c rnd x25519 iv rounds dst token uid_upper passwd account relay_tag u0 =
     (case rnd of
        None \<Rightarrow> (None, u0)
      | Some random \<Rightarrow>
          let ds0 = zero_session\<lparr>ds_relay_tag := relay_tag, client_random := random, pkt_seq := 1\<rparr>;
              (hello, tr) = build_client_hello ds0;
              send_hello = send_dtls_packet dst 0 token hello 0 relay_tag;
              (ok, u1) = send_hello u0
          in if \<not> ok then (None, u1)
             else let u2 = snd (send_hello u1);
                      (ok', u3) = (if uid_upper \<noteq> [] then send_ctrl0x33 dst uid_upper token 0x02 u2 else (True, u2))
                  in if \<not> ok' then (None, u3)
                     else case hello_loop 3 False send_hello dst u3 of
                            (None, u4) \<Rightarrow> (None, u4)
                          | (Some raw, u4) \<Rightarrow>
                              (case parse_server_hello_flight raw ds0 tr of
                                 None \<Rightarrow> (None, u4)
                               | Some (ds1, tr1, server_pub) \<Rightarrow>
                                   (case x25519 server_pub of
                                      None \<Rightarrow> (None, u4)
                                    | Some kex \<Rightarrow>
                                        (case client_finish c iv passwd account ds1 tr1 kex of
                                           None \<Rightarrow> (None, u4)
                                         | Some (ds2, tr2, flight2) \<Rightarrow>
                                             let (ok'', u5) = send_dtls_packet dst 0 token flight2 (pkt_seq ds2) relay_tag u4;
                                                 ds3 = ds2\<lparr>pkt_seq := pkt_seq ds2 + 1\<rparr>
                                             in if \<not> ok'' then (None, u5)
                                                else case recv_server_finished c rounds dst ds3 tr2 u5 of
                                                       (None, u6) \<Rightarrow> (None, u6)
                                                     | (Some (fin, tr3), u6) \<Rightarrow>
                                                         if length fin < 24 \<or>
                                                            take 12 (drop 12 fin) \<noteq> finished_verify_data c ds3 tr3 ''server finished''
                                                         then (None, u6)
                                                         else (Some (ds3\<lparr>tx_seq := 1, rx_seq := 1, handshake_complete := True\<rparr>), u6)))))"

end
