(* ===== verification/Dtls_Agreement.thy ===== *)
theory Dtls_Agreement
  imports Dtls_Handshake
begin

text \<open>
  What the DTLS-PSK handshake of \<open>src/camera/tutk/IotcClient.cpp\<close> achieves. The printer's side
  is not part of the repository: it is described by the messages it sends, built from the
  fields of RFC 5246, 6347 and 5489, and by the keys it derives. The lemmas show how the parsers
  read such messages and where everything a handshake used came from.
\<close>

section \<open>Lemmas: messages\<close>

lemma be24_value:
  assumes "n < 2 ^ 24"
  shows "unat (be24 (of_nat n) ! 0) * 2 ^ 16 + unat (be24 (of_nat n) ! 1) * 2 ^ 8 + unat (be24 (of_nat n) ! 2) = n"
proof -
  have v: "unat (of_nat n :: u32) = n" using assms by (simp add: unat_of_nat take_bit_nat_eq_self)
  have b: "unat (ucast (drop_bit k (of_nat n :: u32)) :: byte) = n div 2 ^ k mod 256" for k
  proof -
    have "unat (drop_bit k (of_nat n :: u32)) = n div 2 ^ k"
      by (simp only: unat_drop_bit_eq v drop_bit_eq_div [where 'a = nat])
    then show ?thesis by (simp only: unsigned_ucast_eq take_bit_eq_mod) simp
  qed
  have b0: "unat (ucast (of_nat n :: u32) :: byte) = n mod 256" using b [of 0] by simp
  have "n div 2 ^ 16 < 256" using assms by (simp add: less_mult_imp_div_less)
  moreover have "n div 65536 = n div 256 div 256" by (simp add: div_mult2_eq [symmetric])
  then have "n div 65536 * 65536 + n div 256 mod 256 * 256 + n mod 256 = n"
    using div_mult_mod_eq [of "n div 256" 256] div_mult_mod_eq [of n 256] by linarith
  ultimately show ?thesis using b [of 8] b [of 16] b0 unfolding be24_def by simp
qed

definition hs_message :: "byte \<Rightarrow> u16 \<Rightarrow> bytes \<Rightarrow> bytes" where
  "hs_message ty mseq body = build_dtls_hs_hdr ty (of_nat (length body)) mseq @ body"

definition hs_record :: "byte \<Rightarrow> u64 \<Rightarrow> u16 \<Rightarrow> bytes \<Rightarrow> bytes" where
  "hs_record ty sq mseq body =
     build_dtls_record_hdr 0x16 0 sq (of_nat (12 + length body)) @ hs_message ty mseq body"

lemma length_hs [simp]: "length (hs_message ty mseq body) = 12 + length body"
  "length (hs_record ty sq mseq body) = 25 + length body"
  by (simp_all add: hs_message_def hs_record_def build_dtls_hs_hdr_def)

lemma hs_message_fields:
  assumes "length body < 2 ^ 24"
  shows "hs_message ty mseq body ! 0 = ty" "drop 12 (hs_message ty mseq body) = body"
    "unat (hs_message ty mseq body ! 1) * 2 ^ 16 + unat (hs_message ty mseq body ! 2) * 2 ^ 8 + unat (hs_message ty mseq body ! 3)
     = length body"
  using be24_value [OF assms] by (simp_all add: hs_message_def build_dtls_hs_hdr_def be24_def be16_def)

lemma flight_message_hs:
  assumes "length body < 2 ^ 24"
  shows "flight_message (hs_message ty mseq body) (ds, tr, key) =
    (if ty = 0x0e then Some (ds, tr @ kServerHelloDone, key)
     else let tr1 = tr @ hs_message ty mseq body
          in if ty = 0x02 then map_option (\<lambda>ds1. (ds1, tr1, key)) (parse_server_hello body ds)
             else if ty = 0x0c then Some (ds, tr1, case parse_server_key body of None \<Rightarrow> key | Some k \<Rightarrow> Some k)
             else Some (ds, tr1, key))"
  unfolding flight_message_def Let_def prod.case hs_message_fields [OF assms] by simp

lemma read_be16_append [simp]: "2 \<le> length p \<Longrightarrow> read_be16 (p @ q) = read_be16 p"
  by (cases p) (auto simp: read_be16_def nth_append)

lemma flight_loop_record:
  assumes "12 + length body < 65536"
  shows "flight_loop (hs_record ty sq mseq body @ rest) fl =
    (case flight_message (hs_message ty mseq body) fl of None \<Rightarrow> None | Some fl1 \<Rightarrow> flight_loop rest fl1)"
proof -
  have r: "unat (read_be16 (drop 11 (hs_record ty sq mseq body @ rest))) = 12 + length body"
    using u16_of_nat [OF assms] by (simp add: hs_record_def)
  have t: "take (12 + length body) (drop 13 (hs_record ty sq mseq body @ rest)) = hs_message ty mseq body"
    "drop (13 + (12 + length body)) (hs_record ty sq mseq body @ rest) = rest"
    "(hs_record ty sq mseq body @ rest) ! 0 = 0x16"
    by (simp_all add: hs_record_def nth_append)
  show ?thesis unfolding flight_loop.simps [of "hs_record ty sq mseq body @ rest"] Let_def r t by simp
qed

section \<open>What the client has to send\<close>

text \<open>
  The client's messages by the fields the specifications give them: the ClientHello (version,
  random, no session id and no cookie, the three suites, no compression, the extensions) and
  its record, which has the version of DTLS 1.0; and the key exchange with the PSK identity and
  the X25519 key.
\<close>

definition client_hello_body :: "bytes \<Rightarrow> bytes" where
  "client_hello_body random =
     [0xfe, 0xfd] @ random @ [0, 0] @ be16 6 @ be16 0xC038 @ be16 0xCCAC @ be16 0x00FF @ [1, 0] @ kExtensions"

definition hello_record :: "bytes \<Rightarrow> bytes" where
  "hello_record random =
     [0x16, 0xfe, 0xff] @ replicate 8 0 @ be16 (of_nat (12 + length (client_hello_body random)))
     @ hs_message 0x01 0 (client_hello_body random)"

definition key_exchange :: "string \<Rightarrow> bytes \<Rightarrow> bytes" where
  "key_exchange account cpub =
     (let identity = bytes_of_string (''AUTHPWD_'' @ account)
      in be16 (of_nat (length identity)) @ identity @ [32] @ cpub)"

lemma hello_built:
  "build_client_hello ds = (hello_record (client_random ds), hs_message 0x01 0 (client_hello_body (client_random ds)))"
proof -
  have hdr: "put_at 2 [0xff] (build_dtls_record_hdr 0x16 0 0 n) = [0x16, 0xfe, 0xff] @ replicate 8 0 @ be16 n" for n
  proof -
    have "be16 0 @ be48 0 = replicate 8 0" by code_simp
    then have "build_dtls_record_hdr 0x16 0 0 n = 0x16 # 0xfe # 0xfd # replicate 8 0 @ be16 n"
      unfolding build_dtls_record_hdr_def by (simp only: append_assoc [symmetric]) simp
    then show ?thesis by (simp add: put_at_def)
  qed
  have suites: "kCipherSuites = be16 0xC038 @ be16 0xCCAC @ be16 0x00FF" "[0x00, of_nat (length kCipherSuites)] = be16 6" by code_simp+
  have body: "[0xfe, 0xfd] @ random @ [0x00, 0x00, 0x00, of_nat (length kCipherSuites)] @ kCipherSuites @ [0x01, 0x00] @ kExtensions =
      client_hello_body random" for random
    using suites by (simp add: client_hello_body_def)
  show ?thesis unfolding build_client_hello_def Let_def body hdr by (simp add: hello_record_def hs_message_def)
qed

lemma length_hello:
  "length random = 32 \<Longrightarrow> length (hello_record random) = 155"
  by (simp add: hello_record_def client_hello_body_def kExtensions_def)

lemma be16_of_nat:
  assumes "n < 65536"
  shows "be16 (of_nat n) = [of_nat (n div 256), of_nat n]"
proof -
  have v: "unat (of_nat n :: u16) = n" by (rule u16_of_nat [OF assms])
  have "unat (drop_bit 8 (of_nat n :: u16)) = n div 256"
    by (simp add: unat_drop_bit_eq v drop_bit_eq_div [where 'a = nat])
  then have "(ucast (drop_bit 8 (of_nat n :: u16)) :: byte) = of_nat (n div 256)" by (metis of_nat_unat)
  moreover have "(ucast (of_nat n :: u16) :: byte) = of_nat n" using v by (metis of_nat_unat)
  ultimately show ?thesis by (simp add: be16_def)
qed

lemma key_exchange_built:
  assumes "length account \<le> 1000"
  shows "client_key_exchange account cpub = key_exchange account cpub"
proof -
  have "length (bytes_of_string (''AUTHPWD_'' @ account)) < 65536" using assms by simp
  from be16_of_nat [OF this] show ?thesis unfolding client_key_exchange_def key_exchange_def Let_def by simp
qed

lemma done_message: "kServerHelloDone = hs_message 0x0e 2 []"
  by (simp add: kServerHelloDone_def hs_message_def build_dtls_hs_hdr_def be24_def be16_def)

section \<open>Lemmas: the server's flight\<close>

fun ext_bytes :: "(u16 \<times> bytes) list \<Rightarrow> bytes" where
  "ext_bytes [] = []"
| "ext_bytes ((ty, d) # es) = be16 ty @ be16 (of_nat (length d)) @ d @ ext_bytes es"

definition server_hello :: "bytes \<Rightarrow> bytes \<Rightarrow> u16 \<Rightarrow> (u16 \<times> bytes) list \<Rightarrow> bytes" where
  "server_hello random session_id suite exts =
     [0xfe, 0xfd] @ random @ [of_nat (length session_id)] @ session_id @ be16 suite @ [0]
     @ be16 (of_nat (length (ext_bytes exts))) @ ext_bytes exts"

definition server_key :: "bytes \<Rightarrow> bytes \<Rightarrow> bytes" where
  "server_key pub signature = [0, 0, 0x03, 0x00, 0x1d, 32] @ pub @ signature"

lemma ext_loop_exts:
  "\<forall>x \<in> set exts. length (snd x) < 65536 \<Longrightarrow>
   ext_loop (pre @ ext_bytes exts) (length pre) (length pre + length (ext_bytes exts)) ds =
   ds\<lparr>use_etm := use_etm ds \<or> 0x16 \<in> fst ` set exts, use_ems := use_ems ds \<or> 0x17 \<in> fst ` set exts\<rparr>"
proof (induction exts arbitrary: pre ds)
  case Nil
  then show ?case by (simp add: ext_loop.simps)
next
  case (Cons x exts)
  obtain ty d where x: "x = (ty, d)" by fastforce
  let ?body = "pre @ ext_bytes (x # exts)" and ?pre = "pre @ be16 ty @ be16 (of_nat (length d)) @ d"
  have r: "read_be16 (drop (length pre) ?body) = ty"
    "unat (read_be16 (drop (length pre + 2) ?body)) = length d"
    using Cons.prems u16_of_nat [of "length d"] by (simp_all add: x)
  have same: "?body = ?pre @ ext_bytes exts" "length ?pre = length pre + (4 + length d)"
    "length pre + length (ext_bytes (x # exts)) = length ?pre + length (ext_bytes exts)"
    by (simp_all add: x)
  have go: "length pre + 4 \<le> length pre + length (ext_bytes (x # exts))" by (simp add: x)
  show ?case
    unfolding ext_loop.simps [of ?body "length pre"] Let_def r
    using go Cons.IH [of ?pre] Cons.prems unfolding same(2) [symmetric] same(1,3) by (simp add: x)
qed

lemma parse_server_hello_built:
  assumes "length random = 32" "length sid \<le> 32" "length (ext_bytes exts) < 65536"
    "\<forall>x \<in> set exts. length (snd x) < 65536" "\<not> use_etm ds" "\<not> use_ems ds"
  shows "parse_server_hello (server_hello random sid suite exts) ds =
    Some (ds\<lparr>server_random := random, cipher_suite := suite, use_etm := 0x16 \<in> fst ` set exts, use_ems := 0x17 \<in> fst ` set exts\<rparr>)"
proof -
  let ?b = "server_hello random sid suite exts"
  define pre where "pre = [0xfe, 0xfd] @ random @ [of_nat (length sid)] @ sid @ be16 suite @ [0] @ be16 (of_nat (length (ext_bytes exts)))"
  have b: "?b = pre @ ext_bytes exts" and lp: "length pre = 40 + length sid"
    using assms(1) by (simp_all add: server_hello_def pre_def)
  have s: "unat (?b ! 34) = length sid"
    using assms(1,2) u8_of_nat [of "length sid"] by (simp add: server_hello_def nth_append)
  have f: "take 32 (drop 2 ?b) = random" "read_be16 (drop (35 + length sid) ?b) = suite"
    "unat (read_be16 (drop (38 + length sid) ?b)) = length (ext_bytes exts)"
    using assms(1,3) u16_of_nat [of "length (ext_bytes exts)"]
      be16.dec_after [of "[0xfe, 0xfd] @ random @ [of_nat (length sid)] @ sid" "35 + length sid" suite]
      be16.dec_after [of "[0xfe, 0xfd] @ random @ [of_nat (length sid)] @ sid @ be16 suite @ [0]" "38 + length sid"]
    by (simp_all add: server_hello_def del: drop_append)
  have l: "length ?b = length pre + length (ext_bytes exts)" "40 \<le> length ?b" using b lp by simp_all
  let ?ds = "ds\<lparr>server_random := random, cipher_suite := suite\<rparr>"
  have "ext_loop ?b (40 + length sid) (40 + length sid + length (ext_bytes exts)) ?ds =
      ?ds\<lparr>use_etm := 0x16 \<in> fst ` set exts, use_ems := 0x17 \<in> fst ` set exts\<rparr>"
    using ext_loop_exts [OF assms(4), of pre ?ds] assms(5,6) unfolding b lp by simp
  then show ?thesis unfolding parse_server_hello_def Let_def s using f l lp by (simp add: add.commute)
qed

lemma parse_server_key_built: "length pub = 32 \<Longrightarrow> parse_server_key (server_key pub signature) = Some pub"
  by (simp add: parse_server_key_def server_key_def read_be16_def)

definition server_flight :: "bytes \<Rightarrow> bytes \<Rightarrow> u16 \<Rightarrow> (u16 \<times> bytes) list \<Rightarrow> bytes \<Rightarrow> bytes \<Rightarrow> bytes" where
  "server_flight random sid suite exts pub signature =
     hs_record 0x02 0 0 (server_hello random sid suite exts) @ hs_record 0x0c 1 1 (server_key pub signature)
     @ hs_record 0x0e 2 2 []"

lemma flight_built:
  fixes ds :: dtls_session
  assumes "length random = 32" "length sid \<le> 32" "length pub = 32" "suite = 0xC038 \<or> suite = 0xCCAC"
    "\<forall>x \<in> set exts. length (snd x) < 65536" "length (server_flight random sid suite exts pub signature) < 65536"
  shows "parse_server_hello_flight (server_flight random sid suite exts pub signature) ds tr =
    Some (ds\<lparr>server_random := random, cipher_suite := suite, use_etm := 0x16 \<in> fst ` set exts, use_ems := 0x17 \<in> fst ` set exts\<rparr>,
      tr @ hs_message 0x02 0 (server_hello random sid suite exts) @ hs_message 0x0c 1 (server_key pub signature) @ kServerHelloDone,
      pub)"
proof -
  let ?h = "server_hello random sid suite exts" and ?k = "server_key pub signature"
  let ?f = "server_flight random sid suite exts pub signature"
  have l: "12 + length ?h < 65536" "12 + length ?k < 65536" "length (ext_bytes exts) < 65536"
    using assms(6) by (simp_all add: server_flight_def server_hello_def server_key_def)
  let ?ds = "ds\<lparr>cipher_suite := 0, use_ems := False, use_etm := False\<rparr>"
  have h: "parse_server_hello ?h ?ds = Some (ds\<lparr>server_random := random, cipher_suite := suite,
      use_etm := 0x16 \<in> fst ` set exts, use_ems := 0x17 \<in> fst ` set exts\<rparr>)" (is "_ = Some ?ds1")
    using parse_server_hello_built [OF assms(1,2) l(3) assms(5), of ?ds suite] by simp
  have last: "flight_loop (hs_record 0x0e 2 2 []) fl = flight_message (hs_message 0x0e 2 []) fl" for fl
    using flight_loop_record [of "[]" "0x0e" 2 2 "[]" fl] by (simp add: flight_loop.simps [of "[]"] split: option.splits)
  have "flight_loop ?f (?ds, tr, None) = Some (?ds1, tr @ hs_message 0x02 0 ?h @ hs_message 0x0c 1 ?k @ kServerHelloDone, Some pub)"
    using l h parse_server_key_built [OF assms(3)]
    by (simp add: server_flight_def flight_loop_record flight_message_hs last Let_def)
  moreover have "?f ! 0 = 0x16" "?f ! 13 = 0x02" "60 \<le> length ?f"
    using assms(1) by (simp_all add: server_flight_def hs_record_def nth_append hs_message_def build_dtls_hs_hdr_def server_hello_def server_key_def)
  ultimately show ?thesis using assms(4) unfolding parse_server_hello_flight_def by auto
qed

section \<open>Lemmas: the server's last flight\<close>

definition ccs_record :: "u64 \<Rightarrow> bytes" where
  "ccs_record sq = build_dtls_record_hdr 0x14 0 sq 1 @ [0x01]"

lemma scan_handshake:
  assumes "12 + length body < 65536"
  shows "scan_finished (hs_record ty sq mseq body @ rest) tr = scan_finished rest (tr @ hs_message ty mseq body)"
proof -
  let ?r = "hs_record ty sq mseq body @ rest"
  have r: "unat (read_be16 (drop 11 ?r)) = 12 + length body"
    using u16_of_nat [OF assms] by (simp add: hs_record_def)
  have t: "drop 13 (take (13 + (12 + length body)) ?r) = hs_message ty mseq body" "drop (13 + (12 + length body)) ?r = rest"
    "?r ! 0 = 0x16" "read_be16 (drop 3 ?r) = 0"
    by (simp_all add: hs_record_def nth_append)
  show ?thesis unfolding scan_finished.simps [of ?r] Let_def r t by simp
qed

lemma scan_tickets:
  "\<forall>b \<in> set bodies. 12 + length b < 65536 \<Longrightarrow>
   scan_finished (concat (map (hs_record ty sq mseq) bodies) @ rest) tr =
   scan_finished rest (tr @ concat (map (hs_message ty mseq) bodies))"
  by (induction bodies arbitrary: tr) (auto simp: scan_handshake)

lemma scan_ccs: "scan_finished (ccs_record sq @ rest) tr = scan_finished rest tr"
proof -
  let ?r = "ccs_record sq @ rest"
  have r: "unat (read_be16 (drop 11 ?r)) = 1" "drop (13 + 1) ?r = rest" "?r ! 0 = 0x14"
    by (simp_all add: ccs_record_def nth_append)
  show ?thesis unfolding scan_finished.simps [of ?r] Let_def r by (simp add: ccs_record_def)
qed

lemma scan_protected:
  assumes "unat n = length payload" "e \<noteq> 0"
  shows "scan_finished (build_dtls_record_hdr 0x16 e sq n @ payload) tr = Scan_finished (build_dtls_record_hdr 0x16 e sq n @ payload) tr"
proof -
  let ?r = "build_dtls_record_hdr 0x16 e sq n @ payload"
  have r: "unat (read_be16 (drop 11 ?r)) = length payload" "?r ! 0 = 0x16" "read_be16 (drop 3 ?r) = e"
    using assms by (simp_all add: nth_append)
  show ?thesis unfolding scan_finished.simps [of ?r] Let_def r using assms(2) by simp
qed

section \<open>Lemmas: both ends\<close>

text \<open>The server's view of a session: what it writes with is what the client reads with.\<close>

definition server_end :: "dtls_session \<Rightarrow> dtls_session" where
  "server_end ds = ds\<lparr>client_write_key := server_write_key ds, server_write_key := client_write_key ds,
     client_write_iv := server_write_iv ds, server_write_iv := client_write_iv ds,
     client_write_mac_key := server_write_mac_key ds, server_write_mac_key := client_write_mac_key ds,
     dtls_epoch := 1, tx_seq := 0\<rparr>"

text \<open>What a server derives its keys from.\<close>

definition server_base :: "bytes \<Rightarrow> bytes \<Rightarrow> u16 \<Rightarrow> (u16 \<times> bytes) list \<Rightarrow> dtls_session" where
  "server_base random srandom suite exts =
     zero_session\<lparr>client_random := random, server_random := srandom, cipher_suite := suite,
       use_etm := 0x16 \<in> fst ` set exts, use_ems := 0x17 \<in> fst ` set exts\<rparr>"

lemma suite_prf_local: "suite_prf c (ds\<lparr>ds_relay_tag := t, pkt_seq := n\<rparr>) = suite_prf c ds"
  "suite_prf c (ds\<lparr>master_secret := m\<rparr>) = suite_prf c ds"
  "transcript_hash c (ds\<lparr>ds_relay_tag := t, pkt_seq := n\<rparr>) = transcript_hash c ds"
  by (simp_all add: fun_eq_iff suite_prf_def transcript_hash_def)

lemma derive_keys_local:
  "derive_session_keys c (ds\<lparr>ds_relay_tag := t, pkt_seq := n\<rparr>) pm tr = (derive_session_keys c ds pm tr)\<lparr>ds_relay_tag := t, pkt_seq := n\<rparr>"
  unfolding derive_session_keys_def Let_def suite_prf_local
  by (cases "cipher_suite ds = 0xC038") (cases ds, simp only: dtls_session.simps if_True if_False simp_thms suite_prf_local)+

lemma derive_keys_ivs:
  assumes "hmac_sized c" "length (client_write_iv ds) = 16" "length (server_write_iv ds) = 16"
  shows "length (client_write_iv (derive_session_keys c ds pm tr)) = 16" "length (server_write_iv (derive_session_keys c ds pm tr)) = 16"
  using assms by (simp_all add: derive_session_keys_def Let_def suite_prf_length)

lemma derive_keys_suite [simp]: "cipher_suite (derive_session_keys c ds pm tr) = cipher_suite ds"
  by (simp add: derive_session_keys_def Let_def)

lemma verify_data_cong:
  "cipher_suite a = cipher_suite b \<Longrightarrow> master_secret a = master_secret b \<Longrightarrow>
   finished_verify_data c a tr l = finished_verify_data c b tr l"
  by (simp add: finished_verify_data_def suite_prf_def transcript_hash_def)

lemma verify_data_length: "hmac_sized c \<Longrightarrow> length (finished_verify_data c ds tr l) = 12"
  by (simp add: finished_verify_data_def suite_prf_length)

section \<open>Lemmas: sending\<close>

lemma sendto_ok: "u_send_ok u = [] \<Longrightarrow> sendto dst pkt u = (True, u\<lparr>u_out := u_out u @ [(dst, pkt)]\<rparr>)"
  by (simp add: sendto_def)

definition wire_dgram :: "addr \<Rightarrow> bytes \<Rightarrow> bytes \<Rightarrow> u16 \<Rightarrow> u32 \<Rightarrow> bytes" where
  "wire_dgram dst token data sq tag =
     (let p = dtls_datagram dst 0 token data sq tag in scramble_first (min (length p) kDataScrambleLen) p)"

lemma send_dtls_ok:
  "u_send_ok u = [] \<Longrightarrow> length data \<le> 2020 \<Longrightarrow>
   send_dtls_packet dst 0 token data sq tag u = (True, u\<lparr>u_out := u_out u @ [(dst, wire_dgram dst token data sq tag)]\<rparr>)"
  by (simp add: send_dtls_packet_def sendto_ok wire_dgram_def Let_def)

lemma wire_carries:
  "length token = 8 \<Longrightarrow> data \<noteq> [] \<Longrightarrow> hd data \<in> {0x14, 0x15, 0x16} \<Longrightarrow> length data \<le> 2020 \<Longrightarrow>
   carries (wire_dgram dst token data sq tag) data"
  using dtls_datagram_carries(1) [of token data dst 0 sq tag] by (simp add: wire_dgram_def Let_def)

lemma hello_loop_first:
  assumes "u_in u = Dgram dst dgram # es" "carries dgram data" "13 \<le> length data" "length data \<le> 1024"
  shows "hello_loop 3 False f dst u = (Some data, u\<lparr>u_in := es\<rparr>)"
  using recv_carried [OF assms(2,4), of dst es u] assms(1,3)
  by (simp add: numeral_3_eq_3 recv_dtls_packet_def)

lemma record_protected:
  assumes "cbc_inverse c" "aead_inverse c" "hmac_sized c" "length iv = 16" "12 \<le> length (client_write_iv ds)" "length plain \<le> kMaxRecordPlaintext"
  shows "\<exists>r. dtls_encrypt_record c (Some iv) ds ct plain = Some (r, ds\<lparr>tx_seq := tx_seq ds + 1\<rparr>)"
proof -
  have "peer_of ds (zero_session\<lparr>cipher_suite := cipher_suite ds, server_write_key := client_write_key ds,
    server_write_mac_key := client_write_mac_key ds, server_write_iv := client_write_iv ds\<rparr>)" by (simp add: peer_of_def)
  from protected_record [OF assms(1-5) this assms(6) order_refl] show ?thesis by blast
qed

section \<open>Lemmas: the run\<close>

text \<open>
  What the printer demands of the client's second flight before it answers: the key exchange,
  the change of cipher and a record of epoch 1 that opens under the printer's keys and holds the
  Finished for the printer's transcript.
\<close>

definition printer_accepts :: "crypto \<Rightarrow> dtls_session \<Rightarrow> bytes \<Rightarrow> string \<Rightarrow> bytes \<Rightarrow> bytes \<Rightarrow> bool" where
  "printer_accepts c server tr account cpub flight \<longleftrightarrow>
     (\<exists>rec. flight = hs_record 0x10 1 1 (key_exchange account cpub) @ ccs_record 2 @ rec \<and>
        take 11 rec = [0x16, 0xfe, 0xfd] @ be16 1 @ be48 0 \<and>
        dtls_decrypt_record c server rec 64 = Some (hs_message 0x14 2 (finished_verify_data c server tr ''client finished'')))"

text \<open>The client's second flight is ready, and its session is the server's seen from the other side.\<close>

lemma client_finish_ready:
  fixes base :: dtls_session and c tr passwd account cpub ecdh
  assumes "hmac_sized c" "aead_inverse c" "cbc_inverse c" "length iv = 16" "length account \<le> 1000" "length cpub = 32"
    "length (client_write_iv base) = 16" "length (server_write_iv base) = 16"
  defines "tr1 \<equiv> tr @ hs_message 0x10 1 (key_exchange account cpub)"
  defines "keys \<equiv> derive_session_keys c base (premaster_secret c passwd ecdh) tr1"
  obtains flight2 where
    "client_finish c (Some iv) passwd account (base\<lparr>ds_relay_tag := tag, pkt_seq := n\<rparr>) tr (cpub, ecdh) =
      Some (keys\<lparr>ds_relay_tag := tag, pkt_seq := n, dtls_epoch := 1, tx_seq := 1\<rparr>,
        tr1 @ hs_message 0x14 2 (finished_verify_data c keys tr1 ''client finished''), flight2)"
    "length flight2 \<le> 2020" "printer_accepts c (server_end keys) tr1 account cpub flight2"
proof -
  let ?d = "keys\<lparr>ds_relay_tag := tag, pkt_seq := n, dtls_epoch := 1, tx_seq := 0\<rparr>"
  let ?fin = "build_dtls_hs_hdr 0x14 12 2 @ finished_verify_data c keys tr1 ''client finished''"
  let ?cke = "key_exchange account cpub"
  have lf: "length ?fin = 24" using verify_data_length [OF assms(1)] by (simp add: build_dtls_hs_hdr_def)
  have vd: "finished_verify_data c ds tr1 ''client finished'' = finished_verify_data c keys tr1 ''client finished''"
    if "cipher_suite ds = cipher_suite keys" "master_secret ds = master_secret keys" for ds
    using that by (rule verify_data_cong)
  have fin: "?fin = hs_message 0x14 2 (finished_verify_data c keys tr1 ''client finished'')"
    using verify_data_length [OF assms(1)] by (simp add: hs_message_def)
  have ivs: "length (client_write_iv keys) = 16" unfolding keys_def using derive_keys_ivs(1) assms(1,7,8) by blast
  have peer: "peer_of ?d (server_end keys)" by (simp add: peer_of_def server_end_def)
  obtain rec where rec: "dtls_encrypt_record c (Some iv) ?d 0x16 ?fin = Some (rec, ?d\<lparr>tx_seq := tx_seq ?d + 1\<rparr>)"
      "dtls_decrypt_record c (server_end keys) rec 64 = Some ?fin"
    using protected_record [OF assms(3,2,1,4) _ peer, of ?fin 64 "0x16"] lf ivs by (auto simp: kMaxRecordPlaintext_def)
  obtain n' payload where sh: "rec = build_dtls_record_hdr 0x16 1 0 n' @ payload" "length payload \<le> 24 + 96"
    using protected_shape [OF assms(1,2,4) _ rec(1)] ivs lf by auto
  let ?f2 = "hs_record 0x10 1 1 ?cke @ ccs_record 2 @ rec"
  have "length ?cke \<le> 1100" using assms(5,6) by (simp add: key_exchange_def Let_def)
  then have l: "length ?f2 \<le> 2020" using sh by (simp add: ccs_record_def)
  have acc: "printer_accepts c (server_end keys) tr1 account cpub ?f2"
    unfolding printer_accepts_def using sh(1) rec(2) vd [of "server_end keys"] fin
    by (intro exI [of _ rec]) (simp add: build_dtls_record_hdr_def server_end_def)
  have t1: "tr @ build_dtls_hs_hdr 0x10 (of_nat (length ?cke)) 1 @ ?cke = tr1" by (simp add: tr1_def hs_message_def)
  have k: "derive_session_keys c (base\<lparr>ds_relay_tag := tag, pkt_seq := n\<rparr>) (premaster_secret c passwd ecdh) tr1 =
    keys\<lparr>ds_relay_tag := tag, pkt_seq := n\<rparr>" by (simp only: derive_keys_local keys_def)
  have "client_finish c (Some iv) passwd account (base\<lparr>ds_relay_tag := tag, pkt_seq := n\<rparr>) tr (cpub, ecdh) =
      Some (?d\<lparr>tx_seq := 1\<rparr>, tr1 @ ?fin, ?f2)"
    unfolding client_finish_def Let_def fst_conv snd_conv key_exchange_built [OF assms(5)] t1 k
    using rec(1) vd [of "keys\<lparr>ds_relay_tag := tag, pkt_seq := n\<rparr>"] by (simp add: hs_record_def hs_message_def ccs_record_def)
  then show thesis using that [OF _ l acc] unfolding fin by simp
qed

text \<open>The handshake, given what each of its steps yields on a socket that sends everything.\<close>

lemma handshake_run:
  fixes random relay_tag dst token uid_upper
  defines "ds0 \<equiv> zero_session\<lparr>ds_relay_tag := relay_tag, client_random := random, pkt_seq := 1\<rparr>"
  assumes "length random = 32" "u_send_ok u0 = []" "u_in u0 = Dgram dst d1 # Dgram dst d2 # es"
    and flight: "carries d1 raw" "13 \<le> length raw" "length raw \<le> 1024"
      "parse_server_hello_flight raw ds0 (hs_message 0x01 0 (client_hello_body random)) = Some (ds1, tr1, server_pub)"
    and "x25519 server_pub = Some kex" "client_finish c iv passwd account ds1 tr1 kex = Some (ds2, tr2, flight2)"
      "length flight2 \<le> 2020"
    and final: "carries d2 last_flight" "length last_flight \<le> 1024" "scan_finished last_flight tr2 = Scan_finished rec tr3"
      "dtls_decrypt_record c (ds2\<lparr>pkt_seq := pkt_seq ds2 + 1\<rparr>) rec 64 = Some fin" "24 \<le> length fin"
      "take 12 (drop 12 fin) = finished_verify_data c (ds2\<lparr>pkt_seq := pkt_seq ds2 + 1\<rparr>) tr3 ''server finished''"
    and "0 < rounds"
  defines "ctrl \<equiv> if uid_upper = [] then [] else [(dst, trans_code_partial (ctrl0x33 uid_upper token 0x02))]"
  defines "hello \<equiv> wire_dgram dst token (hello_record random) 0 relay_tag"
  shows "dtls_psk_handshake c (Some random) x25519 iv rounds dst token uid_upper passwd account relay_tag u0 =
    (Some (ds2\<lparr>pkt_seq := pkt_seq ds2 + 1, tx_seq := 1, rx_seq := 1, handshake_complete := True\<rparr>),
     u0\<lparr>u_in := es, u_out := u_out u0 @ [(dst, hello), (dst, hello)] @ ctrl @ [(dst, wire_dgram dst token flight2 (pkt_seq ds2) relay_tag)]\<rparr>)"
proof -
  have hl: "build_client_hello ds0 = (hello_record random, hs_message 0x01 0 (client_hello_body random))"
    by (simp add: hello_built ds0_def)
  have lh: "length (hello_record random) \<le> 2020" using length_hello [OF assms(2)] by simp
  let ?send = "send_dtls_packet dst 0 token (hello_record random) 0 relay_tag"
  let ?o2 = "u_out u0 @ [(dst, hello), (dst, hello)]"
  have s1: "?send u0 = (True, u0\<lparr>u_out := u_out u0 @ [(dst, hello)]\<rparr>)"
    using send_dtls_ok [OF assms(3) lh] by (simp add: hello_def)
  have s2: "?send (u0\<lparr>u_out := u_out u0 @ [(dst, hello)]\<rparr>) = (True, u0\<lparr>u_out := ?o2\<rparr>)"
    using send_dtls_ok [of "u0\<lparr>u_out := u_out u0 @ [(dst, hello)]\<rparr>", OF _ lh] assms(3) by (simp add: hello_def)
  have s3: "(if uid_upper \<noteq> [] then send_ctrl0x33 dst uid_upper token 0x02 (u0\<lparr>u_out := ?o2\<rparr>)
      else (True, u0\<lparr>u_out := ?o2\<rparr>)) = (True, u0\<lparr>u_out := ?o2 @ ctrl\<rparr>)"
    using assms(3) by (simp add: send_ctrl0x33_def sendto_ok ctrl_def)
  have h: "hello_loop 3 False ?send dst (u0\<lparr>u_out := ?o2 @ ctrl\<rparr>) = (Some raw, u0\<lparr>u_out := ?o2 @ ctrl, u_in := Dgram dst d2 # es\<rparr>)"
    using hello_loop_first [of "u0\<lparr>u_out := ?o2 @ ctrl\<rparr>", OF _ flight(1-3)] assms(4) by simp
  let ?o4 = "?o2 @ ctrl @ [(dst, wire_dgram dst token flight2 (pkt_seq ds2) relay_tag)]"
  have s4: "send_dtls_packet dst 0 token flight2 (pkt_seq ds2) relay_tag (u0\<lparr>u_out := ?o2 @ ctrl, u_in := Dgram dst d2 # es\<rparr>) =
      (True, u0\<lparr>u_in := Dgram dst d2 # es, u_out := ?o4\<rparr>)"
    using send_dtls_ok [of "u0\<lparr>u_out := ?o2 @ ctrl, u_in := Dgram dst d2 # es\<rparr>", OF _ \<open>length flight2 \<le> 2020\<close>] assms(3) by simp
  obtain r where r: "rounds = Suc r" using \<open>0 < rounds\<close> by (cases rounds) auto
  let ?ds3 = "ds2\<lparr>pkt_seq := pkt_seq ds2 + 1\<rparr>"
  have fin: "recv_server_finished c rounds dst ?ds3 tr2 (u0\<lparr>u_in := Dgram dst d2 # es, u_out := ?o4\<rparr>) =
      (Some (fin, tr3), u0\<lparr>u_in := es, u_out := ?o4\<rparr>)"
    using recv_carried [OF final(1,2), of dst es "u0\<lparr>u_in := Dgram dst d2 # es, u_out := ?o4\<rparr>"] final(3,4)
    by (simp add: r recv_dtls_packet_def)
  show ?thesis
    unfolding dtls_psk_handshake_def option.case Let_def ds0_def [symmetric] hl prod.case s1 snd_conv s2 s3 h
    using assms(9,10) flight(4) final(5,6) s4 fin by simp
qed

lemma length_member_concat: "x \<in> set xs \<Longrightarrow> length (f x) \<le> length (concat (map f xs))"
  by (induction xs) auto

lemma length_member_exts: "x \<in> set exts \<Longrightarrow> length (snd x) \<le> length (ext_bytes exts)"
  by (induction exts rule: ext_bytes.induct) auto

lemma base_session:
  "length (client_write_iv (server_base random srandom suite exts)) = 16"
  "length (server_write_iv (server_base random srandom suite exts)) = 16"
  "cipher_suite (server_base random srandom suite exts) = suite"
  by (simp_all add: server_base_def zero_session_def)

text \<open>The client accepts the Finished of a server that shares its keys and its transcript.\<close>

lemma finished_accepted:
  fixes c server tr2 ds
  defines "fin \<equiv> hs_message 0x14 3 (finished_verify_data c server tr2 ''server finished'')"
  assumes crypto: "hmac_sized c" "aead_inverse c" "cbc_inverse c" "length siv = 16" "12 \<le> length (client_write_iv server)"
    and "dtls_encrypt_record c (Some siv) server 0x16 fin = Some (rec, server')" "dtls_epoch server = 1"
    and "tr2 = tr @ concat (map (hs_message 0x04 3) tickets)" "length (concat (map (hs_record 0x04 3 3) tickets)) \<le> 1024"
    and same: "peer_of server ds" "master_secret ds = master_secret server"
  shows "scan_finished (concat (map (hs_record 0x04 3 3) tickets) @ ccs_record 4 @ rec) tr = Scan_finished rec tr2"
    and "dtls_decrypt_record c ds rec 64 = Some fin" "24 \<le> length fin"
    and "take 12 (drop 12 fin) = finished_verify_data c ds tr2 ''server finished''"
proof -
  note vl = verify_data_length [OF crypto(1)]
  obtain n payload where rec: "rec = build_dtls_record_hdr 0x16 1 (tx_seq server) n @ payload" "unat n = length payload"
    using protected_shape [OF crypto(1,2,4,5) assms(7)] assms(8) by auto
  have tk: "\<forall>b \<in> set tickets. 12 + length b < 65536"
    using length_member_concat [of _ tickets "hs_record 0x04 3 3"] assms(10) by fastforce
  show "scan_finished (concat (map (hs_record 0x04 3 3) tickets) @ ccs_record 4 @ rec) tr = Scan_finished rec tr2"
    using scan_protected [OF rec(2), of 1 "tx_seq server"] rec(1) assms(9) unfolding scan_tickets [OF tk] scan_ccs by simp
  show "dtls_decrypt_record c ds rec 64 = Some fin"
    using protected_record [OF crypto(3,2,1,4,5) same(1), of fin 64 "0x16"] assms(7) vl
    by (simp add: kMaxRecordPlaintext_def fin_def)
  show "24 \<le> length fin" using vl by (simp add: fin_def)
  have "drop 12 fin = finished_verify_data c server tr2 ''server finished''"
    using vl unfolding fin_def by (intro hs_message_fields(2)) simp
  moreover have "finished_verify_data c server tr2 ''server finished'' = finished_verify_data c ds tr2 ''server finished''"
    using same by (intro verify_data_cong) (simp_all add: peer_of_def)
  ultimately show "take 12 (drop 12 fin) = finished_verify_data c ds tr2 ''server finished''" using vl by simp
qed

section \<open>Lemmas: where messages come from\<close>

definition came_from :: "addr \<Rightarrow> udp_event list \<Rightarrow> bytes \<Rightarrow> bool" where
  "came_from dst es data \<longleftrightarrow> (\<exists>dgram. Dgram dst dgram \<in> set es \<and> data = drop 28 (descramble_rx (take 2048 dgram)))"

lemma came_from_mono: "came_from dst es data \<Longrightarrow> set es \<subseteq> set es' \<Longrightarrow> came_from dst es' data"
  by (auto simp: came_from_def)

lemma recv_loop_source:
  "recv_dtls_loop (Some dst) n es u = (r, u') \<Longrightarrow>
   set (u_in u') \<subseteq> set es \<and> (\<forall>d x. r = Some (d, x) \<longrightarrow> came_from dst es d)"
proof (induction es arbitrary: u)
  case (Cons e es)
  have mono: "came_from dst es d \<Longrightarrow> came_from dst (e # es) d" for d
    by (rule came_from_mono) auto
  have rest: "set (u_in u') \<subseteq> set (e # es) \<and> (\<forall>d x. r = Some (d, x) \<longrightarrow> came_from dst (e # es) d)"
    if "recv_dtls_loop (Some dst) n es v = (r, u')" for v
    using Cons.IH [OF that] mono by auto
  show ?case
  proof (cases e)
    case (Dgram src dgram)
    let ?raw = "descramble_rx (take 2048 dgram)"
    have "(\<exists>v. recv_dtls_loop (Some dst) n es v = (r, u')) \<or>
        src = dst \<and> r = Some (drop 28 ?raw, packet_epoch ?raw, take 8 (drop 20 ?raw)) \<and> u' = u\<lparr>u_in := es\<rparr>"
      using Cons.prems unfolding Dgram recv_dtls_loop.simps Let_def by (simp split: if_splits) blast+
    then show ?thesis
    proof
      assume "\<exists>v. recv_dtls_loop (Some dst) n es v = (r, u')"
      then show ?thesis using rest by blast
    qed (auto simp: Dgram came_from_def)
  next
    case Deadline
    then show ?thesis using Cons.prems by auto
  qed (use Cons.prems rest in auto)
qed auto

lemma recv_source:
  assumes "recv_dtls_packet (Some dst) n u = (r, u')"
  shows "set (u_in u') \<subseteq> set (u_in u)" "r = Some (d, x) \<Longrightarrow> came_from dst (u_in u) d"
  using recv_loop_source [of dst n "u_in u" u r u'] assms by (auto simp: recv_dtls_packet_def)

lemma hello_loop_source:
  assumes "\<forall>v. u_in (snd (f v)) = u_in v"
  shows "hello_loop n again f dst u = (r, u') \<Longrightarrow>
    set (u_in u') \<subseteq> set (u_in u) \<and> (\<forall>d. r = Some d \<longrightarrow> came_from dst (u_in u) d)"
proof (induction n arbitrary: again u)
  case (Suc n)
  let ?u1 = "if again then snd (f u) else u"
  have u1: "u_in ?u1 = u_in u" using assms by simp
  obtain p u2 where p: "recv_dtls_packet (Some dst) 1024 ?u1 = (p, u2)" by fastforce
  note src = recv_source [OF p, unfolded u1]
  have "(\<exists>d x. p = Some (d, x) \<and> r = Some d \<and> u' = u2) \<or> hello_loop n True f dst u2 = (r, u')"
    using Suc.prems p by (auto simp: Let_def split: option.splits if_splits)
  then show ?case
  proof
    assume "hello_loop n True f dst u2 = (r, u')"
    from Suc.IH [OF this] show ?thesis using src(1) came_from_mono [OF _ src(1)] by blast
  qed (use src in auto)
qed simp

lemma scan_source:
  "scan_finished raw tr = Scan_finished rec tr' \<Longrightarrow> (\<exists>pre post. raw = pre @ rec @ post) \<and> (\<exists>t. tr' = tr @ t)"
  "scan_finished raw tr = Scan_more tr' \<Longrightarrow> \<exists>t. tr' = tr @ t"
proof (induction raw tr rule: scan_finished.induct)
  case (1 raw tr)
  let ?n = "13 + unat (read_be16 (drop 11 raw))"
  have skip: "\<exists>pre post. drop ?n raw = pre @ rec @ post \<Longrightarrow> \<exists>pre post. raw = pre @ rec @ post" for rec
    by (metis append.assoc append_take_drop_id)
  have here: "\<exists>pre post. raw = pre @ take ?n raw @ post" by (metis append_Nil append_take_drop_id)
  { case 1
    then show ?case using "1.IH"(1,3) skip here
      unfolding scan_finished.simps [of raw] Let_def by (fastforce split: if_splits) }
  { case 2
    then show ?case using "1.IH"(2,4)
      unfolding scan_finished.simps [of raw] Let_def by (fastforce split: if_splits) }
qed

lemma finished_source:
  "recv_server_finished c n dst ds tr u = (Some (fin, tr'), u') \<Longrightarrow>
   \<exists>data pre rec post t. came_from dst (u_in u) data \<and> data = pre @ rec @ post \<and> tr' = tr @ t \<and> dtls_decrypt_record c ds rec 64 = Some fin"
proof (induction n arbitrary: tr u)
  case (Suc n)
  obtain p u1 where p: "recv_dtls_packet (Some dst) 1024 u = (p, u1)" by fastforce
  note src = recv_source [OF p]
  have more: ?case if "recv_server_finished c n dst ds (tr @ t0) u1 = (Some (fin, tr'), u')" for t0
  proof -
    from Suc.IH [OF that] obtain data pre rec post t where "came_from dst (u_in u1) data" "data = pre @ rec @ post" "tr' = (tr @ t0) @ t"
        "dtls_decrypt_record c ds rec 64 = Some fin" by blast
    then show ?thesis using came_from_mono [OF _ src(1)] by (intro exI [of _ data] exI [of _ pre] exI [of _ rec] exI [of _ post] exI [of _ "t0 @ t"]) simp
  qed
  show ?case
  proof (cases p)
    case None
    then show ?thesis using Suc.prems p more [of "[]"] by simp
  next
    case (Some q)
    obtain raw x where q: "q = (raw, x)" by (cases q)
    have cf: "came_from dst (u_in u) raw" using src(2) Some q by simp
    show ?thesis
    proof (cases "scan_finished raw tr")
      case (Scan_more t1)
      then show ?thesis using Suc.prems p Some q more scan_source(2) [OF Scan_more] by (auto split: prod.splits)
    next
      case (Scan_finished rec t1)
      obtain pre post t where "raw = pre @ rec @ post" "t1 = tr @ t" using scan_source(1) [OF Scan_finished] by blast
      then show ?thesis using Suc.prems p Some q Scan_finished cf by (cases x) auto
    qed (use Suc.prems p Some q in \<open>auto split: prod.splits\<close>)
  qed
qed simp

lemma decrypt_cong:
  "cipher_suite a = cipher_suite b \<Longrightarrow> server_write_key a = server_write_key b \<Longrightarrow> server_write_mac_key a = server_write_mac_key b \<Longrightarrow>
   server_write_iv a = server_write_iv b \<Longrightarrow> dtls_decrypt_record c a rec n = dtls_decrypt_record c b rec n"
  by (simp add: dtls_decrypt_record_def aead_open_def Let_def)

lemma client_finish_result:
  assumes "client_finish c iv passwd account ds tr (cpub, ecdh) = Some (ds2, tr2, fl)"
  defines "tr1 \<equiv> tr @ build_dtls_hs_hdr 0x10 (of_nat (length (client_key_exchange account cpub))) 1 @ client_key_exchange account cpub"
  defines "keys \<equiv> derive_session_keys c ds (premaster_secret c passwd ecdh) tr1"
  shows "ds2 = keys\<lparr>dtls_epoch := 1, tx_seq := 1\<rparr>"
    "tr2 = tr1 @ build_dtls_hs_hdr 0x14 12 2 @ finished_verify_data c keys tr1 ''client finished''"
  using assms(1) encrypt_advances [of c iv "keys\<lparr>dtls_epoch := 1, tx_seq := 0\<rparr>" "0x16"]
  unfolding client_finish_def Let_def fst_conv snd_conv tr1_def [symmetric] keys_def [symmetric]
  by (auto split: option.splits)

lemma flight_suite: "parse_server_hello_flight raw ds tr = Some (ds1, tr1, k) \<Longrightarrow> cipher_suite ds1 \<in> {0xC038, 0xCCAC}"
  by (auto simp: parse_server_hello_flight_def split: if_splits option.splits)

text \<open>The steps of a handshake that succeeded.\<close>

lemma handshake_steps:
  assumes "dtls_psk_handshake c rnd x25519 iv rounds dst token uid_upper passwd account tag u0 = (Some ds, u)"
  obtains random ds0 u3 f raw u4 ds1 tr1 spub kex ds2 tr2 fl u5 fin tr3 where
    "rnd = Some random" "ds0 = zero_session\<lparr>ds_relay_tag := tag, client_random := random, pkt_seq := 1\<rparr>"
    "u_in u3 = u_in u0" "\<forall>v. u_in (snd (f v)) = u_in v" "hello_loop 3 False f dst u3 = (Some raw, u4)"
    "parse_server_hello_flight raw ds0 (snd (build_client_hello ds0)) = Some (ds1, tr1, spub)" "x25519 spub = Some kex"
    "client_finish c iv passwd account ds1 tr1 kex = Some (ds2, tr2, fl)" "u_in u5 = u_in u4"
    "recv_server_finished c rounds dst (ds2\<lparr>pkt_seq := pkt_seq ds2 + 1\<rparr>) tr2 u5 = (Some (fin, tr3), u)" "24 \<le> length fin"
    "take 12 (drop 12 fin) = finished_verify_data c (ds2\<lparr>pkt_seq := pkt_seq ds2 + 1\<rparr>) tr3 ''server finished''"
    "ds = ds2\<lparr>pkt_seq := pkt_seq ds2 + 1, tx_seq := 1, rx_seq := 1, handshake_complete := True\<rparr>"
proof -
  obtain random where r: "rnd = Some random" using assms by (cases rnd) (simp_all add: dtls_psk_handshake_def)
  define ds0 where "ds0 = zero_session\<lparr>ds_relay_tag := tag, client_random := random, pkt_seq := 1\<rparr>"
  obtain hello tr where h: "build_client_hello ds0 = (hello, tr)" by (cases "build_client_hello ds0")
  define f where "f = send_dtls_packet dst 0 token hello 0 tag"
  obtain ok u1 where f1: "f u0 = (ok, u1)" by (cases "f u0")
  obtain ok2 u2 where f2: "f u1 = (ok2, u2)" by (cases "f u1")
  let ?ctl = "if uid_upper \<noteq> [] then send_ctrl0x33 dst uid_upper token 0x02 u2 else (True, u2)"
  obtain ok3 u3 where f3: "?ctl = (ok3, u3)" by (cases ?ctl)
  have fin_in: "\<forall>v. u_in (snd (f v)) = u_in v" by (simp add: f_def)
  then have "u_in u1 = u_in u0" "u_in u2 = u_in u1" using f1 f2 by (metis snd_conv)+
  moreover have "u_in u3 = u_in u2" using f3 by (cases "uid_upper = []") (simp_all, metis send_ctrl_in snd_conv)
  ultimately have u3: "u_in u3 = u_in u0" by simp
  note run = assms [unfolded dtls_psk_handshake_def r option.case Let_def ds0_def [symmetric] h prod.case f_def [symmetric] f1 snd_conv f2 f3]
  obtain raw u4 where hl: "hello_loop 3 False f dst u3 = (Some raw, u4)"
    using run by (cases "hello_loop 3 False f dst u3") (auto split: if_splits option.splits)
  obtain ds1 tr1 spub where pf: "parse_server_hello_flight raw ds0 tr = Some (ds1, tr1, spub)"
    using run hl by (auto split: if_splits option.splits)
  obtain kex where kx: "x25519 spub = Some kex" using run hl pf by (auto split: if_splits option.splits)
  obtain ds2 tr2 fl where cf: "client_finish c iv passwd account ds1 tr1 kex = Some (ds2, tr2, fl)"
    using run hl pf kx by (auto split: if_splits option.splits)
  obtain ok5 u5 where f5: "send_dtls_packet dst 0 token fl (pkt_seq ds2) tag u4 = (ok5, u5)"
    by (cases "send_dtls_packet dst 0 token fl (pkt_seq ds2) tag u4")
  have u5: "u_in u5 = u_in u4" using send_dtls_in [of dst 0 token fl "pkt_seq ds2" tag u4] f5 by simp
  let ?ds3 = "ds2\<lparr>pkt_seq := pkt_seq ds2 + 1\<rparr>"
  obtain fin tr3 u6 where rf: "recv_server_finished c rounds dst ?ds3 tr2 u5 = (Some (fin, tr3), u6)"
    using run hl pf kx cf f5 by (cases "recv_server_finished c rounds dst ?ds3 tr2 u5") (auto split: if_splits option.splits)
  show thesis
    by (rule that [OF r ds0_def u3 fin_in hl _ kx cf u5 _])
      (use run hl pf kx cf f5 rf h in \<open>auto split: if_splits\<close>)
qed

lemma honest_run:
  fixes c random srandom sid suite exts pub signature account cpub passwd ecdh tickets token
  defines "tr1 \<equiv> hs_message 0x01 0 (client_hello_body random) @ hs_message 0x02 0 (server_hello srandom sid suite exts)
    @ hs_message 0x0c 1 (server_key pub signature) @ hs_message 0x0e 2 [] @ hs_message 0x10 1 (key_exchange account cpub)"
  defines "server \<equiv> server_end (derive_session_keys c (server_base random srandom suite exts) (premaster_secret c passwd ecdh) tr1)"
  defines "tr2 \<equiv> tr1 @ hs_message 0x14 2 (finished_verify_data c server tr1 ''client finished'')
    @ concat (map (hs_message 0x04 3) tickets)"
  assumes crypto: "hmac_sized c" "aead_inverse c" "cbc_inverse c" "length iv = 16" "length siv = 16"
    and params: "length random = 32" "length srandom = 32" "length sid \<le> 32" "length pub = 32" "length cpub = 32"
      "suite = 0xC038 \<or> suite = 0xCCAC" "length account \<le> 1000" "length token = 8" "x25519 pub = Some (cpub, ecdh)"
    and hello: "carries d1 (server_flight srandom sid suite exts pub signature)"
      "length (server_flight srandom sid suite exts pub signature) \<le> 1024"
    and finished: "dtls_encrypt_record c (Some siv) server 0x16
        (hs_message 0x14 3 (finished_verify_data c server tr2 ''server finished'')) = Some (rec, server')"
      "carries d2 (concat (map (hs_record 0x04 3 3) tickets) @ ccs_record 4 @ rec)"
      "length (concat (map (hs_record 0x04 3 3) tickets) @ ccs_record 4 @ rec) \<le> 1024"
    and socket: "u_send_ok u0 = []" "u_in u0 = Dgram dst d1 # Dgram dst d2 # es" "0 < rounds"
  shows "\<exists>ds u h f flight2. dtls_psk_handshake c (Some random) x25519 (Some iv) rounds dst token uid_upper passwd account tag u0 = (Some ds, u) \<and>
    handshake_complete ds \<and> peer_of ds server \<and> peer_of server ds \<and> u_in u = es \<and>
    u_out u = u_out u0 @ [(dst, h), (dst, h)]
      @ (if uid_upper = [] then [] else [(dst, trans_code_partial (ctrl0x33 uid_upper token 0x02))]) @ [(dst, f)] \<and>
    carries h (hello_record random) \<and> carries f flight2 \<and> printer_accepts c server tr1 account cpub flight2"
proof -
  let ?base = "server_base random srandom suite exts" and ?flight = "server_flight srandom sid suite exts pub signature"
  let ?ds0 = "zero_session\<lparr>ds_relay_tag := tag, client_random := random, pkt_seq := 1\<rparr>"
  let ?hello = "hs_message 0x01 0 (client_hello_body random)"
  let ?tr = "?hello @ hs_message 0x02 0 (server_hello srandom sid suite exts) @ hs_message 0x0c 1 (server_key pub signature) @ hs_message 0x0e 2 []"
  define keys where "keys = derive_session_keys c ?base (premaster_secret c passwd ecdh) tr1"
  have tr1: "tr1 = ?tr @ hs_message 0x10 1 (key_exchange account cpub)" by (simp add: tr1_def)
  have sv: "server = server_end keys" by (simp add: server_def keys_def)
  have vd: "finished_verify_data c server tr l = finished_verify_data c keys tr l" for tr l
    by (rule verify_data_cong) (simp_all add: sv server_end_def)
  have "length (snd x) < 65536" if "x \<in> set exts" for x
    using length_member_exts [OF that] hello(2) by (simp add: server_flight_def server_hello_def)
  then have fl: "parse_server_hello_flight ?flight ?ds0 ?hello = Some (?base\<lparr>ds_relay_tag := tag, pkt_seq := 1\<rparr>, ?tr, pub)"
    using flight_built [OF params(2,3,4,6), of exts signature ?ds0 ?hello] hello(2) by (simp add: server_base_def done_message)
  obtain flight2 where cf: "client_finish c (Some iv) passwd account (?base\<lparr>ds_relay_tag := tag, pkt_seq := 1\<rparr>) ?tr (cpub, ecdh) =
      Some (keys\<lparr>ds_relay_tag := tag, pkt_seq := 1, dtls_epoch := 1, tx_seq := 1\<rparr>,
        tr1 @ hs_message 0x14 2 (finished_verify_data c keys tr1 ''client finished''), flight2)" "length flight2 \<le> 2020"
      "printer_accepts c (server_end keys) tr1 account cpub flight2"
    by (rule client_finish_ready [where base = ?base and tr = ?tr and passwd = passwd and ecdh = ecdh and tag = tag and n = 1,
          OF crypto(1-4) params(7,5) base_session(1,2), folded tr1 keys_def])
  let ?ds2 = "keys\<lparr>ds_relay_tag := tag, pkt_seq := 1, dtls_epoch := 1, tx_seq := 1\<rparr>"
  let ?ds3 = "?ds2\<lparr>pkt_seq := pkt_seq ?ds2 + 1\<rparr>"
  have ivs: "12 \<le> length (client_write_iv server)" "dtls_epoch server = 1" "peer_of server ?ds3" "master_secret ?ds3 = master_secret server"
    using derive_keys_ivs(2) [OF crypto(1) base_session(1,2)] by (simp_all add: sv server_end_def keys_def peer_of_def)
  let ?tr2 = "tr1 @ hs_message 0x14 2 (finished_verify_data c keys tr1 ''client finished'')"
  have tr2: "tr2 = ?tr2 @ concat (map (hs_message 0x04 3) tickets)" by (simp add: tr2_def vd)
  have l: "length (concat (map (hs_record 0x04 3 3) tickets)) \<le> 1024" "13 \<le> length ?flight"
    using finished(3) by (simp_all add: server_flight_def)
  note acc = finished_accepted [where tr = ?tr2 and ds = ?ds3, OF crypto(1-3,5) ivs(1) finished(1) ivs(2) tr2 l(1) ivs(3,4)]
  note run = handshake_run [where ?ds2.0 = ?ds2 and raw = ?flight and ?x25519.0 = x25519 and server_pub = pub and token = token and uid_upper = uid_upper,
      OF params(1) socket(1,2) hello(1) l(2) hello(2) fl params(9) cf(1,2) finished(2,3) acc socket(3)]
  have "flight2 \<noteq> [] \<and> hd flight2 = 0x16"
    using cf(3) by (auto simp: printer_accepts_def hs_record_def build_dtls_record_hdr_def)
  then have f: "carries (wire_dgram dst token flight2 (pkt_seq ?ds2) tag) flight2" by (intro wire_carries params(8) cf(2)) auto
  have "hello_record random \<noteq> [] \<and> hd (hello_record random) = 0x16" "length (hello_record random) \<le> 2020"
    using length_hello [OF params(1)] by (simp_all add: hello_record_def)
  then have h: "carries (wire_dgram dst token (hello_record random) 0 tag) (hello_record random)" by (intro wire_carries params(8)) auto
  have ends: "handshake_complete (?ds3\<lparr>tx_seq := 1, rx_seq := 1, handshake_complete := True\<rparr>)"
    "peer_of (?ds3\<lparr>tx_seq := 1, rx_seq := 1, handshake_complete := True\<rparr>) server"
    "peer_of server (?ds3\<lparr>tx_seq := 1, rx_seq := 1, handshake_complete := True\<rparr>)"
    by (simp_all add: peer_of_def sv server_end_def)
  show ?thesis
    by (rule exI, rule exI, rule exI [of _ "wire_dgram dst token (hello_record random) 0 tag"],
        rule exI [of _ "wire_dgram dst token flight2 (pkt_seq ?ds2) tag"], rule exI [of _ flight2], intro conjI, rule run, rule ends(1), rule ends(2), rule ends(3),
        simp, simp, rule h, rule f, rule cf(3) [folded sv])
qed

text \<open>A server for the primitives of \<open>toy_crypto\<close>.\<close>

definition demo_tr1 :: bytes where
  "demo_tr1 = hs_message 0x01 0 (client_hello_body (replicate 32 1))
    @ hs_message 0x02 0 (server_hello (replicate 32 4) [] 0xCCAC [(0x16, []), (0x17, [])])
    @ hs_message 0x0c 1 (server_key (replicate 32 5) [])
    @ hs_message 0x0e 2 [] @ hs_message 0x10 1 (key_exchange ''admin'' (replicate 32 2))"

definition demo_server :: dtls_session where
  "demo_server = server_end (derive_session_keys toy_crypto (server_base (replicate 32 1) (replicate 32 4) 0xCCAC [(0x16, []), (0x17, [])])
     (premaster_secret toy_crypto ''pw'' (replicate 32 3)) demo_tr1)"

definition demo_finished :: bytes where
  "demo_finished = hs_message 0x14 3 (finished_verify_data toy_crypto demo_server
     (demo_tr1 @ hs_message 0x14 2 (finished_verify_data toy_crypto demo_server demo_tr1 ''client finished'')
      @ concat (map (hs_message 0x04 3) [])) ''server finished'')"

lemma demo_answers:
  obtains d1 d2 rec server' where
    "carries d1 (server_flight (replicate 32 4) [] 0xCCAC [(0x16, []), (0x17, [])] (replicate 32 5) [])"
    "length (server_flight (replicate 32 4) [] 0xCCAC [(0x16, []), (0x17, [])] (replicate 32 5) []) \<le> 1024"
    "dtls_encrypt_record toy_crypto (Some (replicate 16 7)) demo_server 0x16 demo_finished = Some (rec, server')"
    "carries d2 (concat (map (hs_record 0x04 3 3) []) @ ccs_record 4 @ rec)"
    "length (concat (map (hs_record 0x04 3 3) []) @ ccs_record 4 @ rec) \<le> 1024"
proof -
  let ?tok = "[1, 2, 3, 4, 5, 6, 7, 8] :: bytes"
  let ?flight = "server_flight (replicate 32 4) [] 0xCCAC [(0x16, []), (0x17, [])] (replicate 32 5) []"
  have iv: "12 \<le> length (client_write_iv demo_server)"
    using derive_keys_ivs(2) [OF toy_crypto_ok(3) base_session(1,2)] by (simp add: demo_server_def server_end_def)
  have lf: "length demo_finished = 24" using verify_data_length [OF toy_crypto_ok(3)] by (simp add: demo_finished_def)
  have iv16: "length (replicate 16 7 :: bytes) = 16" by simp
  obtain rec server' where rec: "dtls_encrypt_record toy_crypto (Some (replicate 16 7)) demo_server 0x16 demo_finished = Some (rec, server')"
    using record_protected [OF toy_crypto_ok iv16 iv, of demo_finished "0x16"] lf by (auto simp: kMaxRecordPlaintext_def)
  obtain n payload where sh: "rec = build_dtls_record_hdr 0x16 (ucast (dtls_epoch demo_server)) (tx_seq demo_server) n @ payload"
      "length payload \<le> 24 + 96"
    using protected_shape [OF toy_crypto_ok(3,2) iv16 iv rec] unfolding lf by blast
  let ?last = "concat (map (hs_record 0x04 3 3) []) @ ccs_record 4 @ rec"
  have l: "length ?flight \<le> 1024" "length ?last \<le> 1024"
    using sh by (simp_all add: server_flight_def server_hello_def server_key_def ccs_record_def)
  have "?flight \<noteq> []" "hd ?flight \<in> {0x14, 0x15, 0x16}" "?last \<noteq> []" "hd ?last \<in> {0x14, 0x15, 0x16}"
    by (simp_all add: server_flight_def hs_record_def ccs_record_def build_dtls_record_hdr_def)
  then have "\<exists>d1. carries d1 ?flight" "\<exists>d2. carries d2 ?last"
    using dtls_datagram_carries(1) [of ?tok ?flight "(2, 6000)" 0 0 0] dtls_datagram_carries(1) [of ?tok ?last "(2, 6000)" 0 0 0] l by fastforce+
  then show thesis using that l rec by blast
qed

lemma demo_numbers:
  "length (replicate 16 7 :: bytes) = 16" "length (replicate 16 7 :: bytes) = 16"
  "length (replicate 32 1 :: bytes) = 32" "length (replicate 32 4 :: bytes) = 32" "length ([] :: bytes) \<le> 32" "length (replicate 32 5 :: bytes) = 32"
  "length (replicate 32 2 :: bytes) = 32" "(0xCCAC :: u16) = 0xC038 \<or> (0xCCAC :: u16) = 0xCCAC" "length ''admin'' \<le> 1000"
  "length ([1, 2, 3, 4, 5, 6, 7, 8] :: bytes) = 8" by simp_all

definition demo_exchange :: "bytes \<Rightarrow> (bytes \<times> bytes) option" where
  "demo_exchange pub = Some (replicate 32 2, replicate 32 3)"

lemma demo_socket: "u_send_ok \<lparr>u_in = [Dgram (1, 5000) d1, Dgram (1, 5000) d2], u_out = [], u_send_ok = []\<rparr> = []"
  "u_in \<lparr>u_in = [Dgram (1, 5000) d1, Dgram (1, 5000) d2], u_out = [], u_send_ok = []\<rparr> = Dgram (1, 5000) d1 # Dgram (1, 5000) d2 # []"
  "0 < (4 :: nat)" by simp_all

section \<open>Properties\<close>

text \<open>
  C36. An honest printer and the client agree, and each end gets what it demands. The client sends
  the ClientHello, and after the printer's hello and X25519 key a second flight the printer
  accepts: the key exchange with its identity and key, the change of cipher, and in epoch 1 a
  record that opens under the keys the printer derived from the password, the shared secret and
  its own transcript, and holds the Finished for that transcript. The printer's answer, any number
  of session tickets, the change of cipher and its Finished under these keys, completes the
  handshake, whatever was negotiated, and each end writes with the keys the other reads with.
  Besides these messages the client sends the punch control packet, if it knows the UID, and
  nothing. Needs that the primitives keep their contracts and that both ends computed the same
  X25519 secret.
\<close>

theorem dtls_handshake_completes:
  fixes c random srandom sid suite exts pub signature account cpub passwd ecdh tickets token
  defines "tr1 \<equiv> hs_message 0x01 0 (client_hello_body random) @ hs_message 0x02 0 (server_hello srandom sid suite exts)
    @ hs_message 0x0c 1 (server_key pub signature) @ hs_message 0x0e 2 [] @ hs_message 0x10 1 (key_exchange account cpub)"
  defines "server \<equiv> server_end (derive_session_keys c (server_base random srandom suite exts) (premaster_secret c passwd ecdh) tr1)"
  defines "tr2 \<equiv> tr1 @ hs_message 0x14 2 (finished_verify_data c server tr1 ''client finished'')
    @ concat (map (hs_message 0x04 3) tickets)"
  assumes crypto: "hmac_sized c" "aead_inverse c" "cbc_inverse c" "length iv = 16" "length siv = 16"
    and params: "length random = 32" "length srandom = 32" "length sid \<le> 32" "length pub = 32" "length cpub = 32"
      "suite = 0xC038 \<or> suite = 0xCCAC" "length account \<le> 1000" "length token = 8" "x25519 pub = Some (cpub, ecdh)"
    and hello: "carries d1 (server_flight srandom sid suite exts pub signature)"
      "length (server_flight srandom sid suite exts pub signature) \<le> 1024"
    and finished: "dtls_encrypt_record c (Some siv) server 0x16
        (hs_message 0x14 3 (finished_verify_data c server tr2 ''server finished'')) = Some (rec, server')"
      "carries d2 (concat (map (hs_record 0x04 3 3) tickets) @ ccs_record 4 @ rec)"
      "length (concat (map (hs_record 0x04 3 3) tickets) @ ccs_record 4 @ rec) \<le> 1024"
    and socket: "u_send_ok u0 = []" "u_in u0 = Dgram dst d1 # Dgram dst d2 # es" "0 < rounds"
  shows "\<exists>ds u h f flight2. dtls_psk_handshake c (Some random) x25519 (Some iv) rounds dst token uid_upper passwd account tag u0 = (Some ds, u) \<and>
    handshake_complete ds \<and> peer_of ds server \<and> peer_of server ds \<and> u_in u = es \<and>
    u_out u = u_out u0 @ [(dst, h), (dst, h)]
      @ (if uid_upper = [] then [] else [(dst, trans_code_partial (ctrl0x33 uid_upper token 0x02))]) @ [(dst, f)] \<and>
    carries h (hello_record random) \<and> carries f flight2 \<and> printer_accepts c server tr1 account cpub flight2"
  using assms(4-25) unfolding tr2_def server_def tr1_def by (rule honest_run [where ?x25519.0 = x25519 and c = c])

theorem dtls_handshake_completes_witness:
  "\<exists>d1 d2 ds u. dtls_psk_handshake toy_crypto (Some (replicate 32 1)) demo_exchange (Some (replicate 16 7))
     4 (1, 5000) [1, 2, 3, 4, 5, 6, 7, 8] ''UID'' ''pw'' ''admin'' 0
     \<lparr>u_in = [Dgram (1, 5000) d1, Dgram (1, 5000) d2], u_out = [], u_send_ok = []\<rparr> = (Some ds, u) \<and> handshake_complete ds \<and>
     (\<exists>h k f x. u_out u = [((1, 5000), h), ((1, 5000), h), ((1, 5000), k), ((1, 5000), f)] \<and> carries h (hello_record (replicate 32 1)) \<and>
        carries f x \<and> printer_accepts toy_crypto demo_server demo_tr1 ''admin'' (replicate 32 2) x)"
proof -
  obtain d1 d2 rec server' where d:
    "carries d1 (server_flight (replicate 32 4) [] 0xCCAC [(0x16, []), (0x17, [])] (replicate 32 5) [])"
    "length (server_flight (replicate 32 4) [] 0xCCAC [(0x16, []), (0x17, [])] (replicate 32 5) []) \<le> 1024"
    "dtls_encrypt_record toy_crypto (Some (replicate 16 7)) demo_server 0x16 demo_finished = Some (rec, server')"
    "carries d2 (concat (map (hs_record 0x04 3 3) []) @ ccs_record 4 @ rec)"
    "length (concat (map (hs_record 0x04 3 3) []) @ ccs_record 4 @ rec) \<le> 1024"
    by (rule demo_answers)
  note run = dtls_handshake_completes [where ?x25519.0 = demo_exchange and passwd = "''pw''" and ecdh = "replicate 32 3"
        and uid_upper = "''UID''" and tag = 0 and rounds = 4 and c = toy_crypto,
      OF toy_crypto_ok(3,2,1) demo_numbers demo_exchange_def d(1,2) d(3) [unfolded demo_finished_def demo_server_def demo_tr1_def] d(4,5) demo_socket,
      folded demo_tr1_def, folded demo_server_def]
  from run obtain ds u h f x where
    "dtls_psk_handshake toy_crypto (Some (replicate 32 1)) demo_exchange (Some (replicate 16 7))
     4 (1, 5000) [1, 2, 3, 4, 5, 6, 7, 8] ''UID'' ''pw'' ''admin'' 0
     \<lparr>u_in = [Dgram (1, 5000) d1, Dgram (1, 5000) d2], u_out = [], u_send_ok = []\<rparr> = (Some ds, u)" "handshake_complete ds"
    "u_out u = [((1, 5000), h), ((1, 5000), h), ((1, 5000), trans_code_partial (ctrl0x33 ''UID'' [1, 2, 3, 4, 5, 6, 7, 8] 0x02)), ((1, 5000), f)]"
    "carries h (hello_record (replicate 32 1))" "carries f x" "printer_accepts toy_crypto demo_server demo_tr1 ''admin'' (replicate 32 2) x"
    by auto
  then show ?thesis by blast
qed

text \<open>
  C37. A completed handshake has authenticated the printer. The session then uses one of the two
  offered suites, epoch 1 and keys derived from the password, an X25519 secret and the hellos;
  and in a datagram that came from the peer's address there was a record that opens under these
  keys and holds the verify data of exactly the messages this client has sent and received. No
  answer that cannot be opened or verified ends in a session.
\<close>

theorem handshake_authenticates:
  assumes "dtls_psk_handshake c rnd x25519 iv rounds dst token uid_upper passwd account tag u0 = (Some ds, u)"
  shows "handshake_complete ds \<and> dtls_epoch ds = 1 \<and> tx_seq ds = 1 \<and> cipher_suite ds \<in> {0xC038, 0xCCAC} \<and>
    (\<exists>random ds0 raw ds1 tr1 server_pub cpub ecdh.
       rnd = Some random \<and> ds0 = zero_session\<lparr>ds_relay_tag := tag, client_random := random, pkt_seq := 1\<rparr> \<and>
       came_from dst (u_in u0) raw \<and> parse_server_hello_flight raw ds0 (snd (build_client_hello ds0)) = Some (ds1, tr1, server_pub) \<and>
       x25519 server_pub = Some (cpub, ecdh) \<and>
       (let cke = client_key_exchange account cpub;
            tr2 = tr1 @ build_dtls_hs_hdr 0x10 (of_nat (length cke)) 1 @ cke;
            keys = derive_session_keys c ds1 (premaster_secret c passwd ecdh) tr2;
            tr3 = tr2 @ build_dtls_hs_hdr 0x14 12 2 @ finished_verify_data c keys tr2 ''client finished''
        in master_secret ds = master_secret keys \<and> client_write_key ds = client_write_key keys \<and>
           (\<exists>data pre rec post fin tickets. came_from dst (u_in u0) data \<and> data = pre @ rec @ post \<and>
              dtls_decrypt_record c keys rec 64 = Some fin \<and> 24 \<le> length fin \<and>
              take 12 (drop 12 fin) = finished_verify_data c keys (tr3 @ tickets) ''server finished'')))"
proof -
  obtain random ds0 u3 f raw u4 ds1 tr1 spub kex ds2 tr2 fl u5 fin tr3 where st:
    "rnd = Some random" "ds0 = zero_session\<lparr>ds_relay_tag := tag, client_random := random, pkt_seq := 1\<rparr>"
    "u_in u3 = u_in u0" "\<forall>v. u_in (snd (f v)) = u_in v" "hello_loop 3 False f dst u3 = (Some raw, u4)"
    "parse_server_hello_flight raw ds0 (snd (build_client_hello ds0)) = Some (ds1, tr1, spub)" "x25519 spub = Some kex"
    "client_finish c iv passwd account ds1 tr1 kex = Some (ds2, tr2, fl)" "u_in u5 = u_in u4"
    "recv_server_finished c rounds dst (ds2\<lparr>pkt_seq := pkt_seq ds2 + 1\<rparr>) tr2 u5 = (Some (fin, tr3), u)" "24 \<le> length fin"
    "take 12 (drop 12 fin) = finished_verify_data c (ds2\<lparr>pkt_seq := pkt_seq ds2 + 1\<rparr>) tr3 ''server finished''"
    "ds = ds2\<lparr>pkt_seq := pkt_seq ds2 + 1, tx_seq := 1, rx_seq := 1, handshake_complete := True\<rparr>"
    by (rule handshake_steps [OF assms])
  obtain cpub ecdh where kex: "kex = (cpub, ecdh)" by (cases kex)
  let ?cke = "client_key_exchange account cpub"
  let ?tr2 = "tr1 @ build_dtls_hs_hdr 0x10 (of_nat (length ?cke)) 1 @ ?cke"
  define keys where "keys = derive_session_keys c ds1 (premaster_secret c passwd ecdh) ?tr2"
  note cf = client_finish_result [OF st(8) [unfolded kex], folded keys_def]
  note hl = hello_loop_source [OF st(4,5), unfolded st(3)]
  obtain data pre rec post t where fs: "came_from dst (u_in u5) data" "data = pre @ rec @ post" "tr3 = tr2 @ t"
      "dtls_decrypt_record c (ds2\<lparr>pkt_seq := pkt_seq ds2 + 1\<rparr>) rec 64 = Some fin"
    using finished_source [OF st(10)] by blast
  have src: "came_from dst (u_in u0) raw" "came_from dst (u_in u0) data"
    using hl came_from_mono [OF fs(1)] st(9) by auto
  have dec: "dtls_decrypt_record c keys rec 64 = Some fin"
    unfolding fs(4) [symmetric] by (rule decrypt_cong) (simp_all add: cf(1))
  have vd: "finished_verify_data c (ds2\<lparr>pkt_seq := pkt_seq ds2 + 1\<rparr>) tr l = finished_verify_data c keys tr l" for tr l
    by (rule verify_data_cong) (simp_all add: cf(1))
  have head: "handshake_complete ds" "dtls_epoch ds = 1" "tx_seq ds = 1" "cipher_suite ds \<in> {0xC038, 0xCCAC}"
      "master_secret ds = master_secret keys" "client_write_key ds = client_write_key keys"
    using flight_suite [OF st(6)] by (simp_all add: st(13) cf(1) keys_def)
  let ?tr3 = "?tr2 @ build_dtls_hs_hdr 0x14 12 2 @ finished_verify_data c keys ?tr2 ''client finished''"
  have core: "\<exists>data pre rec post fin tickets. came_from dst (u_in u0) data \<and> data = pre @ rec @ post \<and>
      dtls_decrypt_record c keys rec 64 = Some fin \<and> 24 \<le> length fin \<and>
      take 12 (drop 12 fin) = finished_verify_data c keys (?tr3 @ tickets) ''server finished''"
    by (intro exI conjI, rule src(2), rule fs(2), rule dec, rule st(11), unfold st(12) vd fs(3) cf(2), rule refl)
  show ?thesis
    by (intro conjI head, rule exI [of _ random], rule exI [of _ ds0], rule exI [of _ raw], rule exI [of _ ds1], rule exI [of _ tr1],
        rule exI [of _ spub], rule exI [of _ cpub], rule exI [of _ ecdh], unfold Let_def, fold keys_def,
        intro conjI st(1,2,6) st(7) [unfolded kex] src(1) head(5,6) core)
qed

theorem handshake_authenticates_witness:
  "\<exists>d1 d2 ds u. dtls_psk_handshake toy_crypto (Some (replicate 32 1)) demo_exchange (Some (replicate 16 7))
     4 (1, 5000) [1, 2, 3, 4, 5, 6, 7, 8] ''UID'' ''pw'' ''admin'' 0
     \<lparr>u_in = [Dgram (1, 5000) d1, Dgram (1, 5000) d2], u_out = [], u_send_ok = []\<rparr> = (Some ds, u) \<and> dtls_epoch ds = 1 \<and> cipher_suite ds \<in> {0xC038, 0xCCAC}"
proof -
  obtain d1 d2 rec server' where d:
    "carries d1 (server_flight (replicate 32 4) [] 0xCCAC [(0x16, []), (0x17, [])] (replicate 32 5) [])"
    "length (server_flight (replicate 32 4) [] 0xCCAC [(0x16, []), (0x17, [])] (replicate 32 5) []) \<le> 1024"
    "dtls_encrypt_record toy_crypto (Some (replicate 16 7)) demo_server 0x16 demo_finished = Some (rec, server')"
    "carries d2 (concat (map (hs_record 0x04 3 3) []) @ ccs_record 4 @ rec)"
    "length (concat (map (hs_record 0x04 3 3) []) @ ccs_record 4 @ rec) \<le> 1024"
    by (rule demo_answers)
  from honest_run [where ?x25519.0 = demo_exchange and passwd = "''pw''" and ecdh = "replicate 32 3",
      OF toy_crypto_ok(3,2,1) demo_numbers demo_exchange_def d(1,2) d(3) [unfolded demo_finished_def demo_server_def demo_tr1_def] d(4,5) demo_socket]
  obtain ds u where run: "dtls_psk_handshake toy_crypto (Some (replicate 32 1)) demo_exchange (Some (replicate 16 7))
     4 (1, 5000) [1, 2, 3, 4, 5, 6, 7, 8] ''UID'' ''pw'' ''admin'' 0
     \<lparr>u_in = [Dgram (1, 5000) d1, Dgram (1, 5000) d2], u_out = [], u_send_ok = []\<rparr> = (Some ds, u)" "handshake_complete ds" by blast
  from run(1) handshake_authenticates [OF run(1)] show ?thesis by blast
qed

end
