(* ===== verification/Iotc_App.thy ===== *)
theory Iotc_App
  imports Iotc_Rendezvous Dtls_Agreement
begin

text \<open>
  Model of the application-data channel of \<open>src/camera/tutk/IotcClient.cpp\<close>: sending and
  receiving protected records on a connection, the keep-alives and answers on the way, and
  closing it. Clock readings are milliseconds of the steady clock.
\<close>

section \<open>Operations\<close>

text \<open>
  \<open>None\<close> is the failing handshake; the connection, whose session is then half filled, is
  closed by the caller.
\<close>

definition iotc_dtls_handshake ::
  "crypto \<Rightarrow> bytes option \<Rightarrow> (bytes \<Rightarrow> (bytes \<times> bytes) option) \<Rightarrow> bytes option \<Rightarrow> nat \<Rightarrow> string \<Rightarrow> string \<Rightarrow> iotc_conn \<Rightarrow> udp
   \<Rightarrow> iotc_conn option \<times> udp" where
  "iotc_dtls_handshake c rnd x25519 iv rounds passwd account conn u =
     (if \<not> ic_open conn then (None, u)
      else case dtls_psk_handshake c rnd x25519 iv rounds (ic_peer conn) (ic_token conn)
                  (if ic_is_relay conn \<or> ic_is_lan conn then [] else ic_uid conn) passwd account (ic_relay_tag conn) u of
             (None, u1) \<Rightarrow> (None, u1)
           | (Some ds, u1) \<Rightarrow> (Some (conn\<lparr>ic_dtls := ds\<rparr>), u1))"

definition iotc_send_app_data ::
  "crypto \<Rightarrow> bytes option \<Rightarrow> bytes \<Rightarrow> iotc_conn \<Rightarrow> udp \<Rightarrow> bool \<times> iotc_conn \<times> udp" where
  "iotc_send_app_data c iv data conn u =
     (if \<not> ic_open conn then (False, conn, u)
      else case dtls_encrypt_record c iv (ic_dtls conn) 0x17 data of
             None \<Rightarrow> (False, conn, u)
           | Some (dtls_rec, ds) \<Rightarrow>
               let (ok, u1) = send_dtls_packet (ic_peer conn) (if ic_is_relay conn then dtls_epoch ds else 0) (ic_token conn)
                                dtls_rec (pkt_seq ds) (ic_relay_tag conn) u
               in (ok, conn\<lparr>ic_dtls := ds\<lparr>pkt_seq := pkt_seq ds + 1\<rparr>\<rparr>, u1))"

definition send_p2p_session_ctrl :: "iotc_conn \<Rightarrow> byte \<Rightarrow> udp \<Rightarrow> udp" where
  "send_p2p_session_ctrl conn t0 u =
     snd (send_control (ic_peer conn) (put_at 3 [0x0a] (write_rdv_hdr 8 t0 0x04 0x21) @ ic_token conn) u)"

definition is_dtls_packet :: "bool \<Rightarrow> bytes \<Rightarrow> bool" where
  "is_dtls_packet is_relay raw \<longleftrightarrow>
     (if is_relay then raw ! 8 = 0x03 \<and> raw ! 9 = 0x05 \<and> raw ! 10 = 0x42
      else raw ! 9 = 0x04 \<and> (raw ! 8 = 0x08 \<and> raw ! 10 = 0x12 \<or> raw ! 8 = 0x07 \<and> raw ! 10 = 0x21))"

text \<open>
  The result of receiving is a negative code, or the plaintext; \<open>Inr []\<close> is also the timeout.
\<close>

datatype app_next = App_next iotc_conn udp | App_return "int + bytes" iotc_conn udp

text \<open>One received datagram.\<close>

definition app_packet :: "crypto \<Rightarrow> nat \<Rightarrow> addr \<Rightarrow> bytes \<Rightarrow> iotc_conn \<Rightarrow> udp \<Rightarrow> app_next" where
  "app_packet c out_size src dgram conn u =
     (let n = length (take 65600 dgram); raw = descramble_rx (take 65600 dgram)
      in if n < 16 \<or> src \<noteq> ic_peer conn then App_next conn u
         else if raw ! 0 \<noteq> 0x04 \<or> raw ! 1 \<noteq> 0x02 then App_next conn u
         else if raw ! 8 = 0x03 \<and> raw ! 9 = 0x03 \<and> raw ! 10 = 0x43
         then App_next conn
                (snd (send_rdv_ack src (ic_uid conn) (ic_token conn) (if 40 \<le> n then get_le32 (drop 36 raw) else 0) u))
         else if ic_is_relay conn \<and> n = 24 \<and> raw ! 8 = 0x13 \<and> raw ! 9 = 0x05 \<and> raw ! 10 = 0x42
         then App_return (Inl (-2)) conn u
         else if ic_is_relay conn \<and> is_relay_ping raw
         then App_next (conn\<lparr>ic_cookie := take 8 (drop 16 raw), ic_have_cookie := True\<rparr>)
                (snd (sendto (ic_peer conn) (relay_pong raw) u))
         else if \<not> is_dtls_packet (ic_is_relay conn) raw \<or> n < 28 + 13 \<or> raw ! 28 \<noteq> 0x17
         then App_next conn u
         else case dtls_decrypt_record c (ic_dtls conn) (drop 28 raw) out_size of
                Some plain \<Rightarrow>
                  App_return (Inr plain) (conn\<lparr>ic_dtls := (ic_dtls conn)\<lparr>rx_seq := rx_seq (ic_dtls conn) + 1\<rparr>\<rparr>) u
              | None \<Rightarrow> App_next conn u)"

fun recv_app_loop :: "crypto \<Rightarrow> nat \<Rightarrow> udp_event list \<Rightarrow> iotc_conn \<Rightarrow> udp \<Rightarrow> (int + bytes) \<times> iotc_conn \<times> udp" where
  "recv_app_loop c out_size [] conn u = (Inr [], conn, u\<lparr>u_in := []\<rparr>)"
| "recv_app_loop c out_size (ev # es) conn u =
     (case ev of
        Deadline \<Rightarrow> (Inr [], conn, u\<lparr>u_in := es\<rparr>)
      | NoData \<Rightarrow> recv_app_loop c out_size es conn u
      | RecvError \<Rightarrow> (Inl (-1), conn, u\<lparr>u_in := es\<rparr>)
      | Dgram src dgram \<Rightarrow>
          (case app_packet c out_size src dgram conn u of
             App_next conn' u' \<Rightarrow> recv_app_loop c out_size es conn' u'
           | App_return r conn' u' \<Rightarrow> (r, conn', u'\<lparr>u_in := es\<rparr>)))"

text \<open>\<open>now\<close> and \<open>now'\<close> are the readings for the check of the keep-alive and after it was sent.\<close>

definition iotc_recv_app_data ::
  "crypto \<Rightarrow> nat \<Rightarrow> int \<Rightarrow> int \<Rightarrow> iotc_conn \<Rightarrow> udp \<Rightarrow> (int + bytes) \<times> iotc_conn \<times> udp" where
  "iotc_recv_app_data c out_size now now' conn u =
     (if \<not> ic_open conn then (Inl (-1), conn, u)
      else let alive = (\<not> ic_is_relay conn \<and> 2000 \<le> now - ic_last_alive conn);
               u1 = (if alive then send_p2p_session_ctrl conn 0x27 u else u);
               conn1 = (if alive then conn\<lparr>ic_last_alive := now'\<rparr> else conn)
           in recv_app_loop c out_size (u_in u1) conn1 u1)"

fun repeat_send :: "nat \<Rightarrow> (udp \<Rightarrow> udp) \<Rightarrow> udp \<Rightarrow> udp" where
  "repeat_send 0 f u = u"
| "repeat_send (Suc n) f u = repeat_send n f (f u)"

definition relay_close_packet :: "iotc_conn \<Rightarrow> bytes" where
  "relay_close_packet conn =
     [0x04, 0x02, 0x1c, 0x0a, 0x08, 0x00, 0x00, 0x00, 0x14, 0x05, 0x24, 0x00] @ le32 (ic_relay_tag conn)
     @ (if ic_have_cookie conn then ic_cookie conn else ic_token conn)"

definition iotc_close :: "iotc_conn \<Rightarrow> udp \<Rightarrow> iotc_conn \<times> udp" where
  "iotc_close conn u =
     (closed_conn,
      if \<not> ic_open conn then u
      else if ic_is_relay conn \<and> ic_relay_tag conn \<noteq> 0
      then repeat_send 5 (\<lambda>u. snd (send_control (ic_peer conn) (relay_close_packet conn) u)) u
      else if \<not> ic_is_relay conn then repeat_send 3 (send_p2p_session_ctrl conn 0x17) u
      else u)"

section \<open>Lemmas\<close>

lemma send_p2p_in [simp]: "u_in (send_p2p_session_ctrl conn t0 u) = u_in u"
  by (simp add: send_p2p_session_ctrl_def)

text \<open>A direct datagram with an application record that opens under the receiver's keys.\<close>

definition app_datagram :: "crypto \<Rightarrow> dtls_session \<Rightarrow> bytes \<Rightarrow> bytes \<Rightarrow> bool" where
  "app_datagram c ds dgram data \<longleftrightarrow>
     41 \<le> length dgram \<and> length dgram \<le> 65600 \<and>
     (let raw = descramble_rx dgram
      in raw ! 0 = 0x04 \<and> raw ! 1 = 0x02 \<and> raw ! 8 = 0x07 \<and> raw ! 9 = 0x04 \<and> raw ! 10 = 0x21 \<and> raw ! 28 = 0x17 \<and>
         dtls_decrypt_record c ds (drop 28 raw) 65536 = Some data)"

lemma app_packet_delivers:
  assumes "app_datagram c (ic_dtls conn) dgram data" "\<not> ic_is_relay conn"
  shows "app_packet c 65536 (ic_peer conn) dgram conn u =
    App_return (Inr data) (conn\<lparr>ic_dtls := (ic_dtls conn)\<lparr>rx_seq := rx_seq (ic_dtls conn) + 1\<rparr>\<rparr>) u"
proof -
  have "take 65600 dgram = dgram" using assms(1) by (simp add: app_datagram_def)
  then show ?thesis using assms by (simp add: app_packet_def app_datagram_def is_dtls_packet_def Let_def)
qed

lemma dtls_datagram_type:
  assumes "snd dst \<noteq> 3478"
  shows "dtls_datagram dst epoch token data sq tag ! 8 = 0x07" "dtls_datagram dst epoch token data sq tag ! 9 = 0x04"
    "dtls_datagram dst epoch token data sq tag ! 10 = 0x21"
proof -
  obtain a b c d where w: "le16 (of_nat (12 + length data)) = [a, b]" "le16 sq = [c, d]" by (simp add: le16_def)
  show "dtls_datagram dst epoch token data sq tag ! 8 = 0x07" "dtls_datagram dst epoch token data sq tag ! 9 = 0x04"
    "dtls_datagram dst epoch token data sq tag ! 10 = 0x21"
    using assms unfolding dtls_datagram_def w by simp_all
qed

text \<open>What one end sends is such a datagram for the other.\<close>

lemma send_app_wire:
  assumes crypto: "hmac_sized c" "aead_inverse c" "cbc_inverse c" "length iv = 16"
    and conn: "ic_open a" "length (ic_token a) = 8" "snd (ic_peer a) \<noteq> 3478" "12 \<le> length (client_write_iv (ic_dtls a))"
    and "peer_of (ic_dtls a) ds" "length data \<le> 16384" "u_send_ok u = []"
  shows "\<exists>dgram. app_datagram c ds dgram data \<and>
    iotc_send_app_data c (Some iv) data a u =
      (True, a\<lparr>ic_dtls := (ic_dtls a)\<lparr>tx_seq := tx_seq (ic_dtls a) + 1, pkt_seq := pkt_seq (ic_dtls a) + 1\<rparr>\<rparr>,
       u\<lparr>u_out := u_out u @ [(ic_peer a, dgram)]\<rparr>)"
proof -
  let ?d = "ic_dtls a"
  obtain r where r: "dtls_encrypt_record c (Some iv) ?d 0x17 data = Some (r, ?d\<lparr>tx_seq := tx_seq ?d + 1\<rparr>)"
      "dtls_decrypt_record c ds r 65536 = Some data"
    using protected_record [OF crypto(3,2,1,4) conn(4) assms(9), of data 65536 "0x17"] assms(10)
    by (auto simp: kMaxRecordPlaintext_def)
  obtain n payload where sh: "r = build_dtls_record_hdr 0x17 (ucast (dtls_epoch ?d)) (tx_seq ?d) n @ payload"
      "length payload \<le> length data + 96"
    using protected_shape [OF crypto(1,2,4) conn(4) r(1)] by blast
  define e where "e = (if ic_is_relay a then dtls_epoch ?d else 0)"
  define p where "p = dtls_datagram (ic_peer a) e (ic_token a) r (pkt_seq ?d) (ic_relay_tag a)"
  let ?g = "scramble_first (min (length p) kDataScrambleLen) p"
  note f = dtls_datagram_fields [OF conn(2), of "ic_peer a" e r "pkt_seq ?d" "ic_relay_tag a", folded p_def]
  note ty = dtls_datagram_type [OF conn(3), of e "ic_token a" r "pkt_seq ?d" "ic_relay_tag a", folded p_def]
  have raw: "descramble_rx ?g = p" using descramble_scrambled [of p] f(1,6) by simp
  have lr: "13 \<le> length r" "length r \<le> 13 + 16384 + 96" using sh assms(10) by simp_all
  have "r \<noteq> []" by (simp add: sh(1) build_dtls_record_hdr_def)
  then have "p ! 28 = hd r" using hd_drop_conv_nth [of 28 p] f(1,2) by simp
  then have "p ! 28 = 0x17" by (simp add: sh(1) build_dtls_record_hdr_def)
  then have "app_datagram c ds ?g data"
    using f(1-5) ty lr r(2) unfolding app_datagram_def raw Let_def by simp
  moreover have "send_dtls_packet (ic_peer a) e (ic_token a) r (pkt_seq ?d) (ic_relay_tag a) u
      = (True, u\<lparr>u_out := u_out u @ [(ic_peer a, ?g)]\<rparr>)"
    using lr assms(11) by (simp add: send_dtls_packet_def sendto_ok Let_def p_def)
  then have "iotc_send_app_data c (Some iv) data a u =
      (True, a\<lparr>ic_dtls := ?d\<lparr>tx_seq := tx_seq ?d + 1, pkt_seq := pkt_seq ?d + 1\<rparr>\<rparr>, u\<lparr>u_out := u_out u @ [(ic_peer a, ?g)]\<rparr>)"
    using conn(1) unfolding iotc_send_app_data_def r(1) option.case prod.case e_def by (cases "ic_is_relay a") simp_all
  ultimately show ?thesis by blast
qed

text \<open>Sending one datum after the other, and receiving as often as there are clock readings.\<close>

fun send_all :: "crypto \<Rightarrow> bytes \<Rightarrow> bytes list \<Rightarrow> iotc_conn \<Rightarrow> udp \<Rightarrow> bool \<times> iotc_conn \<times> udp" where
  "send_all c iv [] a u = (True, a, u)"
| "send_all c iv (p # ps) a u =
     (case iotc_send_app_data c (Some iv) p a u of
        (False, a1, u1) \<Rightarrow> (False, a1, u1)
      | (True, a1, u1) \<Rightarrow> send_all c iv ps a1 u1)"

fun recv_all :: "crypto \<Rightarrow> (int \<times> int) list \<Rightarrow> iotc_conn \<Rightarrow> udp \<Rightarrow> (int + bytes) list \<times> udp" where
  "recv_all c [] b u = ([], u)"
| "recv_all c ((now, now') # ts) b u =
     (case iotc_recv_app_data c 65536 now now' b u of
        (r, b1, u1) \<Rightarrow> (case recv_all c ts b1 u1 of (rs, u2) \<Rightarrow> (r # rs, u2)))"

lemma peer_of_cong:
  "peer_of (d\<lparr>tx_seq := s, pkt_seq := q\<rparr>) e = peer_of d e" "peer_of d (e\<lparr>rx_seq := s\<rparr>) = peer_of d e"
  by (simp_all add: peer_of_def)

lemma send_all_wire:
  assumes crypto: "hmac_sized c" "aead_inverse c" "cbc_inverse c" "length iv = 16"
  shows "ic_open a \<Longrightarrow> length (ic_token a) = 8 \<Longrightarrow> snd (ic_peer a) \<noteq> 3478 \<Longrightarrow> 12 \<le> length (client_write_iv (ic_dtls a)) \<Longrightarrow>
    peer_of (ic_dtls a) ds \<Longrightarrow> \<forall>p \<in> set ps. length p \<le> 16384 \<Longrightarrow> u_send_ok u = [] \<Longrightarrow>
    \<exists>dgrams a'. list_all2 (app_datagram c ds) dgrams ps \<and>
      send_all c iv ps a u = (True, a', u\<lparr>u_out := u_out u @ map (Pair (ic_peer a)) dgrams\<rparr>)"
proof (induction ps arbitrary: a u)
  case (Cons p ps)
  let ?a = "a\<lparr>ic_dtls := (ic_dtls a)\<lparr>tx_seq := tx_seq (ic_dtls a) + 1, pkt_seq := pkt_seq (ic_dtls a) + 1\<rparr>\<rparr>"
  have "length p \<le> 16384" using Cons.prems(6) by simp
  from send_app_wire [OF crypto Cons.prems(1-5) this Cons.prems(7)] obtain dgram where d: "app_datagram c ds dgram p"
      "iotc_send_app_data c (Some iv) p a u = (True, ?a, u\<lparr>u_out := u_out u @ [(ic_peer a, dgram)]\<rparr>)" by blast
  have "\<exists>dgrams a'. list_all2 (app_datagram c ds) dgrams ps \<and>
      send_all c iv ps ?a (u\<lparr>u_out := u_out u @ [(ic_peer a, dgram)]\<rparr>) =
      (True, a', u\<lparr>u_out := (u_out u @ [(ic_peer a, dgram)]) @ map (Pair (ic_peer a)) dgrams\<rparr>)"
    using Cons.IH [of ?a "u\<lparr>u_out := u_out u @ [(ic_peer a, dgram)]\<rparr>"] Cons.prems by (simp add: peer_of_cong)
  then obtain dgrams a' where "list_all2 (app_datagram c ds) dgrams ps"
      "send_all c iv ps ?a (u\<lparr>u_out := u_out u @ [(ic_peer a, dgram)]\<rparr>) =
       (True, a', u\<lparr>u_out := (u_out u @ [(ic_peer a, dgram)]) @ map (Pair (ic_peer a)) dgrams\<rparr>)" by blast
  then show ?case using d by (intro exI [of _ "dgram # dgrams"] exI [of _ a']) simp
qed (auto simp: list_all2_Nil)

lemma app_datagram_cong: "app_datagram c (ds\<lparr>rx_seq := n\<rparr>) = app_datagram c ds"
  by (intro ext) (simp add: app_datagram_def decrypt_cong [of "ds\<lparr>rx_seq := n\<rparr>" ds])

text \<open>Events that do not end a receive call: datagrams and pauses; and who sent a datagram.\<close>

fun passes :: "udp_event \<Rightarrow> bool" where
  "passes (Dgram s d) = True"
| "passes NoData = True"
| "passes ev = False"

fun sent_by :: "addr \<Rightarrow> udp_event \<Rightarrow> bool" where
  "sent_by p (Dgram s d) = (s = p)"
| "sent_by p ev = False"

lemma recv_app_next:
  assumes "ic_open b" "\<not> ic_is_relay b" "app_datagram c (ic_dtls b) dgram p"
    "u_in u = noise @ Dgram (ic_peer b) dgram # es" "\<forall>e \<in> set noise. passes e \<and> \<not> sent_by (ic_peer b) e"
  shows "\<exists>b' u'. iotc_recv_app_data c 65536 now now' b u = (Inr p, b', u') \<and> u_in u' = es \<and>
    ic_open b' \<and> \<not> ic_is_relay b' \<and> ic_peer b' = ic_peer b \<and> (\<exists>n. ic_dtls b' = (ic_dtls b)\<lparr>rx_seq := n\<rparr>)"
proof -
  have skip: "recv_app_loop c 65536 (noise @ Dgram (ic_peer b1) dgram # es) b1 v =
      (Inr p, b1\<lparr>ic_dtls := (ic_dtls b1)\<lparr>rx_seq := rx_seq (ic_dtls b1) + 1\<rparr>\<rparr>, v\<lparr>u_in := es\<rparr>)"
    if "app_datagram c (ic_dtls b1) dgram p" "\<not> ic_is_relay b1" "ic_peer b1 = ic_peer b" for b1 v
    using assms(5)
  proof (induction noise)
    case Nil
    then show ?case using app_packet_delivers [OF that(1,2)] by simp
  next
    case (Cons e noise)
    then show ?case using that(3) by (cases e) (simp_all add: app_packet_def Let_def)
  qed
  define b1 where "b1 = (if \<not> ic_is_relay b \<and> 2000 \<le> now - ic_last_alive b then b\<lparr>ic_last_alive := now'\<rparr> else b)"
  define u1 where "u1 = (if \<not> ic_is_relay b \<and> 2000 \<le> now - ic_last_alive b then send_p2p_session_ctrl b 0x27 u else u)"
  have b1: "ic_open b1" "\<not> ic_is_relay b1" "ic_peer b1 = ic_peer b" "ic_dtls b1 = ic_dtls b" "u_in u1 = u_in u"
    using assms(1,2) by (simp_all add: b1_def u1_def)
  have "iotc_recv_app_data c 65536 now now' b u = recv_app_loop c 65536 (u_in u1) b1 u1"
    using assms(1) by (simp add: iotc_recv_app_data_def Let_def b1_def u1_def)
  also have "\<dots> = (Inr p, b1\<lparr>ic_dtls := (ic_dtls b1)\<lparr>rx_seq := rx_seq (ic_dtls b1) + 1\<rparr>\<rparr>, u1\<lparr>u_in := es\<rparr>)"
    using skip [of b1 u1] assms(3,4) b1 by simp
  finally have r: "iotc_recv_app_data c 65536 now now' b u = \<dots>" .
  show ?thesis
    by (rule exI, rule exI, intro conjI, rule r) (use b1 in \<open>simp_all add: exI [of _ "rx_seq (ic_dtls b) + 1"]\<close>)
qed

lemma recv_all_stream:
  "ic_open b \<Longrightarrow> \<not> ic_is_relay b \<Longrightarrow> list_all2 (app_datagram c (ic_dtls b)) dgrams ps \<Longrightarrow> length ts = length ps \<Longrightarrow>
   \<forall>e \<in> set (u_in v). passes e \<Longrightarrow>
   filter (sent_by (ic_peer b)) (u_in v) = map (Dgram (ic_peer b)) dgrams \<Longrightarrow>
   fst (recv_all c ts b v) = map Inr ps"
proof (induction ps arbitrary: b v ts dgrams)
  case (Cons p ps)
  obtain now now' ts' where ts: "ts = (now, now') # ts'" using Cons.prems(4) by (cases ts) auto
  obtain d ds where d: "dgrams = d # ds" "app_datagram c (ic_dtls b) d p" "list_all2 (app_datagram c (ic_dtls b)) ds ps"
    using Cons.prems(3) by (auto simp: list_all2_Cons2)
  obtain noise rest where v: "u_in v = noise @ Dgram (ic_peer b) d # rest" "\<forall>e \<in> set noise. \<not> sent_by (ic_peer b) e"
      "filter (sent_by (ic_peer b)) rest = map (Dgram (ic_peer b)) ds"
    using iffD1 [OF filter_eq_Cons_iff Cons.prems(6) [unfolded d(1) list.map]] by metis
  have "\<forall>e \<in> set noise. passes e \<and> \<not> sent_by (ic_peer b) e"
    using Cons.prems(5) v(1,2) by auto
  from recv_app_next [OF Cons.prems(1,2) d(2) v(1) this, of now now'] obtain b' v' n where r:
      "iotc_recv_app_data c 65536 now now' b v = (Inr p, b', v')" "u_in v' = rest" "ic_open b'" "\<not> ic_is_relay b'"
      "ic_peer b' = ic_peer b" "ic_dtls b' = (ic_dtls b)\<lparr>rx_seq := n\<rparr>" by blast
  have "fst (recv_all c ts' b' v') = map Inr ps"
  proof (rule Cons.IH [where dgrams = ds])
    show "list_all2 (app_datagram c (ic_dtls b')) ds ps" using d(3) unfolding r(6) by (simp only: app_datagram_cong)
  qed (use r v Cons.prems(4,5) ts in auto)
  then show ?case using r(1) by (cases "recv_all c ts' b' v'") (simp add: ts)
qed simp

section \<open>Properties\<close>

text \<open>
  C40. What one end sends as application data on a direct path the other end receives: every
  datum unchanged, in the order sent, one per call, with any pauses and any datagrams of other
  hosts in between, and whenever a keep-alive is due. Both ends run this code with matching keys
  (as the handshake leaves them); the network keeps the order and loses nothing.
\<close>

theorem app_stream_delivered:
  assumes crypto: "hmac_sized c" "aead_inverse c" "cbc_inverse c" "length iv = 16"
    and sender: "ic_open a" "length (ic_token a) = 8" "snd (ic_peer a) \<noteq> 3478" "12 \<le> length (client_write_iv (ic_dtls a))"
      "\<forall>p \<in> set ps. length p \<le> 16384" "u_send_ok u = []"
    and receiver: "ic_open b" "\<not> ic_is_relay b" "peer_of (ic_dtls a) (ic_dtls b)"
  shows "\<exists>dgrams a'. send_all c iv ps a u = (True, a', u\<lparr>u_out := u_out u @ map (Pair (ic_peer a)) dgrams\<rparr>) \<and>
    length dgrams = length ps \<and> (\<forall>v ts. length ts = length ps \<longrightarrow> (\<forall>e \<in> set (u_in v). passes e) \<longrightarrow>
       filter (sent_by (ic_peer b)) (u_in v) = map (Dgram (ic_peer b)) dgrams \<longrightarrow>
       fst (recv_all c ts b v) = map Inr ps)"
proof -
  obtain dgrams a' where d: "list_all2 (app_datagram c (ic_dtls b)) dgrams ps"
      "send_all c iv ps a u = (True, a', u\<lparr>u_out := u_out u @ map (Pair (ic_peer a)) dgrams\<rparr>)"
    using send_all_wire [OF crypto sender(1-4) receiver(3) sender(5,6)] by blast
  have "length dgrams = length ps" using d(1) by (rule list_all2_lengthD)
  then show ?thesis using d(2) recv_all_stream [OF receiver(1,2) d(1)] by blast
qed

definition demo_conn :: iotc_conn where
  "demo_conn = closed_conn\<lparr>ic_open := True, ic_peer := (7, 9000), ic_token := [1, 2, 3, 4, 5, 6, 7, 8],
     ic_dtls := zero_session\<lparr>cipher_suite := 0xCCAC\<rparr>\<rparr>"

lemma demo_ok: "length (replicate 16 7 :: bytes) = 16" "ic_open demo_conn" "length (ic_token demo_conn) = 8" "snd (ic_peer demo_conn) \<noteq> 3478"
  "12 \<le> length (client_write_iv (ic_dtls demo_conn))" "\<not> ic_is_relay demo_conn" "peer_of (ic_dtls demo_conn) (ic_dtls demo_conn)"
  by (simp_all add: demo_conn_def closed_conn_def zero_session_def peer_of_def)

theorem app_stream_delivered_witness:
  "\<exists>d1 d2 a'. send_all toy_crypto (replicate 16 7) [[1, 2], [3]] demo_conn \<lparr>u_in = [], u_out = [], u_send_ok = []\<rparr> =
      (True, a', \<lparr>u_in = [], u_out = [((7, 9000), d1), ((7, 9000), d2)], u_send_ok = []\<rparr>) \<and>
    fst (recv_all toy_crypto [(0, 0), (3000, 3000)] demo_conn
      \<lparr>u_in = [NoData, Dgram (7, 9000) d1, Dgram (8, 8) [], Dgram (7, 9000) d2], u_out = [], u_send_ok = []\<rparr>) = [Inr [1, 2], Inr [3]]"
proof -
  let ?u = "\<lparr>u_in = [], u_out = [], u_send_ok = []\<rparr> :: udp"
  obtain dgrams a' where s: "send_all toy_crypto (replicate 16 7) [[1, 2], [3]] demo_conn ?u =
      (True, a', ?u\<lparr>u_out := u_out ?u @ map (Pair (ic_peer demo_conn)) dgrams\<rparr>)"
    and l: "length dgrams = length [[1 :: byte, 2], [3]]"
    and r: "\<forall>v ts. length ts = length [[1 :: byte, 2], [3]] \<longrightarrow> (\<forall>e \<in> set (u_in v). passes e) \<longrightarrow>
       filter (sent_by (ic_peer demo_conn)) (u_in v) = map (Dgram (ic_peer demo_conn)) dgrams \<longrightarrow>
       fst (recv_all toy_crypto ts demo_conn v) = map Inr [[1, 2], [3]]"
    using app_stream_delivered [OF toy_crypto_ok(3,2,1) demo_ok(1-5) _ _ demo_ok(2,6,7), of "[[1, 2], [3]]" ?u] by auto
  have "length dgrams = 2" using l by simp
  then obtain d1 d2 where d: "dgrams = [d1, d2]" by (auto simp: length_Suc_conv numeral_2_eq_2)
  let ?v = "\<lparr>u_in = [NoData, Dgram (7, 9000) d1, Dgram (8, 8) [], Dgram (7, 9000) d2], u_out = [], u_send_ok = []\<rparr> :: udp"
  have peer: "ic_peer demo_conn = (7, 9000)" by (simp add: demo_conn_def)
  have "fst (recv_all toy_crypto [(0, 0), (3000, 3000)] demo_conn ?v) = map Inr [[1, 2], [3]]"
    by (rule r [rule_format]) (auto simp: d peer)
  moreover have "send_all toy_crypto (replicate 16 7) [[1, 2], [3]] demo_conn ?u =
      (True, a', \<lparr>u_in = [], u_out = [((7, 9000), d1), ((7, 9000), d2)], u_send_ok = []\<rparr>)"
    unfolding s d peer by simp
  ultimately show ?thesis by (intro exI [of _ d1] exI [of _ d2] exI [of _ a'] conjI) simp_all
qed

end
