(* ===== verification/Spec2Isabelle.thy ===== *)
theory Spec2Isabelle
  imports Title_Match H264_Avcc Zip_Read Status_Patch Firmware_Cache Tutk_Session Iotc_App
begin

text \<open>
  A verification development for the network plugin of a 3D-printer slicer.

  \<^bold>\<open>The program.\<close> The plugin connects a slicer to printers. The parts with logic of
  their own are modelled here: the local file tunnel (a TLS connection to port 6000
  of the printer, \<open>src/tunnel_local.cpp\<close>, with the JSON reader and writer \<open>src/json_lite.cpp\<close>
  below it), what is done over the tunnel (\<open>src/tunnel_upload.cpp\<close>: uploads, downloads, listings,
  and the search for the picture of the model in print, with the reader of project metadata
  \<open>src/model_metadata.cpp\<close>), and the camera client (\<open>src/camera/tutk/\<close>: an obfuscated UDP link
  that is found by a LAN search, a relay or a rendezvous, a DTLS-PSK session on it, and an AV
  protocol with forward error correction in the session), what the agent (\<open>src/agent.cpp\<close>) does to
  the status reports of a printer before the slicer gets them and what it learns from them about
  firmware, and two readers of foreign formats: zip archives (\<open>src/zip_read.cpp\<close>) and H.264 streams
  (\<open>stubs/h264_avcc.cpp\<close>). The other parts are listed at the end.

  \<^bold>\<open>Theories.\<close> Each is the model of one part, in the order of the code, then its lemmas, then the
  theorems that make it correct.

  \<^item> \<^verbatim>\<open>Obn_Prelude\<close>: bytes, C++ strings, little- and big-endian fields, \<open>std::string::find\<close>,
    decimal numbers; the locales \<open>field_codec\<close> (a field that reads back) and \<open>stream_decoder\<close>
    (a decoder that may be fed in pieces).
  \<^item> \<^verbatim>\<open>Json_Lite\<close>: \<open>Value\<close>, \<open>parse\<close>, \<open>dump\<close>, \<open>escape\<close>, \<open>find\<close>. Doubles are binary64 values as
    rationals, rounded to nearest even. The locales \<open>value_reader\<close> and \<open>shaped_reader\<close> carry the
    object and array loops, \<open>json_codec\<close> is what the tunnel needs of the component. Shown:
    printing and parsing again gives the value back (\<open>read_back\<close> for members in any order), parsing
    ends, respects the nesting limit and keeps keys ordered, path lookup composes.
  \<^item> \<^verbatim>\<open>Tunnel_Local\<close>: frames, request builders (\<open>build_..._abi\<close>), reply parsers. Shown: every
    request reads back, frames are reassembled however TCP cuts them (the interpretation
    \<open>frames\<close> of \<open>stream_decoder\<close>), and what happens to a length field that wraps.
  \<^item> \<^verbatim>\<open>Tunnel_Session\<close>: \<open>Session\<close>: sending, receiving, polling, the login and setup handshake as a
    step function with its reachable states. Shown: the bytes sent are fixed by the phase, no
    message is lost by polling, streams are one frame, and which frames \<open>recv_payload\<close> drops.
  \<^item> \<^verbatim>\<open>Tunnel_Upload\<close>: \<open>Connection\<close> and the transfers: \<open>run_chunked_upload\<close>, \<open>run_download\<close>,
    \<open>run_list_info\<close>, \<open>run_sub_file\<close>, \<open>run_sub_file_data\<close>, \<open>upload_file\<close>. Shown: a successful
    upload has sent exactly the file and its MD5; against an answering printer it succeeds, from
    the dial to the final reply; a download is the data of its frames.
  \<^item> \<^verbatim>\<open>Model_Metadata\<close>: \<open>value\<close> (here \<open>metadata_value\<close>), \<open>sliced_plates\<close> and the XML helpers. Shown:
    lookup in a written document gives the first value of the name.
  \<^item> \<^verbatim>\<open>Zip_Read\<close>: \<open>read_entry\<close>. Shown: of a written archive the member that was put in is read, or the
    error for a missing or too large one. With \<^verbatim>\<open>Model_Metadata\<close> the root theory shows which design id
    is read from an archive.
  \<^item> \<^verbatim>\<open>Status_Patch\<close>: the \<open>try_...\<close> patches of a report, the synthetic ids and their table, in the
    order of \<open>notify_local_message\<close>; \<open>cover_model_key\<close>. Shown: which health messages are removed, which
    flags are changed, which synthetic id is lost.
  \<^item> \<^verbatim>\<open>Firmware_Cache\<close>: \<open>update_fw_state\<close>, \<open>version_compare\<close>, \<open>render_firmware_json\<close>. Shown: what is
    learned from a reply, when the comparison returns and that it is the order of the numbers, and
    that the report reads back as JSON.
  \<^item> \<^verbatim>\<open>H264_Avcc\<close>: \<open>annexb_to_avcc\<close>, \<open>extract_parameter_sets\<close>, \<open>parse_sps_geometry\<close>. Shown: the units
    of a stream are carried over, and every field of a written sequence parameter set is read back
    (locale \<open>syntax_element\<close>, interpreted for bits, flags and both Exp-Golomb codes).
  \<^item> \<^verbatim>\<open>Title_Match\<close>: \<open>match_model_by_title\<close> with its cache and budget, and
    \<open>fetch_model_tile_thumbnail\<close>. Shown: the file found is the newest one with the title and the
    plate, whatever the cache holds.
  \<^item> \<^verbatim>\<open>Trans_Code\<close>: the obfuscation of datagrams and its inverse (locale \<open>block_code\<close>, interpreted
    in both directions).
  \<^item> \<^verbatim>\<open>Dtls_Record\<close>: PRF, key block, nonces, record protection. Shown: the PRF is P\_hash, the key
    block is cut without overlap, records open, nonces never repeat.
  \<^item> \<^verbatim>\<open>Iotc_Link\<close>: the datagrams that carry DTLS; \<^verbatim>\<open>Dtls_Handshake\<close>: \<open>dtls_psk_handshake\<close>;
    \<^verbatim>\<open>Dtls_Agreement\<close>: it completes with an honest printer with equal keys on both ends, and a
    completed one has verified a Finished over the exact transcript.
  \<^item> \<^verbatim>\<open>Iotc_Rendezvous\<close>: \<open>iotc_lan_connect\<close>, \<open>offlan_rendezvous\<close>, \<open>iotc_relay_connect\<close>. Shown: which
    answer is adopted, and what a peer must have sent to be adopted.
  \<^item> \<^verbatim>\<open>Iotc_App\<close>: \<open>iotc_send_app_data\<close>, \<open>iotc_recv_app_data\<close>, \<open>iotc_close\<close>. Shown: what one end
    sends the other receives.
  \<^item> \<^verbatim>\<open>Gf256\<close>, \<^verbatim>\<open>Fec\<close>: the field of the erasure code from its tables, Gauss-Jordan inversion
    (locale \<open>row_functional\<close>), recovery. Shown: the tables are a field, equal to carry-less
    multiplication; inversion is complete; any k blocks restore the data.
  \<^item> \<^verbatim>\<open>Fec_Receiver\<close>, \<^verbatim>\<open>Frame_Queue\<close>, \<^verbatim>\<open>Tutk_Packets\<close>: \<open>FecReceiver\<close>, \<open>FrameQueue\<close>,
    \<open>LegacyAssembler\<close> and the packets. Shown: a group is delivered once any k packets came,
    frames are complete and in order, a complete stream is delivered completely.
  \<^item> \<^verbatim>\<open>Tutk_Session\<close>: \<open>TutkSession\<close> with its receive loop and connection attempts. Shown: packet
    numbers, the bound of the round-trip estimate (both by the locale \<open>session_invariant\<close>), the
    end of the loop on a silent printer, the order of requests.

  \<^bold>\<open>State and environment.\<close> State is passed explicitly: a \<open>record\<close> per class with one field per
  member. What the code gets from outside is an input: a TLS connection is the list of results of
  its reads and writes (\<open>ssl_io\<close>), a UDP socket the list of its events (\<open>udp\<close>), clock
  readings, readiness of sockets and random bytes are lists or functions, OpenSSL primitives (AES,
  HMAC, ECDH, MD5) are records of functions with the laws the code relies on as hypotheses of the
  theorems that need them. Threads that share state with a component appear as a function applied
  where the code does not hold its lock (the title cache) or as inputs of a loop (the camera
  session). \<open>None\<close> as a result stands for behaviour the code does not define (a read outside of a
  buffer, a null session, a signed overflow) or for a call that never returns (\<open>version_compare\<close>); the
  theorems of success show that it does not occur.

  \<^bold>\<open>Bounds and fuel.\<close> Loops on data end by a measure. The JSON reader counts down the nesting
  depth of the code, and its member and element loops the length of the text; that they never run
  out is a theorem. Loops of the code with a fixed number of attempts (64 handshake steps, 32
  skipped replies, 32 progress replies, 64 title candidates) have it as in the code. Loops that
  wait for the network run over the list of events that is their input: its end is an error of
  the connection, or silence. Theorems about deadlines are stated over the clock readings. The
  scan of a version, which may not end, is a \<open>partial_function\<close>.

  \<^bold>\<open>Integers.\<close> Wire fields and counters are words of their width and wrap as in the code. Sizes
  and indices of containers are natural numbers.

  \<^bold>\<open>Not modelled.\<close> The exported C interface and the rest of the agent (connections, subscriptions,
  callbacks, threads), cloud services (requests to a remote service through libcurl), certificates
  and signing (calls of OpenSSL on files), MQTT and FTPS (wrappers of libraries and sockets),
  discovery, configuration, logs and the generated table of error texts, the cover cache and
  server, the camera front end, the portability layer, the player library but for its H.264
  helpers, and the developer tools. Their code is mostly calls of the system, of libraries and of
  each other.
\<close>

section \<open>The id of a project archive\<close>

text \<open>
  C30. The design id of a project: of an archive a writer made, the content of the first
  \<open>DesignModelId\<close> metadata element of its model document, which may hold a prolog, comments,
  CDATA sections, any other elements and metadata with any attributes before it, empty when the
  document has no such element; and an error when the archive has no model document or one that is
  too large. Metadata that is commented out or stands in a CDATA section does not count.
\<close>

theorem design_id_of_archive:
  assumes "archive_ok z stub members comment" "files path = Some \<lparr>zf_data = zip_archive z stub members comment, zf_fails = \<lambda>_ _. False\<rparr>"
    and "\<forall>m \<in> set members. zm_name m = kModelMember \<longrightarrow> zm_data m = bytes_of_string (xml_document xs)"
    and "list_all item_ok xs"
  shows "makerworld_design_id (read_entry z files) path =
    (if \<not> (\<exists>m \<in> set members. zm_name m = kModelMember) then Inl ''entry not found''
     else if kMaxModelBytes < length (xml_document xs) then Inl ''entry too large''
     else Inr (metadata_of xs ''DesignModelId''))"
proof (cases "find (\<lambda>m. zm_name m = kModelMember) members")
  case None
  have "\<not> (\<exists>m \<in> set members. zm_name m = kModelMember)" using None by (simp add: find_None_iff)
  then show ?thesis unfolding makerworld_design_id_def read_member_of_archive [where files = files and path = path, OF assms(1,2)] using None by simp
next
  case (Some m)
  then have m: "m \<in> set members" "zm_name m = kModelMember" by (auto simp: find_Some_iff)
  then have "zm_data m = bytes_of_string (xml_document xs)" using assms(3) by simp
  moreover have "\<exists>m \<in> set members. zm_name m = kModelMember" using m by (rule bexI [rotated])
  ultimately show ?thesis
    using assms(1,2) Some by (simp add: makerworld_design_id_def read_member_of_archive metadata_lookup [OF assms(4)])
qed

text \<open>A document with an element of the name in a comment, one in a section and the one that counts.\<close>

definition demo_items :: "xml_item list" where
  "demo_items =
     [Instruction ''xml version='', Tag ''model unit='', Piece (Comment (metadata_element ''DesignModelId'' ''old'')),
      Piece (Cdata (metadata_element ''DesignModelId'' ''raw'')),
      Meta [(''preserve'', CHR 0x27, ''1''), (''name'', CHR 0x22, ''Title'')] (Some [Chars ''A & B'']),
      Meta [(''name'', CHR 0x22, ''Copyright'')] None,
      Meta [(''name'', CHR 0x27, ''DesignModelId'')] (Some [Chars ''US'', Comment ''<'', Cdata ''<12>'']),
      Tag ''resources/'', Tag ''/model'']"

definition demo_model :: "zip_member list" where
  "demo_model = [demo_member ''a'' [1, 2] [1, 2] 0,
     (let d = bytes_of_string (xml_document demo_items) in demo_member kModelMember d d 0)]"

lemma demo_items_ok: "list_all item_ok demo_items" "length (xml_document demo_items) < 1000"
  "metadata_of demo_items ''DesignModelId'' = ''US<12>''"
  by code_simp+

lemma demo_model_ok: "archive_ok demo_zlib [0] demo_model []"
  using demo_items_ok(2)
  by (simp add: archive_ok_def demo_model_def demo_member_def member_ok_def demo_zlib_def zip_body_def local_part_def Let_def
      kMaxPacked_def kMaxCentralDir_def kModelMember_def bytes_of_string_def)

theorem design_id_of_archive_witness:
  "makerworld_design_id (read_entry demo_zlib (\<lambda>_. Some \<lparr>zf_data = zip_archive demo_zlib [0] demo_model [], zf_fails = \<lambda>_ _. False\<rparr>)) ''p.3mf'' = Inr ''US<12>''"
  using design_id_of_archive [OF demo_model_ok, of "\<lambda>_. Some \<lparr>zf_data = zip_archive demo_zlib [0] demo_model [], zf_fails = \<lambda>_ _. False\<rparr>" "''p.3mf''" demo_items]
    demo_items_ok
  by (simp add: demo_model_def demo_member_def Let_def kModelMember_def kMaxModelBytes_def)

end
